(* ===== verification/Prelude.thy ===== *)
theory Prelude
  imports Main "HOL-Library.Word"
begin

section \<open>Prelude: types, collections and shared list lemmas\<close>

text \<open>
  What every component shares: names for the machine types of the C++ sources, the
  collections that carry the component proofs, and generic lemmas on lists, words and
  searches. Nothing here models a line of the repository.
\<close>

type_synonym u8 = "8 word"
type_synonym u16 = "16 word"
type_synonym u32 = "32 word"
type_synonym size_t = "64 word"

text \<open>A file descriptor is a C++ \<open>int\<close>; \<open>-1\<close> is the invalid one.\<close>

type_synonym fd = int

text \<open>
  \<open>str_eqs\<close> collects the rewrite rules of the string library, \<open>block_eqs\<close> the unfolding
  equations of straight-line code blocks, and \<open>keeps\<close> the facts that an operation keeps
  an invariant.
\<close>

named_theorems str_eqs \<open>rewrite rules of the string operations\<close>
named_theorems block_eqs \<open>unfolding equations of code blocks\<close>
named_theorems keeps \<open>preservation lemmas\<close>

subsection \<open>Searching a list for the first occurrence of a pattern\<close>

primrec find_sub :: "'a list \<Rightarrow> 'a list \<Rightarrow> nat option" where
  "find_sub pat [] = (if pat = [] then Some 0 else None)"
| "find_sub pat (c # s) =
     (if take (length pat) (c # s) = pat then Some 0 else map_option Suc (find_sub pat s))"

lemma find_sub_Some_bound:
  "find_sub pat s = Some i \<Longrightarrow> i + length pat \<le> length s"
proof (induction s arbitrary: i)
  case Nil
  then show ?case by (auto split: if_splits)
next
  case (Cons c s)
  show ?case
  proof (cases "take (length pat) (c # s) = pat")
    case True
    then have "length pat \<le> length (c # s)" by (metis length_take min.cobounded1)
    with True Cons.prems show ?thesis by simp
  next
    case False
    with Cons show ?thesis by auto
  qed
qed

lemma find_sub_Some_match:
  "find_sub pat s = Some i \<Longrightarrow> take (length pat) (drop i s) = pat"
  by (induction s arbitrary: i) (auto split: if_splits)

lemma take_append_match:
  "take (length pat) s = pat \<Longrightarrow> take (length pat) (s @ t) = pat"
  by (metis append_Nil2 diff_is_0_eq length_take min.cobounded1 take_0 take_append)

lemma find_sub_append:
  "find_sub pat s = Some i \<Longrightarrow> pat \<noteq> [] \<Longrightarrow> find_sub pat (s @ t) = Some i"
proof (induction s arbitrary: i)
  case Nil
  then show ?case by simp
next
  case (Cons c s)
  show ?case
  proof (cases "take (length pat) (c # s) = pat")
    case True
    then have "take (length pat) ((c # s) @ t) = pat" by (rule take_append_match)
    with True Cons.prems show ?thesis by simp
  next
    case False
    with Cons.prems obtain j where j: "find_sub pat s = Some j" "i = Suc j" by auto
    have "length pat \<le> length (c # s)" using find_sub_Some_bound [OF j(1)] by simp
    then have "take (length pat) ((c # s) @ t) = take (length pat) (c # s)"
      by (metis diff_is_0_eq take_append take_0 append_Nil2)
    then have "take (length pat) ((c # s) @ t) \<noteq> pat" using False by simp
    with False j Cons show ?thesis by simp
  qed
qed

lemma find_sub_take:
  "find_sub pat s = Some i \<Longrightarrow> pat \<noteq> [] \<Longrightarrow> find_sub pat (take i s) = None"
proof (induction s arbitrary: i)
  case Nil
  then show ?case by simp
next
  case (Cons c s)
  show ?case
  proof (cases "take (length pat) (c # s) = pat")
    case True
    with Cons.prems show ?thesis by simp
  next
    case False
    with Cons.prems obtain j where j: "find_sub pat s = Some j" "i = Suc j" by auto
    have "take (length pat) (c # take j s) \<noteq> pat"
    proof
      assume a: "take (length pat) (c # take j s) = pat"
      have "take (length pat) (c # take j s @ drop j s) = pat"
        using take_append_match [OF a, of "drop j s"] by simp
      with False show False by simp
    qed
    with j Cons show ?thesis by simp
  qed
qed

text \<open>A single character: the first occurrence is at the length of the part before it.\<close>

lemma find_sub_single:
  "find_sub [c] s = (if c \<in> set s then Some (length (takeWhile (\<lambda>x. x \<noteq> c) s)) else None)"
  by (induction s) auto

lemma find_char_at: "c \<notin> set s \<Longrightarrow> find_sub [c] (s @ c # t) = Some (length s)"
  by (induction s) auto

lemma find_char_Some:
  "find_sub [c] s = Some i \<Longrightarrow> s = take i s @ c # drop (Suc i) s \<and> c \<notin> set (take i s) \<and> i < length s"
  by (induction s arbitrary: i) (auto split: if_splits)

lemma find_char_None: "find_sub [c] s = None \<longleftrightarrow> c \<notin> set s"
  by (simp add: find_sub_single)

lemma find_sub_infix_free:
  "find_sub pat (xs @ ys) = None \<Longrightarrow> pat \<noteq> [] \<Longrightarrow> find_sub pat xs = None"
  using find_sub_append [of pat xs _ ys] by (cases "find_sub pat xs") auto

lemma find_sub_suffix_free:
  "find_sub pat (xs @ ys) = None \<Longrightarrow> find_sub pat ys = None"
proof (induction xs)
  case Nil
  then show ?case by simp
next
  case (Cons x xs)
  then show ?case by (auto split: if_splits)
qed

lemma find_sub_drop_free: "find_sub pat s = None \<Longrightarrow> find_sub pat (drop n s) = None"
  using find_sub_suffix_free [of pat "take n s" "drop n s"] by simp

lemma find_sub_take_free:
  "find_sub pat s = None \<Longrightarrow> pat \<noteq> [] \<Longrightarrow> find_sub pat (take n s) = None"
  using find_sub_infix_free [of pat "take n s" "drop n s"] by simp

end
