(* ===== verification/Cxx_Std.thy ===== *)
theory Cxx_Std
  imports Prelude
begin

section \<open>The part of the C++ standard library the sources use\<close>

text \<open>
  Strings are byte lists. The character functions are those of the "C" locale (the
  programs never call \<open>setlocale\<close>). Positions and sizes are natural numbers;
  \<open>npos\<close> is \<open>None\<close>. Values that the code converts between integer types are cut to
  the width of the target type.
\<close>

abbreviation CR :: char where "CR \<equiv> CHR 0x0D"
abbreviation LF :: char where "LF \<equiv> CHR 0x0A"

definition CRLF :: string where
  "CRLF = [CR, LF]"

lemma length_CRLF [simp]: "length CRLF = 2"
  by (simp add: CRLF_def)

lemma CRLF_not_Nil [simp]: "CRLF \<noteq> []"
  by (simp add: CRLF_def)

subsection \<open>Characters\<close>

definition tolower :: "char \<Rightarrow> char" where
  "tolower c = (let n = (of_char c :: nat) in if 65 \<le> n \<and> n \<le> 90 then char_of (n + 32) else c)"

definition isspace :: "char \<Rightarrow> bool" where
  "isspace c \<longleftrightarrow> (let n = (of_char c :: nat) in n = 32 \<or> (9 \<le> n \<and> n \<le> 13))"

definition isdigit :: "char \<Rightarrow> bool" where
  "isdigit c \<longleftrightarrow> (let n = (of_char c :: nat) in 48 \<le> n \<and> n \<le> 57)"

lemma tolower_tolower [simp]: "tolower (tolower c) = tolower c"
  by (simp add: tolower_def Let_def)

lemma isspace_CR [simp]: "isspace CR" and isspace_LF [simp]: "isspace LF"
  and isspace_blank [simp]: "isspace CHR '' ''"
  by (simp_all add: isspace_def)

subsection \<open>std::string\<close>

text \<open>\<open>find(pat, pos)\<close>; \<open>None\<close> is \<open>npos\<close>.\<close>

definition str_find :: "string \<Rightarrow> string \<Rightarrow> nat \<Rightarrow> nat option" where
  "str_find s pat pos =
     (if pos \<le> length s then map_option ((+) pos) (find_sub pat (drop pos s)) else None)"

definition substr :: "string \<Rightarrow> nat \<Rightarrow> nat \<Rightarrow> string" where
  "substr s pos n = take n (drop pos s)"

text \<open>\<open>substr(pos)\<close>, and \<open>erase(0, n)\<close>, which leaves the same characters.\<close>

definition substr_from :: "string \<Rightarrow> nat \<Rightarrow> string" where
  "substr_from s pos = drop pos s"

definition erase_front :: "string \<Rightarrow> nat \<Rightarrow> string" where
  "erase_front s n = drop n s"

text \<open>\<open>c_str()\<close> read as a C string: up to the first NUL.\<close>

definition c_str :: "string \<Rightarrow> string" where
  "c_str s = takeWhile (\<lambda>c. c \<noteq> CHR 0x00) s"

lemma str_find_0 [simp, str_eqs]: "str_find s pat 0 = find_sub pat s"
  by (cases "find_sub pat s") (simp_all add: str_find_def)

lemmas str_op_defs [str_eqs] = substr_def substr_from_def erase_front_def

subsection \<open>std::to_string, strtol, atoi\<close>

definition digit_char :: "nat \<Rightarrow> char" where
  "digit_char d = char_of (48 + d)"

definition digit_val :: "char \<Rightarrow> nat" where
  "digit_val c = of_char c - 48"

fun nat_to_string :: "nat \<Rightarrow> string" where
  "nat_to_string n =
     (if n < 10 then [digit_char n] else nat_to_string (n div 10) @ [digit_char (n mod 10)])"

declare nat_to_string.simps [simp del]

definition to_string :: "int \<Rightarrow> string" where
  "to_string z = (if z < 0 then CHR ''-'' # nat_to_string (nat (- z)) else nat_to_string (nat z))"

definition digits_val :: "string \<Rightarrow> nat" where
  "digits_val ds = foldl (\<lambda>a c. 10 * a + digit_val c) 0 ds"

text \<open>
  \<open>strtol(s, &end, 10)\<close>: the value, saturated to \<open>long\<close> (64 bit), and the offset of
  \<open>end\<close>; the offset is 0 when no conversion could be performed.
\<close>

definition LONG_MAX :: int where "LONG_MAX = 2 ^ 63 - 1"
definition LONG_MIN :: int where "LONG_MIN = - (2 ^ 63)"

definition strtol :: "string \<Rightarrow> int \<times> nat" where
  "strtol s =
     (let t = dropWhile isspace s;
          neg = (t \<noteq> [] \<and> hd t = CHR ''-'');
          u = (if t \<noteq> [] \<and> (hd t = CHR ''-'' \<or> hd t = CHR ''+'') then tl t else t);
          ds = takeWhile isdigit u;
          v = (if neg then - int (digits_val ds) else int (digits_val ds))
      in if ds = [] then (0, 0)
         else (max LONG_MIN (min LONG_MAX v), length s - length u + length ds))"

text \<open>\<open>static_cast<int>(long)\<close> keeps the low 32 bits as a two's complement value.\<close>

definition int32 :: "int \<Rightarrow> int" where
  "int32 z = signed_take_bit 31 z"

definition atoi :: "string \<Rightarrow> int" where
  "atoi s = int32 (fst (strtol s))"

subsection \<open>strcasecmp and getline\<close>

definition strcasecmp_eq :: "string \<Rightarrow> string \<Rightarrow> bool" where
  "strcasecmp_eq a b \<longleftrightarrow> map tolower (c_str a) = map tolower (c_str b)"

text \<open>
  The entries that \<open>while (std::getline(ss, entry, d))\<close> yields: the pieces between
  delimiters, without an empty piece at the end of the input.
\<close>

function getline_entries :: "char \<Rightarrow> string \<Rightarrow> string list" where
  "getline_entries d s =
     (if s = [] then []
      else takeWhile (\<lambda>c. c \<noteq> d) s # getline_entries d (tl (dropWhile (\<lambda>c. c \<noteq> d) s)))"
  by pat_completeness auto
termination
proof (relation "measure (\<lambda>(d, s). length s)")
  show "wf (measure (\<lambda>(d :: char, s :: string). length s))" by simp
next
  fix d :: char and s :: string
  assume "s \<noteq> []"
  moreover have "length (dropWhile (\<lambda>c. c \<noteq> d) s) \<le> length s" by (rule length_dropWhile_le)
  ultimately show "((d, tl (dropWhile (\<lambda>c. c \<noteq> d) s)), (d, s)) \<in> measure (\<lambda>(d, s). length s)"
    by (cases s) auto
qed

declare getline_entries.simps [simp del]

subsection \<open>Decimal round trip\<close>

lemma digit_char_digit: "d < 10 \<Longrightarrow> isdigit (digit_char d) \<and> digit_val (digit_char d) = d"
  by (simp add: isdigit_def digit_char_def digit_val_def Let_def)

lemma digit_char_bounds: "d < 10 \<Longrightarrow> of_char (digit_char d) = (48 + d :: nat)"
  by (simp add: digit_char_def)

lemma isdigit_not_special:
  "isdigit c \<Longrightarrow> \<not> isspace c \<and> c \<noteq> CHR ''-'' \<and> c \<noteq> CHR ''+'' \<and> c \<noteq> CR \<and> c \<noteq> LF \<and> c \<noteq> CHR '' ''"
  by (auto simp: isdigit_def isspace_def Let_def)

lemma nat_to_string_digits: "\<forall>c \<in> set (nat_to_string n). isdigit c"
proof (induction n rule: nat_to_string.induct)
  case (1 n)
  then show ?case
    by (subst nat_to_string.simps) (auto simp: digit_char_digit)
qed

lemma nat_to_string_nonempty [simp]: "nat_to_string n \<noteq> []"
  by (subst nat_to_string.simps) simp

lemma digits_val_snoc: "digits_val (ds @ [c]) = 10 * digits_val ds + digit_val c"
  by (simp add: digits_val_def)

lemma digits_val_nat_to_string: "digits_val (nat_to_string n) = n"
proof (induction n rule: nat_to_string.induct)
  case (1 n)
  show ?case
  proof (cases "n < 10")
    case True
    then show ?thesis
      by (subst nat_to_string.simps) (simp add: digits_val_def digit_char_digit)
  next
    case False
    with 1 show ?thesis
      by (subst nat_to_string.simps) (simp add: digits_val_snoc digit_char_digit)
  qed
qed

text \<open>\<open>strtol\<close> reads back what \<open>std::to_string\<close> printed, for every \<open>long\<close>.\<close>

lemma strtol_nat_to_string:
  assumes "int n \<le> LONG_MAX"
  shows "strtol (nat_to_string n) = (int n, length (nat_to_string n))"
proof -
  obtain c cs where e: "nat_to_string n = c # cs"
    by (cases "nat_to_string n") auto
  then have d: "\<forall>x \<in> set (c # cs). isdigit x" using nat_to_string_digits [of n] by simp
  then have tw: "takeWhile isdigit (c # cs) = c # cs" by (simp add: takeWhile_eq_all_conv)
  have c: "\<not> isspace c" "c \<noteq> CHR ''-''" "c \<noteq> CHR ''+''" using d isdigit_not_special by auto
  have v: "digits_val (c # cs) = n" using digits_val_nat_to_string [of n] e by simp
  have "LONG_MIN \<le> int n" by (simp add: LONG_MIN_def)
  with assms c v show ?thesis by (simp add: strtol_def e Let_def tw del: takeWhile.simps)
qed

lemma strtol_to_string:
  assumes "LONG_MIN < z" "z \<le> LONG_MAX"
  shows "fst (strtol (to_string z)) = z \<and> snd (strtol (to_string z)) \<noteq> 0"
proof (cases "z < 0")
  case False
  with assms strtol_nat_to_string [of "nat z"] show ?thesis by (simp add: to_string_def)
next
  case True
  let ?ds = "nat_to_string (nat (- z))"
  have tw: "takeWhile isdigit ?ds = ?ds"
    using nat_to_string_digits by (simp add: takeWhile_eq_all_conv)
  have sp: "\<not> isspace CHR ''-''" by (simp add: isspace_def)
  have "z \<le> LONG_MAX" using True by (simp add: LONG_MAX_def)
  with True assms sp show ?thesis
    by (simp add: strtol_def to_string_def Let_def digits_val_nat_to_string tw)
qed

lemma to_string_chars:
  "c \<in> set (to_string z) \<Longrightarrow> isdigit c \<or> c = CHR ''-''"
  using nat_to_string_digits by (auto simp: to_string_def split: if_splits)

lemma to_string_nonempty [simp]: "to_string z \<noteq> []"
  by (simp add: to_string_def)

subsection \<open>Lemmas on lines\<close>

lemma find_CRLF_line:
  "find_sub CRLF line = None \<Longrightarrow> find_sub CRLF (line @ CRLF @ rest) = Some (length line)"
proof (induction line)
  case Nil
  then show ?case by (simp add: CRLF_def)
next
  case (Cons c line)
  from Cons.prems have a: "take 2 (c # line) \<noteq> CRLF" "find_sub CRLF line = None"
    by (auto split: if_splits)
  have "take 2 (c # line @ CRLF @ rest) \<noteq> CRLF"
    using a(1) by (cases line) (auto simp: CRLF_def)
  with a Cons.IH show ?case by simp
qed

lemma drop_line [simp]: "drop (length line + 2) (line @ CRLF @ rest) = rest"
  by (simp add: CRLF_def)

lemma find_CRLF_join:
  assumes "find_sub CRLF xs = None" "find_sub CRLF ys = None" "c \<noteq> CR" "c \<noteq> LF"
  shows "find_sub CRLF (xs @ c # ys) = None"
  using assms
proof (induction xs)
  case Nil
  then show ?case by (cases ys) (auto simp: CRLF_def)
next
  case (Cons x xs)
  then have a: "take 2 (x # xs) \<noteq> CRLF" "find_sub CRLF xs = None" by (auto split: if_splits)
  have "take 2 (x # xs @ c # ys) \<noteq> CRLF"
    using a(1) \<open>c \<noteq> LF\<close> by (cases xs) (auto simp: CRLF_def)
  with a Cons show ?case by simp
qed

lemma find_CRLF_no_LF: "LF \<notin> set s \<Longrightarrow> find_sub CRLF s = None"
proof (induction s)
  case Nil
  then show ?case by simp
next
  case (Cons c s)
  then have "take 2 (c # s) \<noteq> CRLF" by (cases s) (auto simp: CRLF_def)
  with Cons show ?case by simp
qed

lemma find_CRLF_no_CR: "CR \<notin> set s \<Longrightarrow> find_sub CRLF s = None"
proof (induction s)
  case Nil
  then show ?case by simp
next
  case (Cons c s)
  then have "take 2 (c # s) \<noteq> CRLF" by (cases s) (auto simp: CRLF_def)
  with Cons show ?case by simp
qed

end
