(* ===== verification/Http_Message.thy ===== *)
theory Http_Message
  imports Cxx_Std
begin

section \<open>HTTP messages\<close>

text \<open>
  The message types of \<open>include/net/http_message.h\<close>, the helper functions of
  \<open>src/net/http_parser.cpp\<close> that work on strings and header lists, and the response
  printer. The lemmas give the reference meaning of the index loops (\<open>trim\<close>) and of the
  accumulating loop of \<open>serialize\<close>.
\<close>

type_synonym HeaderList = "(string \<times> string) list"

record HttpRequest =
  rq_method :: string
  rq_target :: string
  rq_version :: string
  rq_headers :: HeaderList
  rq_body :: string
  rq_keepAlive :: bool

definition HttpRequest_new :: HttpRequest where
  "HttpRequest_new =
     \<lparr>rq_method = [], rq_target = [], rq_version = [], rq_headers = [], rq_body = [],
      rq_keepAlive = True\<rparr>"

record HttpResponse =
  rs_status :: int
  rs_reason :: string
  rs_headers :: HeaderList
  rs_body :: string
  rs_keepAlive :: bool

definition HttpResponse_new :: HttpResponse where
  "HttpResponse_new =
     \<lparr>rs_status = 200, rs_reason = ''OK'', rs_headers = [], rs_body = [], rs_keepAlive = True\<rparr>"

subsection \<open>String helpers\<close>

definition toLower :: "string \<Rightarrow> string" where
  "toLower s = map tolower s"

function trim_start :: "string \<Rightarrow> nat \<Rightarrow> nat \<Rightarrow> nat" where
  "trim_start s i e = (if i < e \<and> isspace (s ! i) then trim_start s (Suc i) e else i)"
  by pat_completeness auto
termination by (relation "measure (\<lambda>(s, i, e). e - i)") auto

fun trim_end :: "string \<Rightarrow> nat \<Rightarrow> nat \<Rightarrow> nat" where
  "trim_end s i e = (if i < e \<and> isspace (s ! (e - 1)) then trim_end s i (e - 1) else e)"

declare trim_start.simps [simp del] trim_end.simps [simp del]

definition trim :: "string \<Rightarrow> string" where
  "trim s =
     (let i = trim_start s 0 (length s);
          e = trim_end s i (length s)
      in substr s i (e - i))"

subsection \<open>Header lookup\<close>

primrec findHeader :: "HeaderList \<Rightarrow> string \<Rightarrow> string option" where
  "findHeader [] name = None"
| "findHeader (h # hs) name =
     (if length (fst h) = length name \<and> list_all2 (\<lambda>a b. tolower a = tolower b) (fst h) name
      then Some (snd h) else findHeader hs name)"

definition HttpRequest_header :: "HttpRequest \<Rightarrow> string \<Rightarrow> string option" where
  "HttpRequest_header r name = findHeader (rq_headers r) name"

definition contentLengthFrom :: "HeaderList \<Rightarrow> nat" where
  "contentLengthFrom headers =
     (case findHeader headers ''Content-Length'' of
        None \<Rightarrow> 0
      | Some cl \<Rightarrow> (let (v, e) = strtol (c_str cl) in if e = 0 \<or> v < 0 then 0 else nat v))"

definition connectionKeepAlive :: "HeaderList \<Rightarrow> string \<Rightarrow> bool" where
  "connectionKeepAlive headers version =
     (case findHeader headers ''Connection'' of
        None \<Rightarrow> version = ''HTTP/1.1''
      | Some conn \<Rightarrow>
          (let v = toLower conn
           in if str_find v ''close'' 0 \<noteq> None then False
              else if str_find v ''keep-alive'' 0 \<noteq> None then True
              else version = ''HTTP/1.1''))"

subsection \<open>Printing responses\<close>

primrec serialize_loop :: "HeaderList \<Rightarrow> bool \<times> bool \<times> string \<Rightarrow> bool \<times> bool \<times> string" where
  "serialize_loop [] acc = acc"
| "serialize_loop (h # hs) acc =
     (let (hasContentLength, hasConnection, out) = acc;
          (k, v) = h
      in serialize_loop hs
           (toLower k = ''content-length'' \<or> hasContentLength,
            toLower k = ''connection'' \<or> hasConnection,
            out @ k @ '': '' @ v @ CRLF))"

definition serialize :: "HttpResponse \<Rightarrow> string" where
  "serialize r =
     (let out = ''HTTP/1.1 '' @ to_string (rs_status r) @ '' '' @ rs_reason r @ CRLF;
          (hasContentLength, hasConnection, out) = serialize_loop (rs_headers r) (False, False, out);
          out = (if \<not> hasContentLength
                 then out @ ''Content-Length: '' @ nat_to_string (length (rs_body r)) @ CRLF
                 else out);
          out = (if \<not> hasConnection
                 then out @ ''Connection: '' @ (if rs_keepAlive r then ''keep-alive'' else ''close'') @ CRLF
                 else out)
      in out @ CRLF @ rs_body r)"

definition makeJsonResponse :: "int \<Rightarrow> string \<Rightarrow> string \<Rightarrow> HttpResponse" where
  "makeJsonResponse status reason json =
     HttpResponse_new\<lparr>rs_status := status, rs_reason := reason,
       rs_headers := rs_headers HttpResponse_new @ [(''Content-Type'', ''application/json'')],
       rs_body := json\<rparr>"

subsection \<open>The index loops of trim\<close>

lemma trim_start_dropWhile:
  "i \<le> length s \<Longrightarrow> drop (trim_start s i (length s)) s = dropWhile isspace (drop i s)
     \<and> i \<le> trim_start s i (length s) \<and> trim_start s i (length s) \<le> length s"
proof (induction s i "length s" rule: trim_start.induct)
  case (1 s i)
  show ?case
  proof (cases "i < length s \<and> isspace (s ! i)")
    case True
    then have "drop i s = s ! i # drop (Suc i) s" by (simp add: Cons_nth_drop_Suc)
    with True 1 show ?thesis by (subst (1 2 3) trim_start.simps) auto
  next
    case False
    then have "dropWhile isspace (drop i s) = drop i s"
      by (cases "i < length s") (auto simp: Cons_nth_drop_Suc [symmetric])
    with False 1 show ?thesis by (subst (1 2 3) trim_start.simps) auto
  qed
qed

lemma take_drop_snoc:
  assumes "i < e" "e \<le> length s"
  shows "take (e - i) (drop i s) = take (e - 1 - i) (drop i s) @ [s ! (e - 1)]"
proof -
  from assms have "e - 1 - i < length (drop i s)" by auto
  from take_Suc_conv_app_nth [OF this] assms show ?thesis by (simp add: Suc_diff_Suc)
qed

lemma trim_end_dropWhile:
  "i \<le> e \<Longrightarrow> e \<le> length s \<Longrightarrow>
     take (trim_end s i e - i) (drop i s) = rev (dropWhile isspace (rev (take (e - i) (drop i s))))"
proof (induction s i e rule: trim_end.induct)
  case (1 s i e)
  show ?case
  proof (cases "i < e \<and> isspace (s ! (e - 1))")
    case True
    with 1(3) have "take (e - i) (drop i s) = take (e - 1 - i) (drop i s) @ [s ! (e - 1)]"
      by (simp add: take_drop_snoc)
    with True 1 show ?thesis by (subst trim_end.simps) auto
  next
    case False
    have "dropWhile isspace (rev (take (e - i) (drop i s))) = rev (take (e - i) (drop i s))"
    proof (cases "i < e")
      case True
      with 1(3) have "take (e - i) (drop i s) = take (e - 1 - i) (drop i s) @ [s ! (e - 1)]"
        by (simp add: take_drop_snoc)
      with True False show ?thesis by simp
    next
      case False
      then show ?thesis by simp
    qed
    with False 1 show ?thesis by (subst trim_end.simps) auto
  qed
qed

text \<open>\<open>trim\<close> is the list function: drop white space in front, then at the back.\<close>

lemma trim_eq: "trim s = rev (dropWhile isspace (rev (dropWhile isspace s)))"
proof -
  let ?i = "trim_start s 0 (length s)"
  have i: "drop ?i s = dropWhile isspace s" "?i \<le> length s"
    using trim_start_dropWhile [of 0 s] by auto
  have "take (trim_end s ?i (length s) - ?i) (drop ?i s)
      = rev (dropWhile isspace (rev (take (length s - ?i) (drop ?i s))))"
    using trim_end_dropWhile [of ?i "length s" s] i(2) by simp
  moreover have "take (length s - ?i) (drop ?i s) = drop ?i s" by simp
  ultimately show ?thesis using i by (simp add: trim_def Let_def substr_def)
qed

lemma isspace_hd_trim: "trim s \<noteq> [] \<Longrightarrow> \<not> isspace (hd (trim s)) \<and> \<not> isspace (last (trim s))"
proof -
  assume ne: "trim s \<noteq> []"
  let ?d = "dropWhile isspace s"
  have r: "rev (trim s) = dropWhile isspace (rev ?d)" by (simp add: trim_eq)
  with ne have l: "\<not> isspace (last (trim s))"
    by (metis hd_dropWhile hd_rev rev_is_Nil_conv)
  obtain pre where "rev ?d = pre @ rev (trim s)"
    using r by (metis takeWhile_dropWhile_id)
  then have d: "?d = trim s @ rev pre" by (metis rev_append rev_rev_ident)
  with ne have "hd (trim s) = hd ?d" "?d \<noteq> []" by auto
  with l show ?thesis by (metis hd_dropWhile)
qed

lemma trim_noop:
  assumes "s \<noteq> [] \<longrightarrow> \<not> isspace (hd s) \<and> \<not> isspace (last s)"
  shows "trim s = s"
proof (cases s)
  case Nil
  then show ?thesis by (simp add: trim_eq)
next
  case (Cons c cs)
  with assms have "dropWhile isspace s = s" "dropWhile isspace (rev s) = rev s"
    by (auto simp: hd_rev [symmetric] neq_Nil_conv simp del: rev.simps
        intro: dropWhile_eq_self_iff [THEN iffD2])
  then show ?thesis by (simp add: trim_eq)
qed

lemma trim_trim [simp]: "trim (trim s) = trim s"
  by (rule trim_noop) (auto dest: isspace_hd_trim)

lemma trim_blank: "trim (CHR '' '' # s) = trim s"
  by (simp add: trim_eq)

lemma trim_infix: "\<exists>pre post. s = pre @ trim s @ post"
proof -
  let ?d = "dropWhile isspace s"
  have "rev ?d = takeWhile isspace (rev ?d) @ rev (trim s)" by (simp add: trim_eq)
  then have "?d = trim s @ rev (takeWhile isspace (rev ?d))" by (metis rev_append rev_rev_ident)
  then show ?thesis by (metis takeWhile_dropWhile_id)
qed

lemma find_CRLF_trim: "find_sub CRLF s = None \<Longrightarrow> find_sub CRLF (trim s) = None"
  using trim_infix [of s] by (metis CRLF_not_Nil find_sub_infix_free find_sub_suffix_free)

lemma set_trim: "c \<in> set (trim s) \<Longrightarrow> c \<in> set s"
  using trim_infix [of s] by (metis Un_iff set_append)

subsection \<open>Header lookup is case-insensitive and finds the first match\<close>

lemma name_match_iff:
  "(length k = length name \<and> list_all2 (\<lambda>a b. tolower a = tolower b) k name)
     \<longleftrightarrow> toLower k = toLower name"
  by (auto simp: toLower_def list_eq_iff_nth_eq list_all2_conv_all_nth)

lemma findHeader_Cons [simp]:
  "findHeader ((k, v) # hs) name = (if toLower k = toLower name then Some v else findHeader hs name)"
  by (simp only: findHeader.simps fst_conv snd_conv name_match_iff)

declare findHeader.simps(2) [simp del]

lemma findHeader_find:
  "findHeader hs name = map_option snd (find (\<lambda>(k, v). toLower k = toLower name) hs)"
proof (induction hs)
  case Nil
  then show ?case by simp
next
  case (Cons h hs)
  then show ?case by (cases h) simp
qed

lemma findHeader_append:
  "findHeader (xs @ ys) name =
     (case findHeader xs name of None \<Rightarrow> findHeader ys name | Some v \<Rightarrow> Some v)"
proof (induction xs)
  case Nil
  then show ?case by simp
next
  case (Cons h xs)
  then show ?case by (cases h) simp
qed

lemma findHeader_None_iff:
  "findHeader hs name = None \<longleftrightarrow> (\<forall>k v. (k, v) \<in> set hs \<longrightarrow> toLower k \<noteq> toLower name)"
proof (induction hs)
  case Nil
  then show ?case by simp
next
  case (Cons h hs)
  then show ?case by (cases h) auto
qed

lemma toLower_idem [simp]: "toLower (toLower s) = toLower s"
  by (simp add: toLower_def)

lemma length_toLower [simp]: "length (toLower s) = length s"
  by (simp add: toLower_def)

lemma toLower_append [simp]: "toLower (a @ b) = toLower a @ toLower b"
  by (simp add: toLower_def)

lemma contentLengthFrom_bound: "int (contentLengthFrom hs) \<le> LONG_MAX"
proof -
  have "fst (strtol s) \<le> LONG_MAX" for s
    by (auto simp: strtol_def Let_def LONG_MAX_def LONG_MIN_def)
  moreover have "0 \<le> LONG_MAX" by (simp add: LONG_MAX_def)
  ultimately show ?thesis
    by (auto simp: contentLengthFrom_def split: option.splits prod.splits)
      (metis fst_conv)
qed

subsection \<open>The text of a header block\<close>

definition headerText :: "HeaderList \<Rightarrow> string" where
  "headerText hs = concat (map (\<lambda>(k, v). k @ '': '' @ v @ CRLF) hs)"

lemma headerText_simps [simp]:
  "headerText [] = []"
  "headerText ((k, v) # hs) = k @ '': '' @ v @ CRLF @ headerText hs"
  "headerText (xs @ ys) = headerText xs @ headerText ys"
  by (simp_all add: headerText_def)

lemma serialize_loop_eq:
  "serialize_loop hs (a, b, out) =
     (a \<or> findHeader hs ''Content-Length'' \<noteq> None,
      b \<or> findHeader hs ''Connection'' \<noteq> None, out @ headerText hs)"
proof (induction hs arbitrary: a b out)
  case Nil
  then show ?case by simp
next
  case (Cons h hs)
  have "toLower ''Content-Length'' = ''content-length''" "toLower ''Connection'' = ''connection''"
    by code_simp+
  with Cons show ?case by (cases h) (simp add: Let_def)
qed

text \<open>The header list that a printed response really carries.\<close>

definition printed_headers :: "HttpResponse \<Rightarrow> HeaderList" where
  "printed_headers r =
     rs_headers r
     @ (if findHeader (rs_headers r) ''Content-Length'' = None
        then [(''Content-Length'', nat_to_string (length (rs_body r)))] else [])
     @ (if findHeader (rs_headers r) ''Connection'' = None
        then [(''Connection'', if rs_keepAlive r then ''keep-alive'' else ''close'')] else [])"

lemma serialize_eq:
  "serialize r =
     ''HTTP/1.1 '' @ to_string (rs_status r) @ '' '' @ rs_reason r @ CRLF
     @ headerText (printed_headers r) @ CRLF @ rs_body r"
  by (simp add: serialize_def Let_def serialize_loop_eq printed_headers_def)

end
