(* ===== verification/Http_Parser.thy ===== *)
theory Http_Parser
  imports Http_Message
begin

section \<open>The incremental HTTP parsers\<close>

text \<open>
  \<open>HttpParser\<close> and \<open>HttpResponseParser\<close> of \<open>src/net/http_parser.cpp\<close>. Each \<open>process()\<close>
  is three blocks, one per state; a block either returns early (\<open>Inl\<close>, the status and
  the parser as it stands) or falls through to the next one (\<open>Inr\<close>). The header loop of
  both classes is refined to one reference scanner, \<open>scan_headers\<close>, on which the laws of
  incremental parsing are proved once.
\<close>

datatype ParseStatus = NeedMoreData | ParseComplete | ParseError

subsection \<open>Line helpers\<close>

definition extractLine :: "string \<Rightarrow> nat \<Rightarrow> (nat \<times> string) option" where
  "extractLine buffer pos =
     (case str_find buffer CRLF pos of
        None \<Rightarrow> None
      | Some crlf \<Rightarrow> Some (crlf + 2, substr buffer pos (crlf - pos)))"

definition parseGenericHeaderLine :: "string \<Rightarrow> HeaderList \<Rightarrow> bool \<times> HeaderList" where
  "parseGenericHeaderLine line headers =
     (case str_find line '':'' 0 of
        None \<Rightarrow> (False, headers)
      | Some colon \<Rightarrow>
          (let name = trim (substr line 0 colon);
               value = trim (substr_from line (colon + 1))
           in if name = [] then (False, headers) else (True, headers @ [(name, value)])))"

lemma extractLine_bounds:
  "extractLine buffer 0 = Some (pos, line) \<Longrightarrow>
     2 \<le> pos \<and> pos \<le> length buffer \<and> line = take (pos - 2) buffer \<and> find_sub CRLF line = None"
  using find_sub_Some_bound [of CRLF buffer] find_sub_take [of CRLF buffer]
  by (auto simp: extractLine_def substr_def split: option.splits)

lemma extractLine_append:
  "extractLine buffer 0 = Some (pos, line) \<Longrightarrow> extractLine (buffer @ s) 0 = Some (pos, line)"
  using find_sub_Some_bound [of CRLF buffer] find_sub_append [of CRLF buffer _ s]
  by (auto simp: extractLine_def substr_def split: option.splits)

lemma extractLine_line:
  "find_sub CRLF line = None \<Longrightarrow> extractLine (line @ CRLF @ rest) 0 = Some (length line + 2, line)"
  by (simp add: extractLine_def find_CRLF_line substr_def)

subsection \<open>HttpParser\<close>

datatype State = RequestLine | Headers | Body | Complete | Error

text \<open>The states in the order a parser goes through them; \<open>Error\<close> is the last.\<close>

fun state_rank :: "State \<Rightarrow> nat" where
  "state_rank RequestLine = 0"
| "state_rank Headers = 1"
| "state_rank Body = 2"
| "state_rank Complete = 3"
| "state_rank Error = 4"

instantiation State :: linorder
begin

definition less_eq_State :: "State \<Rightarrow> State \<Rightarrow> bool" where
  "s \<le> t \<longleftrightarrow> state_rank s \<le> state_rank t"

definition less_State :: "State \<Rightarrow> State \<Rightarrow> bool" where
  "s < t \<longleftrightarrow> state_rank s < state_rank t"

instance
proof
  fix s t u :: State
  show "(s < t) = (s \<le> t \<and> \<not> t \<le> s)" by (auto simp: less_eq_State_def less_State_def)
  show "s \<le> s" by (simp add: less_eq_State_def)
  show "s \<le> t \<Longrightarrow> t \<le> u \<Longrightarrow> s \<le> u" by (simp add: less_eq_State_def)
  show "s \<le> t \<Longrightarrow> t \<le> s \<Longrightarrow> s = t" by (cases s; cases t) (simp_all add: less_eq_State_def)
  show "s \<le> t \<or> t \<le> s" by (auto simp: less_eq_State_def)
qed

end

record HttpParser =
  p_state :: State
  p_buffer :: string
  p_bodyBytesNeeded :: nat
  p_req :: HttpRequest

definition HttpParser_new :: HttpParser where
  "HttpParser_new =
     \<lparr>p_state = RequestLine, p_buffer = [], p_bodyBytesNeeded = 0, p_req = HttpRequest_new\<rparr>"

definition parser_done :: "HttpParser \<Rightarrow> bool" where
  "parser_done p \<longleftrightarrow> p_state p = Complete"

definition parser_failed :: "HttpParser \<Rightarrow> bool" where
  "parser_failed p \<longleftrightarrow> p_state p = Error"

definition parser_reset :: "HttpParser \<Rightarrow> HttpParser" where
  "parser_reset p =
     p\<lparr>p_state := RequestLine, p_buffer := [], p_bodyBytesNeeded := 0, p_req := HttpRequest_new\<rparr>"

definition parseRequestLine :: "HttpParser \<Rightarrow> string \<Rightarrow> bool \<times> HttpParser" where
  "parseRequestLine p line =
     (case str_find line '' '' 0 of
        None \<Rightarrow> (False, p)
      | Some sp1 \<Rightarrow>
          (case str_find line '' '' (sp1 + 1) of
             None \<Rightarrow> (False, p)
           | Some sp2 \<Rightarrow>
               (let r = (p_req p)\<lparr>rq_method := substr line 0 sp1,
                                  rq_target := substr line (sp1 + 1) (sp2 - sp1 - 1),
                                  rq_version := substr_from line (sp2 + 1)\<rparr>;
                    p' = p\<lparr>p_req := r\<rparr>
                in if rq_method r = [] \<or> rq_target r = [] then (False, p')
                   else if rq_version r \<noteq> ''HTTP/1.1'' \<and> rq_version r \<noteq> ''HTTP/1.0'' then (False, p')
                   else (True, p'))))"

definition parseHeaderLine :: "HttpParser \<Rightarrow> string \<Rightarrow> bool \<times> HttpParser" where
  "parseHeaderLine p line =
     (let (ok, hs) = parseGenericHeaderLine line (rq_headers (p_req p))
      in (ok, p\<lparr>p_req := (p_req p)\<lparr>rq_headers := hs\<rparr>\<rparr>))"

definition finalizeHeaders :: "HttpParser \<Rightarrow> HttpParser" where
  "finalizeHeaders p =
     p\<lparr>p_bodyBytesNeeded := contentLengthFrom (rq_headers (p_req p)),
       p_req := (p_req p)\<lparr>rq_keepAlive :=
         connectionKeepAlive (rq_headers (p_req p)) (rq_version (p_req p))\<rparr>\<rparr>"

definition processRequestLine :: "HttpParser \<Rightarrow> (ParseStatus \<times> HttpParser) + HttpParser" where
  "processRequestLine p =
     (if p_state p = RequestLine
      then (case extractLine (p_buffer p) 0 of
              None \<Rightarrow> Inl (NeedMoreData, p)
            | Some (pos, line) \<Rightarrow>
                (let (ok, p1) = parseRequestLine p line
                 in if \<not> ok then Inl (ParseError, p1\<lparr>p_state := Error\<rparr>)
                    else Inr (p1\<lparr>p_buffer := erase_front (p_buffer p1) pos, p_state := Headers\<rparr>)))
      else Inr p)"

function headersLoop :: "HttpParser \<Rightarrow> (ParseStatus \<times> HttpParser) + HttpParser" where
  "headersLoop p =
     (case extractLine (p_buffer p) 0 of
        None \<Rightarrow> Inl (NeedMoreData, p)
      | Some (pos, line) \<Rightarrow>
          if line = [] then
            Inr ((finalizeHeaders (p\<lparr>p_buffer := erase_front (p_buffer p) pos\<rparr>))\<lparr>p_state := Body\<rparr>)
          else
            (let (ok, p1) = parseHeaderLine p line
             in if \<not> ok then Inl (ParseError, p1\<lparr>p_state := Error\<rparr>)
                else headersLoop (p1\<lparr>p_buffer := erase_front (p_buffer p1) pos\<rparr>)))"
  by pat_completeness auto
termination
proof (relation "measure (\<lambda>p. length (p_buffer p))")
  show "wf (measure (\<lambda>p. length (p_buffer p)))" by simp
next
  fix p pl pos line okp ok p1
  assume a: "extractLine (p_buffer p) 0 = Some pl" "(pos, line) = pl" "line \<noteq> []"
    "okp = parseHeaderLine p line" "(ok, p1) = okp" "\<not> \<not> ok"
  have "p_buffer p1 = p_buffer p"
    using a(4,5) by (auto simp: parseHeaderLine_def Let_def split: prod.splits)
  with a(1,2) extractLine_bounds [of "p_buffer p" pos line]
  show "(p1\<lparr>p_buffer := erase_front (p_buffer p1) pos\<rparr>, p) \<in> measure (\<lambda>p. length (p_buffer p))"
    by (auto simp: erase_front_def)
qed

declare headersLoop.simps [simp del]

definition processHeaders :: "HttpParser \<Rightarrow> (ParseStatus \<times> HttpParser) + HttpParser" where
  "processHeaders p = (if p_state p = Headers then headersLoop p else Inr p)"

definition processBody :: "HttpParser \<Rightarrow> (ParseStatus \<times> HttpParser) + HttpParser" where
  "processBody p =
     (if p_state p = Body
      then (if length (p_buffer p) < p_bodyBytesNeeded p then Inl (NeedMoreData, p)
            else Inr (p\<lparr>p_req := (p_req p)\<lparr>rq_body := substr (p_buffer p) 0 (p_bodyBytesNeeded p)\<rparr>,
                        p_buffer := erase_front (p_buffer p) (p_bodyBytesNeeded p),
                        p_state := Complete\<rparr>))
      else Inr p)"

definition process :: "HttpParser \<Rightarrow> ParseStatus \<times> HttpParser" where
  "process p =
     (case processRequestLine p of
        Inl r \<Rightarrow> r
      | Inr p1 \<Rightarrow>
          (case processHeaders p1 of
             Inl r \<Rightarrow> r
           | Inr p2 \<Rightarrow>
               (case processBody p2 of
                  Inl r \<Rightarrow> r
                | Inr p3 \<Rightarrow> (ParseComplete, p3))))"

definition consume :: "HttpParser \<Rightarrow> string \<Rightarrow> ParseStatus \<times> HttpParser" where
  "consume p data = process (p\<lparr>p_buffer := p_buffer p @ data\<rparr>)"

subsection \<open>HttpResponseParser\<close>

datatype RState = StatusLine | RHeaders | RBody | RComplete | RError

record HttpResponseParser =
  r_state :: RState
  r_buffer :: string
  r_bodyBytesNeeded :: nat
  r_resp :: HttpResponse

definition HttpResponseParser_new :: HttpResponseParser where
  "HttpResponseParser_new =
     \<lparr>r_state = StatusLine, r_buffer = [], r_bodyBytesNeeded = 0, r_resp = HttpResponse_new\<rparr>"

definition response_done :: "HttpResponseParser \<Rightarrow> bool" where
  "response_done p \<longleftrightarrow> r_state p = RComplete"

definition response_failed :: "HttpResponseParser \<Rightarrow> bool" where
  "response_failed p \<longleftrightarrow> r_state p = RError"

definition response_reset :: "HttpResponseParser \<Rightarrow> HttpResponseParser" where
  "response_reset p =
     p\<lparr>r_state := StatusLine, r_buffer := [], r_bodyBytesNeeded := 0, r_resp := HttpResponse_new\<rparr>"

definition parseStatusLine :: "HttpResponseParser \<Rightarrow> string \<Rightarrow> bool \<times> HttpResponseParser" where
  "parseStatusLine p line =
     (case str_find line '' '' 0 of
        None \<Rightarrow> (False, p)
      | Some sp1 \<Rightarrow>
          (let sp2 = (case str_find line '' '' (sp1 + 1) of None \<Rightarrow> length line | Some i \<Rightarrow> i);
               version = substr line 0 sp1
           in if version \<noteq> ''HTTP/1.1'' \<and> version \<noteq> ''HTTP/1.0'' then (False, p)
              else
                (let statusStr = substr line (sp1 + 1) (sp2 - sp1 - 1);
                     (status, e) = strtol (c_str statusStr)
                 in if e = 0 then (False, p)
                    else (True, p\<lparr>r_resp := (r_resp p)\<lparr>
                            rs_status := int32 status,
                            rs_reason := (if sp2 < length line then substr_from line (sp2 + 1) else [])\<rparr>\<rparr>))))"

definition response_parseHeaderLine :: "HttpResponseParser \<Rightarrow> string \<Rightarrow> bool \<times> HttpResponseParser" where
  "response_parseHeaderLine p line =
     (let (ok, hs) = parseGenericHeaderLine line (rs_headers (r_resp p))
      in (ok, p\<lparr>r_resp := (r_resp p)\<lparr>rs_headers := hs\<rparr>\<rparr>))"

definition response_finalizeHeaders :: "HttpResponseParser \<Rightarrow> HttpResponseParser" where
  "response_finalizeHeaders p =
     p\<lparr>r_bodyBytesNeeded := contentLengthFrom (rs_headers (r_resp p)),
       r_resp := (r_resp p)\<lparr>rs_keepAlive :=
         connectionKeepAlive (rs_headers (r_resp p)) ''HTTP/1.1''\<rparr>\<rparr>"

definition processStatusLine ::
    "HttpResponseParser \<Rightarrow> (ParseStatus \<times> HttpResponseParser) + HttpResponseParser" where
  "processStatusLine p =
     (if r_state p = StatusLine
      then (case extractLine (r_buffer p) 0 of
              None \<Rightarrow> Inl (NeedMoreData, p)
            | Some (pos, line) \<Rightarrow>
                (let (ok, p1) = parseStatusLine p line
                 in if \<not> ok then Inl (ParseError, p1\<lparr>r_state := RError\<rparr>)
                    else Inr (p1\<lparr>r_buffer := erase_front (r_buffer p1) pos, r_state := RHeaders\<rparr>)))
      else Inr p)"

function response_headersLoop ::
    "HttpResponseParser \<Rightarrow> (ParseStatus \<times> HttpResponseParser) + HttpResponseParser" where
  "response_headersLoop p =
     (case extractLine (r_buffer p) 0 of
        None \<Rightarrow> Inl (NeedMoreData, p)
      | Some (pos, line) \<Rightarrow>
          if line = [] then
            Inr ((response_finalizeHeaders (p\<lparr>r_buffer := erase_front (r_buffer p) pos\<rparr>))
                   \<lparr>r_state := RBody\<rparr>)
          else
            (let (ok, p1) = response_parseHeaderLine p line
             in if \<not> ok then Inl (ParseError, p1\<lparr>r_state := RError\<rparr>)
                else response_headersLoop (p1\<lparr>r_buffer := erase_front (r_buffer p1) pos\<rparr>)))"
  by pat_completeness auto
termination
proof (relation "measure (\<lambda>p. length (r_buffer p))")
  show "wf (measure (\<lambda>p. length (r_buffer p)))" by simp
next
  fix p pl pos line okp ok p1
  assume a: "extractLine (r_buffer p) 0 = Some pl" "(pos, line) = pl" "line \<noteq> []"
    "okp = response_parseHeaderLine p line" "(ok, p1) = okp" "\<not> \<not> ok"
  have "r_buffer p1 = r_buffer p"
    using a(4,5) by (auto simp: response_parseHeaderLine_def Let_def split: prod.splits)
  with a(1,2) extractLine_bounds [of "r_buffer p" pos line]
  show "(p1\<lparr>r_buffer := erase_front (r_buffer p1) pos\<rparr>, p) \<in> measure (\<lambda>p. length (r_buffer p))"
    by (auto simp: erase_front_def)
qed

declare response_headersLoop.simps [simp del]

definition response_processHeaders ::
    "HttpResponseParser \<Rightarrow> (ParseStatus \<times> HttpResponseParser) + HttpResponseParser" where
  "response_processHeaders p = (if r_state p = RHeaders then response_headersLoop p else Inr p)"

definition response_processBody ::
    "HttpResponseParser \<Rightarrow> (ParseStatus \<times> HttpResponseParser) + HttpResponseParser" where
  "response_processBody p =
     (if r_state p = RBody
      then (if length (r_buffer p) < r_bodyBytesNeeded p then Inl (NeedMoreData, p)
            else Inr (p\<lparr>r_resp := (r_resp p)\<lparr>rs_body := substr (r_buffer p) 0 (r_bodyBytesNeeded p)\<rparr>,
                        r_buffer := erase_front (r_buffer p) (r_bodyBytesNeeded p),
                        r_state := RComplete\<rparr>))
      else Inr p)"

definition response_process :: "HttpResponseParser \<Rightarrow> ParseStatus \<times> HttpResponseParser" where
  "response_process p =
     (case processStatusLine p of
        Inl r \<Rightarrow> r
      | Inr p1 \<Rightarrow>
          (case response_processHeaders p1 of
             Inl r \<Rightarrow> r
           | Inr p2 \<Rightarrow>
               (case response_processBody p2 of
                  Inl r \<Rightarrow> r
                | Inr p3 \<Rightarrow> (ParseComplete, p3))))"

definition response_consume :: "HttpResponseParser \<Rightarrow> string \<Rightarrow> ParseStatus \<times> HttpResponseParser" where
  "response_consume p data = response_process (p\<lparr>r_buffer := r_buffer p @ data\<rparr>)"

subsection \<open>The reference scanner of a header block\<close>

datatype scan = ScanMore string HeaderList | ScanDone string HeaderList | ScanBad string HeaderList

function scan_headers :: "string \<Rightarrow> HeaderList \<Rightarrow> scan" where
  "scan_headers buf hs =
     (case extractLine buf 0 of
        None \<Rightarrow> ScanMore buf hs
      | Some (pos, line) \<Rightarrow>
          if line = [] then ScanDone (drop pos buf) hs
          else if fst (parseGenericHeaderLine line hs)
               then scan_headers (drop pos buf) (snd (parseGenericHeaderLine line hs))
               else ScanBad buf hs)"
  by pat_completeness auto
termination
proof (relation "measure (\<lambda>(buf, hs). length buf)")
  show "wf (measure (\<lambda>(buf :: string, hs :: HeaderList). length buf))" by simp
next
  fix buf hs pl pos line
  assume "extractLine buf 0 = Some pl" "(pos, line) = pl"
  with extractLine_bounds [of buf pos line]
  show "((drop pos buf, snd (parseGenericHeaderLine line hs)), buf, hs)
      \<in> measure (\<lambda>(buf, hs). length buf)"
    by auto
qed

declare scan_headers.simps [simp del]

text \<open>A rejected header line leaves the list as it was.\<close>

lemma parseGenericHeaderLine_False:
  "\<not> fst (parseGenericHeaderLine line hs) \<Longrightarrow> snd (parseGenericHeaderLine line hs) = hs"
  by (auto simp: parseGenericHeaderLine_def Let_def split: option.splits if_splits)

lemma headersLoop_scan:
  "headersLoop p =
     (case scan_headers (p_buffer p) (rq_headers (p_req p)) of
        ScanMore b h \<Rightarrow> Inl (NeedMoreData, p\<lparr>p_buffer := b, p_req := (p_req p)\<lparr>rq_headers := h\<rparr>\<rparr>)
      | ScanBad b h \<Rightarrow>
          Inl (ParseError, p\<lparr>p_buffer := b, p_req := (p_req p)\<lparr>rq_headers := h\<rparr>, p_state := Error\<rparr>)
      | ScanDone b h \<Rightarrow>
          Inr ((finalizeHeaders (p\<lparr>p_buffer := b, p_req := (p_req p)\<lparr>rq_headers := h\<rparr>\<rparr>))
                 \<lparr>p_state := Body\<rparr>))"
proof (induction p rule: headersLoop.induct)
  case (1 p)
  show ?case
  proof (cases "extractLine (p_buffer p) 0")
    case None
    then show ?thesis by (simp add: headersLoop.simps [of p] scan_headers.simps [of "p_buffer p"])
  next
    case (Some pl)
    obtain pos line where pl: "pl = (pos, line)" by (cases pl)
    obtain ok h where g: "parseGenericHeaderLine line (rq_headers (p_req p)) = (ok, h)"
      by (cases "parseGenericHeaderLine line (rq_headers (p_req p))")
    show ?thesis
      using 1 [OF Some pl [symmetric]] Some pl g
        parseGenericHeaderLine_False [of line "rq_headers (p_req p)"]
      by (cases ok; cases "line = []")
        (simp_all add: headersLoop.simps [of p] scan_headers.simps [of "p_buffer p"]
          parseHeaderLine_def erase_front_def split: scan.splits)
  qed
qed

lemma response_headersLoop_scan:
  "response_headersLoop p =
     (case scan_headers (r_buffer p) (rs_headers (r_resp p)) of
        ScanMore b h \<Rightarrow> Inl (NeedMoreData, p\<lparr>r_buffer := b, r_resp := (r_resp p)\<lparr>rs_headers := h\<rparr>\<rparr>)
      | ScanBad b h \<Rightarrow>
          Inl (ParseError, p\<lparr>r_buffer := b, r_resp := (r_resp p)\<lparr>rs_headers := h\<rparr>, r_state := RError\<rparr>)
      | ScanDone b h \<Rightarrow>
          Inr ((response_finalizeHeaders (p\<lparr>r_buffer := b, r_resp := (r_resp p)\<lparr>rs_headers := h\<rparr>\<rparr>))
                 \<lparr>r_state := RBody\<rparr>))"
proof (induction p rule: response_headersLoop.induct)
  case (1 p)
  show ?case
  proof (cases "extractLine (r_buffer p) 0")
    case None
    then show ?thesis
      by (simp add: response_headersLoop.simps [of p] scan_headers.simps [of "r_buffer p"])
  next
    case (Some pl)
    obtain pos line where pl: "pl = (pos, line)" by (cases pl)
    obtain ok h where g: "parseGenericHeaderLine line (rs_headers (r_resp p)) = (ok, h)"
      by (cases "parseGenericHeaderLine line (rs_headers (r_resp p))")
    show ?thesis
      using 1 [OF Some pl [symmetric]] Some pl g
        parseGenericHeaderLine_False [of line "rs_headers (r_resp p)"]
      by (cases ok; cases "line = []")
        (simp_all add: response_headersLoop.simps [of p] scan_headers.simps [of "r_buffer p"]
          response_parseHeaderLine_def erase_front_def split: scan.splits)
  qed
qed

text \<open>More input after a scan: what was scanned stays scanned.\<close>

lemma scan_headers_append:
  "scan_headers (buf @ s) hs =
     (case scan_headers buf hs of
        ScanMore b h \<Rightarrow> scan_headers (b @ s) h
      | ScanDone b h \<Rightarrow> ScanDone (b @ s) h
      | ScanBad b h \<Rightarrow> ScanBad (b @ s) h)"
proof (induction buf hs rule: scan_headers.induct)
  case (1 buf hs)
  show ?case
  proof (cases "extractLine buf 0")
    case None
    then show ?thesis by (simp add: scan_headers.simps [of buf])
  next
    case (Some pl)
    obtain pos line where pl: "pl = (pos, line)" by (cases pl)
    have "extractLine (buf @ s) 0 = Some (pos, line)" "pos \<le> length buf"
      using Some pl extractLine_append extractLine_bounds by auto
    with 1 [OF Some pl [symmetric]] Some pl show ?thesis
      by (simp add: scan_headers.simps [of buf] scan_headers.simps [of "buf @ s"])
  qed
qed

end
