(* ===== verification/Parser_Incremental.thy ===== *)
theory Parser_Incremental
  imports Http_Parser
begin

section \<open>Incremental parsing\<close>

text \<open>
  Requests and responses arrive in pieces. This theory shows that cutting the input into
  pieces makes no difference: processing a longer buffer resumes where the shorter one
  stopped (one lemma per state of each parser), and the locale \<open>incremental_parser\<close>
  derives from that what the callers of \<open>consume\<close> rely on, for both parser classes.
\<close>

definition parser_push :: "HttpParser \<Rightarrow> string \<Rightarrow> HttpParser" where
  "parser_push p s = p\<lparr>p_buffer := p_buffer p @ s\<rparr>"

definition response_push :: "HttpResponseParser \<Rightarrow> string \<Rightarrow> HttpResponseParser" where
  "response_push p s = p\<lparr>r_buffer := r_buffer p @ s\<rparr>"

text \<open>What a status says of the continuation when more bytes arrive.\<close>

definition resume :: "('p \<Rightarrow> ParseStatus \<times> 'p) \<Rightarrow> ('p \<Rightarrow> string \<Rightarrow> 'p) \<Rightarrow> string \<Rightarrow>
    ParseStatus \<times> 'p \<Rightarrow> ParseStatus \<times> 'p" where
  "resume proc push s r =
     (if fst r = NeedMoreData then proc (push (snd r) s) else (fst r, push (snd r) s))"

lemmas process_block_defs [block_eqs] =
  process_def processRequestLine_def processHeaders_def processBody_def

lemmas response_block_defs [block_eqs] =
  response_process_def processStatusLine_def response_processHeaders_def response_processBody_def

lemma process_settled:
  "p_state p = Complete \<or> p_state p = Error \<Longrightarrow> process p = (ParseComplete, p)"
  by (auto simp: block_eqs)

lemma process_push_Body:
  "p_state p = Body \<Longrightarrow>
     process (parser_push p s) = resume process parser_push s (process p)"
  by (auto simp: block_eqs resume_def parser_push_def substr_def erase_front_def)

lemma process_push_Headers:
  assumes "p_state p = Headers"
  shows "process (parser_push p s) = resume process parser_push s (process p)"
proof (cases "scan_headers (p_buffer p) (rq_headers (p_req p))")
  case (ScanMore b h)
  with assms show ?thesis
    by (simp add: block_eqs resume_def parser_push_def headersLoop_scan scan_headers_append
        split: scan.splits)
next
  case (ScanBad b h)
  with assms show ?thesis
    by (simp add: block_eqs resume_def parser_push_def headersLoop_scan scan_headers_append)
next
  case (ScanDone b h)
  define q where "q = (finalizeHeaders (p\<lparr>p_buffer := b, p_req := (p_req p)\<lparr>rq_headers := h\<rparr>\<rparr>))
                 \<lparr>p_state := Body\<rparr>"
  have "process p = process q"
    using assms ScanDone by (simp add: block_eqs headersLoop_scan q_def)
  moreover have "process (parser_push p s) = process (parser_push q s)"
    using assms ScanDone
    by (simp add: block_eqs parser_push_def headersLoop_scan scan_headers_append q_def
        finalizeHeaders_def)
  moreover have "p_state q = Body" by (simp add: q_def)
  ultimately show ?thesis by (simp add: process_push_Body)
qed

lemma process_push_RequestLine:
  assumes "p_state p = RequestLine"
  shows "process (parser_push p s) = resume process parser_push s (process p)"
proof (cases "extractLine (p_buffer p) 0")
  case None
  with assms show ?thesis by (simp add: block_eqs resume_def)
next
  case (Some pl)
  obtain pos line where pl: "pl = (pos, line)" by (cases pl)
  have e: "extractLine (p_buffer p @ s) 0 = Some (pos, line)" "pos \<le> length (p_buffer p)"
    using Some pl extractLine_append extractLine_bounds by auto
  obtain ok p1 where ok: "parseRequestLine p line = (ok, p1)" by (cases "parseRequestLine p line")
  have ok': "parseRequestLine (parser_push p s) line = (ok, parser_push p1 s)"
    "p_state p1 = p_state p" "p_buffer p1 = p_buffer p"
    using ok by (auto simp: parseRequestLine_def parser_push_def Let_def split: option.splits if_splits)
  show ?thesis
  proof (cases ok)
    case False
    with assms Some pl e ok ok' show ?thesis
      by (simp add: block_eqs resume_def parser_push_def)
  next
    case True
    define q where "q = p1\<lparr>p_buffer := drop pos (p_buffer p1), p_state := Headers\<rparr>"
    have "process p = process q"
      using assms True Some pl ok by (simp add: block_eqs erase_front_def q_def)
    moreover have "process (parser_push p s) = process (parser_push q s)"
      using assms True e ok'
      by (cases p1) (simp add: block_eqs parser_push_def erase_front_def q_def)
    moreover have "p_state q = Headers" by (simp add: q_def)
    ultimately show ?thesis by (simp add: process_push_Headers)
  qed
qed

lemma process_push: "process (parser_push p s) = resume process parser_push s (process p)"
proof (cases "p_state p")
  case Complete
  then show ?thesis by (simp add: process_settled resume_def parser_push_def)
next
  case Error
  then show ?thesis by (simp add: process_settled resume_def parser_push_def)
qed (simp_all add: process_push_RequestLine process_push_Headers process_push_Body)
lemma response_process_settled:
  "r_state p = RComplete \<or> r_state p = RError \<Longrightarrow> response_process p = (ParseComplete, p)"
  by (auto simp: block_eqs)

lemma response_process_push_RBody:
  "r_state p = RBody \<Longrightarrow>
     response_process (response_push p s) = resume response_process response_push s (response_process p)"
  by (auto simp: block_eqs resume_def response_push_def substr_def erase_front_def)

lemma response_process_push_RHeaders:
  assumes "r_state p = RHeaders"
  shows "response_process (response_push p s) = resume response_process response_push s (response_process p)"
proof (cases "scan_headers (r_buffer p) (rs_headers (r_resp p))")
  case (ScanMore b h)
  with assms show ?thesis
    by (simp add: block_eqs resume_def response_push_def response_headersLoop_scan scan_headers_append
        split: scan.splits)
next
  case (ScanBad b h)
  with assms show ?thesis
    by (simp add: block_eqs resume_def response_push_def response_headersLoop_scan scan_headers_append)
next
  case (ScanDone b h)
  define q where "q = (response_finalizeHeaders (p\<lparr>r_buffer := b, r_resp := (r_resp p)\<lparr>rs_headers := h\<rparr>\<rparr>))
                 \<lparr>r_state := RBody\<rparr>"
  have "response_process p = response_process q"
    using assms ScanDone by (simp add: block_eqs response_headersLoop_scan q_def)
  moreover have "response_process (response_push p s) = response_process (response_push q s)"
    using assms ScanDone
    by (simp add: block_eqs response_push_def response_headersLoop_scan scan_headers_append q_def
        response_finalizeHeaders_def)
  moreover have "r_state q = RBody" by (simp add: q_def)
  ultimately show ?thesis by (simp add: response_process_push_RBody)
qed

lemma response_process_push_StatusLine:
  assumes "r_state p = StatusLine"
  shows "response_process (response_push p s) = resume response_process response_push s (response_process p)"
proof (cases "extractLine (r_buffer p) 0")
  case None
  with assms show ?thesis by (simp add: block_eqs resume_def)
next
  case (Some pl)
  obtain pos line where pl: "pl = (pos, line)" by (cases pl)
  have e: "extractLine (r_buffer p @ s) 0 = Some (pos, line)" "pos \<le> length (r_buffer p)"
    using Some pl extractLine_append extractLine_bounds by auto
  obtain ok p1 where ok: "parseStatusLine p line = (ok, p1)" by (cases "parseStatusLine p line")
  have ok': "parseStatusLine (response_push p s) line = (ok, response_push p1 s)"
    "r_state p1 = r_state p" "r_buffer p1 = r_buffer p"
    using ok by (auto simp: parseStatusLine_def response_push_def Let_def split: option.splits if_splits prod.splits)
  show ?thesis
  proof (cases ok)
    case False
    with assms Some pl e ok ok' show ?thesis
      by (simp add: block_eqs resume_def response_push_def)
  next
    case True
    define q where "q = p1\<lparr>r_buffer := drop pos (r_buffer p1), r_state := RHeaders\<rparr>"
    have "response_process p = response_process q"
      using assms True Some pl ok by (simp add: block_eqs erase_front_def q_def)
    moreover have "response_process (response_push p s) = response_process (response_push q s)"
      using assms True e ok'
      by (cases p1) (simp add: block_eqs response_push_def erase_front_def q_def)
    moreover have "r_state q = RHeaders" by (simp add: q_def)
    ultimately show ?thesis by (simp add: response_process_push_RHeaders)
  qed
qed

lemma response_process_push: "response_process (response_push p s) = resume response_process response_push s (response_process p)"
proof (cases "r_state p")
  case RComplete
  then show ?thesis by (simp add: response_process_settled resume_def response_push_def)
next
  case RError
  then show ?thesis by (simp add: response_process_settled resume_def response_push_def)
qed (simp_all add: response_process_push_StatusLine response_process_push_RHeaders response_process_push_RBody)

subsection \<open>The contract of an incremental parser\<close>

text \<open>
  What the reading loops rely on: feeding bytes appends them to the buffer, and
  processing a longer buffer resumes where processing the shorter one stopped. A parser
  that has settled (on either outcome) answers \<open>ParseComplete\<close> from then on.
\<close>

locale incremental_parser =
  fixes push :: "'p \<Rightarrow> string \<Rightarrow> 'p"
    and proc :: "'p \<Rightarrow> ParseStatus \<times> 'p"
    and feed :: "'p \<Rightarrow> string \<Rightarrow> ParseStatus \<times> 'p"
  assumes feed_proc: "feed p d = proc (push p d)"
    and push_Nil: "push p [] = p"
    and push_push: "push (push p a) b = push p (a @ b)"
    and proc_push: "proc (push p s) = resume proc push s (proc p)"
    and proc_settled: "fst (proc p) \<noteq> NeedMoreData \<Longrightarrow>
      proc (push (snd (proc p)) s) = (ParseComplete, push (snd (proc p)) s)"
begin

primrec feed_all :: "'p \<Rightarrow> string list \<Rightarrow> 'p" where
  "feed_all p [] = p"
| "feed_all p (c # cs) = feed_all (snd (feed p c)) cs"

text \<open>The loop around \<open>recv\<close>: stop at the first completed or rejected message.\<close>

primrec read_loop :: "'p \<Rightarrow> string list \<Rightarrow> 'p option" where
  "read_loop p [] = None"
| "read_loop p (c # cs) =
     (case feed p c of
        (ParseComplete, q) \<Rightarrow> Some q
      | (ParseError, q) \<Rightarrow> None
      | (NeedMoreData, q) \<Rightarrow> read_loop q cs)"

lemma proc_append: "proc (push p (a @ b)) = resume proc push b (proc (push p a))"
  by (simp add: push_push [symmetric] proc_push)

lemma feed_append: "feed p (a @ b) = resume proc push b (feed p a)"
  by (simp add: feed_proc proc_append)

lemma feed_feed_state: "snd (feed (snd (feed p a)) b) = snd (feed p (a @ b))"
  using proc_settled [of "push p a" b]
  by (auto simp: proc_append resume_def feed_proc)

lemma feed_feed_status:
  "fst (feed p a) \<noteq> ParseError \<Longrightarrow> fst (feed (snd (feed p a)) b) = fst (feed p (a @ b))"
  using proc_settled [of "push p a" b]
  by (cases "fst (feed p a)") (auto simp: proc_append resume_def feed_proc)

lemma feed_after_error:
  "fst (feed p a) = ParseError \<Longrightarrow> fst (feed (snd (feed p a)) b) = ParseComplete"
  using proc_settled [of "push p a" b] by (simp add: feed_proc)

lemma feed_all_concat: "feed_all (snd (feed p c)) cs = snd (feed p (c @ concat cs))"
  by (induction cs arbitrary: c) (simp_all add: feed_feed_state)

lemma waiting_after: "fst (feed p a) = NeedMoreData \<Longrightarrow> proc (snd (feed p a)) = feed p a"
  using proc_push [of "push p a" "[]"] by (simp add: feed_proc push_Nil resume_def)

text \<open>
  The loop finds the message that a single call on all the bytes would find; what the call
  leaves in the buffer beyond the loop's are the chunks the loop did not read.
\<close>

lemma read_loop_Some:
  "read_loop p cs = Some q \<Longrightarrow> \<exists>rest. feed p (concat cs) = (ParseComplete, push q rest)"
proof (induction cs arbitrary: p)
  case Nil
  then show ?case by simp
next
  case (Cons c cs)
  obtain st p1 where f: "feed p c = (st, p1)" by (cases "feed p c")
  show ?case
  proof (cases st)
    case NeedMoreData
    with f Cons obtain rest where "feed p1 (concat cs) = (ParseComplete, push q rest)" by fastforce
    with NeedMoreData f show ?thesis by (auto simp: proc_append resume_def feed_proc)
  next
    case ParseComplete
    with f Cons.prems show ?thesis by (auto simp: feed_append resume_def)
  next
    case ParseError
    with f Cons.prems show ?thesis by simp
  qed
qed

lemma read_loop_None:
  "read_loop p cs = None \<Longrightarrow> fst (proc p) = NeedMoreData \<Longrightarrow> fst (feed p (concat cs)) \<noteq> ParseComplete"
proof (induction cs arbitrary: p)
  case Nil
  then show ?case by (simp add: feed_proc push_Nil)
next
  case (Cons c cs)
  obtain st p1 where f: "feed p c = (st, p1)" by (cases "feed p c")
  show ?case
  proof (cases st)
    case NeedMoreData
    with f waiting_after [of p c] have "fst (proc p1) = NeedMoreData" by simp
    with NeedMoreData f Cons have "fst (feed p1 (concat cs)) \<noteq> ParseComplete" by fastforce
    with NeedMoreData f show ?thesis by (simp add: proc_append resume_def feed_proc)
  next
    case ParseComplete
    with f Cons.prems show ?thesis by simp
  next
    case ParseError
    with f show ?thesis by (simp add: feed_append resume_def)
  qed
qed

end

text \<open>Both classes meet the contract.\<close>

lemma process_status_state:
  "fst (process p) \<noteq> NeedMoreData \<Longrightarrow> p_state (snd (process p)) \<in> {Complete, Error}"
  by (cases "p_state p")
    (auto simp: block_eqs headersLoop_scan Let_def split: option.splits prod.splits scan.splits if_splits)

lemma response_process_status_state:
  "fst (response_process p) \<noteq> NeedMoreData \<Longrightarrow> r_state (snd (response_process p)) \<in> {RComplete, RError}"
  by (cases "r_state p")
    (auto simp: block_eqs response_headersLoop_scan Let_def split: option.splits prod.splits scan.splits if_splits)

interpretation req: incremental_parser parser_push process consume
proof unfold_locales
  fix p :: HttpParser and s a b d :: string
  show "consume p d = process (parser_push p d)" by (simp add: consume_def parser_push_def)
  show "parser_push p [] = p" by (simp add: parser_push_def)
  show "parser_push (parser_push p a) b = parser_push p (a @ b)" by (simp add: parser_push_def)
  show "process (parser_push p s) = resume process parser_push s (process p)"
    by (rule process_push)
  show "process (parser_push (snd (process p)) s) = (ParseComplete, parser_push (snd (process p)) s)"
    if "fst (process p) \<noteq> NeedMoreData"
    using process_status_state [OF that] by (auto intro!: process_settled simp: parser_push_def)
qed

interpretation resp: incremental_parser response_push response_process response_consume
proof unfold_locales
  fix p :: HttpResponseParser and s a b d :: string
  show "response_consume p d = response_process (response_push p d)"
    by (simp add: response_consume_def response_push_def)
  show "response_push p [] = p" by (simp add: response_push_def)
  show "response_push (response_push p a) b = response_push p (a @ b)"
    by (simp add: response_push_def)
  show "response_process (response_push p s) = resume response_process response_push s (response_process p)"
    by (rule response_process_push)
  show "response_process (response_push (snd (response_process p)) s)
      = (ParseComplete, response_push (snd (response_process p)) s)"
    if "fst (response_process p) \<noteq> NeedMoreData"
    using response_process_status_state [OF that]
    by (auto intro!: response_process_settled simp: response_push_def)
qed

subsection \<open>Properties\<close>

lemma consume_error_state: "fst (consume p d) = ParseError \<Longrightarrow> p_state (snd (consume p d)) = Error"
  by (cases "p_state p")
    (auto simp: consume_def block_eqs headersLoop_scan Let_def
      split: option.splits prod.splits scan.splits if_splits)

lemma consume_Error_stays: "p_state p = Error \<Longrightarrow> p_state (snd (consume p d)) = Error"
  by (simp add: consume_def process_settled)

lemma consume_step:
  "p_state (snd (consume p a)) \<noteq> Error \<Longrightarrow> consume (snd (consume p a)) b = consume p (a @ b)"
  using consume_error_state [of p a] req.feed_feed_state [of p a b] req.feed_feed_status [of p a b]
  by (metis prod_eqI)

text \<open>C1: Feeding a request to the parser piece by piece is the same as feeding it in one
  call. As long as the pieces fed so far were not rejected, the status, the parsed request and
  the buffer after one more piece are those of a single \<open>consume\<close> on all the bytes.\<close>

theorem chunked_consume:
  assumes "p_state (foldl (\<lambda>q c. snd (consume q c)) p cs) \<noteq> Error"
  shows "consume (foldl (\<lambda>q c. snd (consume q c)) p cs) d = consume p (concat cs @ d)"
  using assms
proof (induction cs arbitrary: d rule: rev_induct)
  case Nil
  then show ?case by simp
next
  case (snoc c cs)
  let ?q = "foldl (\<lambda>q c. snd (consume q c)) p cs"
  from snoc.prems have ne: "p_state (snd (consume ?q c)) \<noteq> Error" by simp
  then have "p_state ?q \<noteq> Error" using consume_Error_stays by blast
  then have "consume ?q (c @ d) = consume p (concat cs @ c @ d)" by (rule snoc.IH)
  with consume_step [OF ne, of d] show ?case by simp
qed

theorem chunked_consume_witness:
  "consume (foldl (\<lambda>q c. snd (consume q c)) HttpParser_new [''GET / HT'', ''TP/1.1'' @ CRLF]) CRLF
     = consume HttpParser_new (''GET / HTTP/1.1'' @ CRLF @ CRLF)"
proof -
  have "p_state (foldl (\<lambda>q c. snd (consume q c)) HttpParser_new [''GET / HT'', ''TP/1.1'' @ CRLF]) \<noteq> Error"
    by code_simp
  from chunked_consume [OF this, of CRLF] show ?thesis by simp
qed

lemma response_consume_error_state:
  "fst (response_consume p d) = ParseError \<Longrightarrow> r_state (snd (response_consume p d)) = RError"
  by (cases "r_state p")
    (auto simp: response_consume_def block_eqs response_headersLoop_scan Let_def
      split: option.splits prod.splits scan.splits if_splits)

lemma response_consume_Error_stays:
  "r_state p = RError \<Longrightarrow> r_state (snd (response_consume p d)) = RError"
  by (simp add: response_consume_def response_process_settled)

lemma response_consume_step:
  "r_state (snd (response_consume p a)) \<noteq> RError \<Longrightarrow>
     response_consume (snd (response_consume p a)) b = response_consume p (a @ b)"
  using response_consume_error_state [of p a] resp.feed_feed_state [of p a b]
    resp.feed_feed_status [of p a b]
  by (metis prod_eqI)

text \<open>The same for responses read from an upstream: after any pieces that were not
  rejected, one more piece has the effect of a single \<open>consume\<close> on all the bytes.\<close>

theorem chunked_response_consume:
  assumes "r_state (foldl (\<lambda>q c. snd (response_consume q c)) p cs) \<noteq> RError"
  shows "response_consume (foldl (\<lambda>q c. snd (response_consume q c)) p cs) d
     = response_consume p (concat cs @ d)"
  using assms
proof (induction cs arbitrary: d rule: rev_induct)
  case Nil
  then show ?case by simp
next
  case (snoc c cs)
  let ?q = "foldl (\<lambda>q c. snd (response_consume q c)) p cs"
  from snoc.prems have ne: "r_state (snd (response_consume ?q c)) \<noteq> RError" by simp
  then have "r_state ?q \<noteq> RError" using response_consume_Error_stays by blast
  then have "response_consume ?q (c @ d) = response_consume p (concat cs @ c @ d)" by (rule snoc.IH)
  with response_consume_step [OF ne, of d] show ?case by simp
qed

theorem chunked_response_consume_witness:
  "response_consume
     (foldl (\<lambda>q c. snd (response_consume q c)) HttpResponseParser_new [''HTTP/1.1 2'', ''00 OK'' @ CRLF]) CRLF
   = response_consume HttpResponseParser_new (''HTTP/1.1 200 OK'' @ CRLF @ CRLF)"
proof -
  have "r_state (foldl (\<lambda>q c. snd (response_consume q c)) HttpResponseParser_new
      [''HTTP/1.1 2'', ''00 OK'' @ CRLF]) \<noteq> RError"
    by code_simp
  from chunked_response_consume [OF this, of CRLF] show ?thesis by simp
qed

lemma consume_Error_stays_fold:
  "p_state p = Error \<Longrightarrow> p_state (foldl (\<lambda>q c. snd (consume q c)) p cs) = Error"
  by (induction cs arbitrary: p) (simp_all add: consume_Error_stays)

text \<open>C40: A parser that rejected its input answers \<open>ParseComplete\<close> to every later call of
  \<open>consume\<close>, whatever was fed to it in between, although \<open>failed()\<close> still holds: only the call
  that meets the malformed line reports the error.\<close>

theorem consume_after_error:
  assumes "fst (consume p a) = ParseError"
    and "q = foldl (\<lambda>q c. snd (consume q c)) (snd (consume p a)) cs"
  shows "fst (consume q b) = ParseComplete \<and> parser_failed (snd (consume q b))"
  using consume_Error_stays_fold [OF consume_error_state [OF assms(1)], of cs] assms(2)
  by (simp add: parser_failed_def consume_def process_settled)

theorem consume_after_error_witness:
  "fst (consume (snd (consume (snd (consume HttpParser_new (''GARBAGE'' @ CRLF))) ''G'')) CRLF) = ParseComplete
     \<and> parser_failed (snd (consume (snd (consume (snd (consume HttpParser_new (''GARBAGE'' @ CRLF))) ''G'')) CRLF))"
proof -
  have "fst (consume HttpParser_new (''GARBAGE'' @ CRLF)) = ParseError" by code_simp
  from consume_after_error [OF this, of _ "[''G'']" CRLF] show ?thesis by simp
qed

lemma consume_status:
  "p_state p \<le> p_state (snd (consume p d))
     \<and> (fst (consume p d) = NeedMoreData \<longleftrightarrow> p_state (snd (consume p d)) < Complete)
     \<and> (p_state p < Complete \<longrightarrow> (fst (consume p d) = ParseComplete \<longleftrightarrow> p_state (snd (consume p d)) = Complete))"
  by (cases "p_state p")
    (auto simp: consume_def block_eqs headersLoop_scan parseRequestLine_def finalizeHeaders_def Let_def
      less_eq_State_def less_State_def
      split: option.splits prod.splits scan.splits if_splits)

text \<open>Parsing only moves forward: a call of \<open>consume\<close> never takes the parser back to an
  earlier state, and an unfinished parse is reported as \<open>NeedMoreData\<close> exactly when the parser
  is left in one of the three working states.\<close>

theorem consume_forward:
  "p_state p \<le> p_state (snd (consume p d))
     \<and> (fst (consume p d) = NeedMoreData \<longleftrightarrow> p_state (snd (consume p d)) < Complete)"
  using consume_status by blast

end
