(* ===== verification/Parser_Roundtrip.thy ===== *)
theory Parser_Roundtrip
  imports Parser_Incremental "HOL-Library.Sublist"
begin

section \<open>Well-formed messages and parse/print round trips\<close>

text \<open>
  What the parsers establish of a message (\<open>wf_header\<close>, \<open>wf_request\<close>), the invariant
  \<open>parser_inv\<close> that every operation of \<open>HttpParser\<close> keeps, and the two round trips: the
  request parser reads back the text of every well-formed request, and the response
  parser reads back what \<open>HttpResponse::serialize\<close> printed.
\<close>

subsection \<open>Headers\<close>

definition wf_header :: "string \<times> string \<Rightarrow> bool" where
  "wf_header h \<longleftrightarrow>
     fst h \<noteq> [] \<and> trim (fst h) = fst h \<and> trim (snd h) = snd h \<and> CHR '':'' \<notin> set (fst h)
     \<and> find_sub CRLF (fst h) = None \<and> find_sub CRLF (snd h) = None"

lemma wf_header_line:
  assumes "wf_header (k, v)"
  shows "find_sub CRLF (k @ '': '' @ v) = None"
proof -
  have "find_sub CRLF (CHR '' '' # v) = None"
    using assms find_CRLF_join [of "[]" v "CHR '' ''"] by (simp add: wf_header_def)
  with assms show ?thesis
    using find_CRLF_join [of k "CHR '' '' # v" "CHR '':''"] by (simp add: wf_header_def)
qed

lemma parseGenericHeaderLine_text:
  assumes "wf_header (k, v)"
  shows "parseGenericHeaderLine (k @ '': '' @ v) hs = (True, hs @ [(k, v)])"
  using assms find_char_at [of "CHR '':''" k]
  by (auto simp: parseGenericHeaderLine_def str_eqs wf_header_def trim_blank Let_def)

lemma parseGenericHeaderLine_wf:
  assumes "parseGenericHeaderLine line hs = (True, hs')" "find_sub CRLF line = None"
  shows "\<exists>h. hs' = hs @ [h] \<and> wf_header h"
proof -
  from assms(1) obtain i where i: "str_find line '':'' 0 = Some i"
    "trim (take i line) \<noteq> []" "hs' = hs @ [(trim (take i line), trim (drop (Suc i) line))]"
    by (auto simp: parseGenericHeaderLine_def Let_def str_eqs split: option.splits if_splits)
  have "CHR '':'' \<notin> set (trim (take i line))"
    using find_char_Some [of "CHR '':''" line i] i(1) set_trim by fastforce
  moreover have "find_sub CRLF (trim (take i line)) = None" "find_sub CRLF (trim (drop (Suc i) line)) = None"
    using assms(2) by (simp_all add: find_CRLF_trim find_sub_take_free find_sub_drop_free)
  ultimately show ?thesis using i by (simp add: wf_header_def)
qed

lemma scan_headerText:
  "list_all wf_header hs \<Longrightarrow>
     scan_headers (headerText hs @ CRLF @ rest) acc = ScanDone rest (acc @ hs)"
proof (induction hs arbitrary: acc)
  case Nil
  have "extractLine ([] @ CRLF @ rest) 0 = Some (length ([]::string) + 2, [])"
    by (rule extractLine_line) simp
  then show ?case by (simp add: scan_headers.simps [of "CRLF @ rest"])
next
  case (Cons h hs)
  obtain k v where h: "h = (k, v)" by (cases h)
  with Cons.prems have w: "wf_header (k, v)" by simp
  let ?buf = "headerText (h # hs) @ CRLF @ rest"
  have b: "?buf = (k @ '': '' @ v) @ CRLF @ headerText hs @ CRLF @ rest" by (simp add: h)
  have e: "extractLine ?buf 0 = Some (length (k @ '': '' @ v) + 2, k @ '': '' @ v)"
    unfolding b by (rule extractLine_line [OF wf_header_line [OF w]])
  have d: "drop (length (k @ '': '' @ v) + 2) ?buf = headerText hs @ CRLF @ rest"
    unfolding b by (rule drop_line)
  have ne: "k @ '': '' @ v \<noteq> []" by simp
  have g: "parseGenericHeaderLine (k @ '': '' @ v) acc = (True, acc @ [h])"
    using parseGenericHeaderLine_text [OF w] by (simp add: h)
  have "scan_headers ?buf acc = scan_headers (headerText hs @ CRLF @ rest) (acc @ [h])"
    by (subst scan_headers.simps) (simp only: e option.case prod.case ne if_False g fst_conv snd_conv if_True d)
  with Cons show ?case by simp
qed

text \<open>Every header list the scanner returns is well formed.\<close>

definition scan_result :: "scan \<Rightarrow> HeaderList" where
  "scan_result r = (case r of ScanMore b h \<Rightarrow> h | ScanDone b h \<Rightarrow> h | ScanBad b h \<Rightarrow> h)"

lemma scan_headers_wf:
  "list_all wf_header hs \<Longrightarrow> list_all wf_header (scan_result (scan_headers buf hs))"
proof (induction buf hs rule: scan_headers.induct)
  case (1 buf hs)
  show ?case
  proof (cases "extractLine buf 0")
    case None
    with 1 show ?thesis by (simp add: scan_headers.simps [of buf] scan_result_def)
  next
    case (Some pl)
    obtain pos line where pl: "pl = (pos, line)" by (cases pl)
    have nc: "find_sub CRLF line = None" using Some pl extractLine_bounds by auto
    obtain ok hs' where g: "parseGenericHeaderLine line hs = (ok, hs')"
      by (cases "parseGenericHeaderLine line hs")
    have w: "list_all wf_header hs'" if ok
      using parseGenericHeaderLine_wf [of line hs hs'] g nc that "1.prems" by auto
    with 1 Some pl g show ?thesis
      by (auto simp: scan_headers.simps [of buf] scan_result_def)
  qed
qed

subsection \<open>Requests\<close>

definition wf_request_line :: "HttpRequest \<Rightarrow> bool" where
  "wf_request_line r \<longleftrightarrow>
     rq_method r \<noteq> [] \<and> CHR '' '' \<notin> set (rq_method r) \<and> find_sub CRLF (rq_method r) = None
     \<and> rq_target r \<noteq> [] \<and> CHR '' '' \<notin> set (rq_target r) \<and> find_sub CRLF (rq_target r) = None
     \<and> (rq_version r = ''HTTP/1.1'' \<or> rq_version r = ''HTTP/1.0'')"

definition wf_request :: "HttpRequest \<Rightarrow> bool" where
  "wf_request r \<longleftrightarrow>
     wf_request_line r \<and> list_all wf_header (rq_headers r)
     \<and> length (rq_body r) = contentLengthFrom (rq_headers r)"

definition requestLineText :: "HttpRequest \<Rightarrow> string" where
  "requestLineText r = rq_method r @ '' '' @ rq_target r @ '' '' @ rq_version r"

definition requestText :: "HttpRequest \<Rightarrow> string" where
  "requestText r = requestLineText r @ CRLF @ headerText (rq_headers r) @ CRLF @ rq_body r"

lemma requestLineText_CRLF:
  assumes "wf_request_line r"
  shows "find_sub CRLF (requestLineText r) = None"
proof -
  have v: "find_sub CRLF (rq_version r) = None"
    using assms by (auto simp: wf_request_line_def CRLF_def)
  have "find_sub CRLF (rq_target r @ '' '' @ rq_version r) = None"
    using assms v find_CRLF_join [of "rq_target r" "rq_version r" "CHR '' ''"]
    by (simp add: wf_request_line_def)
  with assms show ?thesis
    using find_CRLF_join [of "rq_method r" "rq_target r @ '' '' @ rq_version r" "CHR '' ''"]
    by (simp add: wf_request_line_def requestLineText_def)
qed

lemma parseRequestLine_text:
  assumes "wf_request_line r"
  shows "parseRequestLine p (requestLineText r) =
     (True, p\<lparr>p_req := (p_req p)\<lparr>rq_method := rq_method r, rq_target := rq_target r,
                                rq_version := rq_version r\<rparr>\<rparr>)"
proof -
  let ?l = "requestLineText r" and ?n = "length (rq_method r)"
  have l: "?l = rq_method r @ CHR '' '' # rq_target r @ CHR '' '' # rq_version r"
    by (simp add: requestLineText_def)
  have f1: "str_find ?l '' '' 0 = Some ?n"
    using assms find_char_at [of "CHR '' ''" "rq_method r"] by (simp add: l wf_request_line_def)
  have d: "drop (?n + 1) ?l = rq_target r @ CHR '' '' # rq_version r" by (simp add: l)
  have f2: "str_find ?l '' '' (?n + 1) = Some (?n + 1 + length (rq_target r))"
    using assms find_char_at [of "CHR '' ''" "rq_target r"] d
    by (simp add: str_find_def wf_request_line_def) (simp add: l)
  have m: "substr ?l 0 ?n = rq_method r" by (simp add: substr_def l)
  have t: "substr ?l (?n + 1) (?n + 1 + length (rq_target r) - ?n - 1) = rq_target r"
    using d by (simp add: substr_def)
  have v: "substr_from ?l (?n + 1 + length (rq_target r) + 1) = rq_version r"
    by (simp add: substr_from_def l)
  show ?thesis
    unfolding parseRequestLine_def f1 option.case f2 m t v
    using assms by (auto simp: wf_request_line_def Let_def)
qed

lemma parseRequestLine_wf:
  assumes "parseRequestLine p line = (True, p')" "find_sub CRLF line = None"
  shows "wf_request_line (p_req p') \<and> rq_headers (p_req p') = rq_headers (p_req p)
     \<and> p_state p' = p_state p \<and> p_buffer p' = p_buffer p"
proof -
  from assms(1) obtain i j where i: "find_sub '' '' line = Some i"
    and j: "str_find line '' '' (i + 1) = Some j"
    and p': "p' = p\<lparr>p_req := (p_req p)\<lparr>rq_method := take i line,
          rq_target := take (j - i - 1) (drop (i + 1) line), rq_version := drop (j + 1) line\<rparr>\<rparr>"
    and ne: "take i line \<noteq> []" "take (j - i - 1) (drop (i + 1) line) \<noteq> []"
    and v: "drop (j + 1) line = ''HTTP/1.1'' \<or> drop (j + 1) line = ''HTTP/1.0''"
    by (auto simp: parseRequestLine_def Let_def str_eqs split: option.splits if_splits)
  have s1: "CHR '' '' \<notin> set (take i line)" using find_char_Some [OF i] by blast
  from j obtain k where k: "find_sub '' '' (drop (i + 1) line) = Some k" "j = i + 1 + k"
    by (auto simp: str_find_def split: if_splits)
  have s2: "CHR '' '' \<notin> set (take (j - i - 1) (drop (i + 1) line))"
    using find_char_Some [OF k(1)] k(2) by simp
  have c: "find_sub CRLF (take i line) = None"
    "find_sub CRLF (take (j - i - 1) (drop (i + 1) line)) = None"
    using assms(2) by (simp_all add: find_sub_take_free find_sub_drop_free)
  show ?thesis using s1 s2 c ne v by (auto simp: p' wf_request_line_def)
qed

text \<open>
  What holds of a parser at any time: the headers collected so far are well formed, and
  what an earlier state established stays.
\<close>

definition parser_inv :: "HttpParser \<Rightarrow> bool" where
  "parser_inv p \<longleftrightarrow>
     list_all wf_header (rq_headers (p_req p))
     \<and> (p_state p \<in> {Headers, Body, Complete} \<longrightarrow> wf_request_line (p_req p))
     \<and> (p_state p \<in> {Body, Complete} \<longrightarrow>
          p_bodyBytesNeeded p = contentLengthFrom (rq_headers (p_req p))
          \<and> rq_keepAlive (p_req p) = connectionKeepAlive (rq_headers (p_req p)) (rq_version (p_req p)))
     \<and> (p_state p = Complete \<longrightarrow> length (rq_body (p_req p)) = p_bodyBytesNeeded p)"

lemma parser_inv_new: "parser_inv HttpParser_new"
  by (simp add: parser_inv_def HttpParser_new_def HttpRequest_new_def)

lemma parser_inv_reset [keeps]: "parser_inv (parser_reset p)"
  by (simp add: parser_inv_def parser_reset_def HttpRequest_new_def)

lemma parser_inv_push [keeps]: "parser_inv p \<Longrightarrow> parser_inv (parser_push p s)"
  by (simp add: parser_inv_def parser_push_def)

definition block_ok :: "(ParseStatus \<times> HttpParser) + HttpParser \<Rightarrow> bool" where
  "block_ok r = (case r of Inl (st, p) \<Rightarrow> parser_inv p | Inr p \<Rightarrow> parser_inv p)"

lemma processRequestLine_inv [keeps]:
  assumes "parser_inv p"
  shows "block_ok (processRequestLine p)"
proof (cases "p_state p = RequestLine \<and> extractLine (p_buffer p) 0 \<noteq> None")
  case False
  with assms show ?thesis by (auto simp: processRequestLine_def block_ok_def split: option.splits)
next
  case True
  then obtain pos line where e: "extractLine (p_buffer p) 0 = Some (pos, line)" by auto
  then have nc: "find_sub CRLF line = None" using extractLine_bounds by blast
  obtain ok p1 where o: "parseRequestLine p line = (ok, p1)" by (cases "parseRequestLine p line")
  show ?thesis
  proof (cases ok)
    case True
    with o parseRequestLine_wf [of p line p1] nc assms e \<open>p_state p = RequestLine \<and> _\<close> show ?thesis
      by (auto simp: processRequestLine_def block_ok_def parser_inv_def)
  next
    case False
    have "rq_headers (p_req p1) = rq_headers (p_req p)"
      using o by (auto simp: parseRequestLine_def Let_def split: option.splits if_splits)
    with False o assms e \<open>p_state p = RequestLine \<and> _\<close> show ?thesis
      by (auto simp: processRequestLine_def block_ok_def parser_inv_def)
  qed
qed

lemma processHeaders_inv [keeps]:
  assumes "parser_inv p"
  shows "block_ok (processHeaders p)"
  using assms scan_headers_wf [of "rq_headers (p_req p)" "p_buffer p"]
  by (auto simp: processHeaders_def headersLoop_scan block_ok_def parser_inv_def scan_result_def
      finalizeHeaders_def wf_request_line_def split: scan.splits)

lemma processBody_inv [keeps]: "parser_inv p \<Longrightarrow> block_ok (processBody p)"
  by (auto simp: processBody_def block_ok_def parser_inv_def substr_def wf_request_line_def)

lemma process_inv [keeps]: "parser_inv p \<Longrightarrow> parser_inv (snd (process p))"
proof -
  assume a: "parser_inv p"
  note b = processRequestLine_inv [OF a]
  show ?thesis
  proof (cases "processRequestLine p")
    case (Inl r)
    with b show ?thesis by (cases r) (simp add: process_def block_ok_def)
  next
    case (Inr p1)
    with b have p1: "parser_inv p1" by (simp add: block_ok_def)
    note c = processHeaders_inv [OF p1]
    show ?thesis
    proof (cases "processHeaders p1")
      case (Inl r)
      with c \<open>processRequestLine p = Inr p1\<close> show ?thesis by (cases r) (simp add: process_def block_ok_def)
    next
      case (Inr p2)
      with c have "parser_inv p2" by (simp add: block_ok_def)
      from processBody_inv [OF this] Inr \<open>processRequestLine p = Inr p1\<close> show ?thesis
        by (auto simp: process_def block_ok_def split: sum.splits)
    qed
  qed
qed

lemma consume_inv [keeps]: "parser_inv p \<Longrightarrow> parser_inv (snd (consume p d))"
  by (simp add: req.feed_proc keeps)

lemma process_complete_state:
  "fst (process p) = ParseComplete \<Longrightarrow> p_state p \<noteq> Error \<Longrightarrow> p_state (snd (process p)) = Complete"
  by (cases "p_state p")
    (auto simp: block_eqs headersLoop_scan Let_def split: option.splits prod.splits scan.splits if_splits)

lemma consume_text:
  assumes "wf_request r"
  shows "consume HttpParser_new (requestText r @ rest) =
     (ParseComplete, \<lparr>p_state = Complete, p_buffer = rest,
        p_bodyBytesNeeded = contentLengthFrom (rq_headers r),
        p_req = r\<lparr>rq_keepAlive := connectionKeepAlive (rq_headers r) (rq_version r)\<rparr>\<rparr>)"
proof -
  from assms have w: "wf_request_line r" "list_all wf_header (rq_headers r)"
    "length (rq_body r) = contentLengthFrom (rq_headers r)" by (simp_all add: wf_request_def)
  let ?tail = "headerText (rq_headers r) @ CRLF @ rq_body r @ rest"
  have t: "requestText r @ rest = requestLineText r @ CRLF @ ?tail" by (simp add: requestText_def)
  have e: "extractLine (requestText r @ rest) 0 = Some (length (requestLineText r) + 2, requestLineText r)"
    unfolding t by (rule extractLine_line [OF requestLineText_CRLF [OF w(1)]])
  have d: "erase_front (requestText r @ rest) (length (requestLineText r) + 2) = ?tail"
    unfolding t erase_front_def by (rule drop_line)
  have s: "scan_headers ?tail [] = ScanDone (rq_body r @ rest) (rq_headers r)"
    using scan_headerText [OF w(2), of "rq_body r @ rest" "[]"] by simp
  let ?r0 = "\<lparr>rq_method = rq_method r, rq_target = rq_target r, rq_version = rq_version r,
              rq_headers = [], rq_body = [], rq_keepAlive = True\<rparr>"
  have "processRequestLine (HttpParser_new\<lparr>p_buffer := requestText r @ rest\<rparr>) =
      Inr \<lparr>p_state = Headers, p_buffer = ?tail, p_bodyBytesNeeded = 0, p_req = ?r0\<rparr>"
    using e d parseRequestLine_text [OF w(1)]
    by (simp add: processRequestLine_def HttpParser_new_def HttpRequest_new_def erase_front_def)
  moreover have "processHeaders \<lparr>p_state = Headers, p_buffer = ?tail, p_bodyBytesNeeded = 0, p_req = ?r0\<rparr> =
      Inr \<lparr>p_state = Body, p_buffer = rq_body r @ rest, p_bodyBytesNeeded = contentLengthFrom (rq_headers r),
           p_req = ?r0\<lparr>rq_headers := rq_headers r,
             rq_keepAlive := connectionKeepAlive (rq_headers r) (rq_version r)\<rparr>\<rparr>"
    using s by (simp add: processHeaders_def headersLoop_scan finalizeHeaders_def)
  moreover have "HttpParser_new\<lparr>p_buffer := p_buffer HttpParser_new @ requestText r @ rest\<rparr> =
      HttpParser_new\<lparr>p_buffer := requestText r @ rest\<rparr>"
    by (simp add: HttpParser_new_def)
  ultimately show ?thesis
    using w(3)
    by (simp add: consume_def process_def processBody_def substr_def erase_front_def)
qed

subsection \<open>Responses\<close>

definition wf_response :: "HttpResponse \<Rightarrow> bool" where
  "wf_response r \<longleftrightarrow>
     - (2 ^ 31) \<le> rs_status r \<and> rs_status r < 2 ^ 31
     \<and> find_sub CRLF (rs_reason r) = None
     \<and> list_all wf_header (rs_headers r)
     \<and> int (length (rs_body r)) \<le> LONG_MAX
     \<and> (findHeader (rs_headers r) ''Content-Length'' \<noteq> None \<longrightarrow>
          contentLengthFrom (rs_headers r) = length (rs_body r))"

definition statusLineText :: "HttpResponse \<Rightarrow> string" where
  "statusLineText r = ''HTTP/1.1 '' @ to_string (rs_status r) @ '' '' @ rs_reason r"

lemma to_string_no_special:
  "CHR '' '' \<notin> set (to_string z)" "CHR 0x00 \<notin> set (to_string z)" "find_sub CRLF (to_string z) = None"
proof -
  have d: "\<not> isdigit CHR '' ''" "\<not> isdigit CHR 0x00" "\<not> isdigit LF"
    by (simp_all add: isdigit_def)
  then show "CHR '' '' \<notin> set (to_string z)" "CHR 0x00 \<notin> set (to_string z)"
    using to_string_chars by fastforce+
  show "find_sub CRLF (to_string z) = None"
    using d(3) to_string_chars [of LF z] by (intro find_CRLF_no_LF) auto
qed

lemma c_str_id: "CHR 0x00 \<notin> set s \<Longrightarrow> c_str s = s"
  by (auto simp: c_str_def takeWhile_eq_all_conv)

lemma int32_id: "- (2 ^ 31) \<le> z \<Longrightarrow> z < 2 ^ 31 \<Longrightarrow> int32 z = z"
  by (simp add: int32_def signed_take_bit_int_eq_self)

lemma statusLineText_CRLF:
  assumes "wf_response r"
  shows "find_sub CRLF (statusLineText r) = None"
proof -
  have "find_sub CRLF (to_string (rs_status r) @ CHR '' '' # rs_reason r) = None"
    using assms to_string_no_special(3) by (intro find_CRLF_join) (auto simp: wf_response_def)
  note t = this
  have "find_sub CRLF ''HTTP/1.1'' = None" by (simp add: CRLF_def)
  from find_CRLF_join [OF this t, of "CHR '' ''"]
  have "find_sub CRLF (''HTTP/1.1'' @ CHR '' '' # to_string (rs_status r) @ CHR '' '' # rs_reason r) = None"
    by simp
  then show ?thesis by (simp add: statusLineText_def)
qed

lemma parseStatusLine_text:
  assumes "wf_response r"
  shows "parseStatusLine p (statusLineText r) =
     (True, p\<lparr>r_resp := (r_resp p)\<lparr>rs_status := rs_status r, rs_reason := rs_reason r\<rparr>\<rparr>)"
proof -
  let ?l = "statusLineText r" and ?n = "length (to_string (rs_status r))"
  have l: "?l = ''HTTP/1.1'' @ CHR '' '' # to_string (rs_status r) @ CHR '' '' # rs_reason r"
    by (simp add: statusLineText_def)
  have f1: "str_find ?l '' '' 0 = Some 8" by (simp add: l)
  have d: "drop 9 ?l = to_string (rs_status r) @ CHR '' '' # rs_reason r" by (simp add: l)
  have f2: "str_find ?l '' '' (8 + 1) = Some (9 + ?n)"
    using find_char_at [OF to_string_no_special(1)] d by (simp add: str_find_def) (simp add: l)
  have v: "substr ?l 0 8 = ''HTTP/1.1''" by (simp add: substr_def l)
  have st: "substr ?l (8 + 1) (9 + ?n - 8 - 1) = to_string (rs_status r)"
    using d by (simp add: substr_def)
  have "drop (9 + ?n + 1) ?l = drop (?n + 1) (drop 9 ?l)" by (simp add: add.commute)
  then have re: "substr_from ?l (9 + ?n + 1) = rs_reason r" "9 + ?n < length ?l"
    unfolding substr_from_def d by (simp_all add: l)
  have z: "LONG_MIN < rs_status r" "rs_status r \<le> LONG_MAX"
    using assms by (simp_all add: wf_response_def LONG_MIN_def LONG_MAX_def)
  obtain e where s: "strtol (to_string (rs_status r)) = (rs_status r, e)" "e \<noteq> 0"
    using strtol_to_string [OF z] by (metis prod.collapse)
  have i: "int32 (rs_status r) = rs_status r" using assms int32_id by (simp add: wf_response_def)
  show ?thesis
    unfolding parseStatusLine_def f1 option.case f2 Let_def v st
      c_str_id [OF to_string_no_special(2)] s(1) prod.case
    using s(2) re i by simp
qed

lemma nat_to_string_LF: "LF \<notin> set (nat_to_string n)"
  using nat_to_string_digits [of n] by (auto simp: isdigit_def)

lemma wf_header_nat: "wf_header (''Content-Length'', nat_to_string n)"
proof -
  have c: "wf_header (''Content-Length'', [])" by code_simp
  have d: "\<not> isspace c" if "c \<in> set (nat_to_string n)" for c
    using nat_to_string_digits [of n] isdigit_not_special that by blast
  have "trim (nat_to_string n) = nat_to_string n"
    by (rule trim_noop) (auto intro!: d)
  with c find_CRLF_no_LF [OF nat_to_string_LF [of n]] show ?thesis by (simp add: wf_header_def)
qed

lemma wf_printed_headers: "wf_response r \<Longrightarrow> list_all wf_header (printed_headers r)"
proof -
  assume "wf_response r"
  moreover have "wf_header (''Connection'', ''keep-alive'')" "wf_header (''Connection'', ''close'')"
    by code_simp+
  ultimately show ?thesis
    by (simp add: printed_headers_def wf_response_def wf_header_nat)
qed

lemma toLower_header_names:
  "toLower ''Content-Length'' = ''content-length''" "toLower ''Connection'' = ''connection''"
  by code_simp+

lemma contentLength_printed:
  assumes "wf_response r"
  shows "contentLengthFrom (printed_headers r) = length (rs_body r)"
proof (cases "findHeader (rs_headers r) ''Content-Length''")
  case None
  have n: "int (length (rs_body r)) \<le> LONG_MAX" using assms by (simp add: wf_response_def)
  have "CHR 0x00 \<notin> set (nat_to_string (length (rs_body r)))"
    using to_string_no_special(2) [of "int (length (rs_body r))"] by (simp add: to_string_def)
  with None n show ?thesis
    by (simp add: printed_headers_def contentLengthFrom_def findHeader_append c_str_id
        strtol_nat_to_string toLower_header_names)
next
  case (Some v)
  with assms show ?thesis
    by (simp add: printed_headers_def contentLengthFrom_def findHeader_append wf_response_def)
qed

lemma keepAlive_printed:
  "findHeader (rs_headers r) ''Connection'' = None \<Longrightarrow>
     connectionKeepAlive (printed_headers r) v = rs_keepAlive r"
proof -
  assume "findHeader (rs_headers r) ''Connection'' = None"
  then have f: "findHeader (printed_headers r) ''Connection'' =
      Some (if rs_keepAlive r then ''keep-alive'' else ''close'')"
    by (simp add: printed_headers_def findHeader_append toLower_header_names)
  have "toLower ''keep-alive'' = ''keep-alive''" "toLower ''close'' = ''close''" by code_simp+
  with f show ?thesis by (simp add: connectionKeepAlive_def Let_def)
qed

lemma response_consume_text:
  assumes "wf_response r"
  shows "response_consume HttpResponseParser_new (serialize r @ rest) =
     (ParseComplete, \<lparr>r_state = RComplete, r_buffer = rest, r_bodyBytesNeeded = length (rs_body r),
        r_resp = r\<lparr>rs_headers := printed_headers r,
          rs_keepAlive := connectionKeepAlive (printed_headers r) ''HTTP/1.1''\<rparr>\<rparr>)"
proof -
  let ?tail = "headerText (printed_headers r) @ CRLF @ rs_body r @ rest"
  have t: "serialize r @ rest = statusLineText r @ CRLF @ ?tail"
    by (simp add: serialize_eq statusLineText_def)
  have e: "extractLine (serialize r @ rest) 0 = Some (length (statusLineText r) + 2, statusLineText r)"
    unfolding t by (rule extractLine_line [OF statusLineText_CRLF [OF assms]])
  have d: "erase_front (serialize r @ rest) (length (statusLineText r) + 2) = ?tail"
    unfolding t erase_front_def by (rule drop_line)
  have s: "scan_headers ?tail [] = ScanDone (rs_body r @ rest) (printed_headers r)"
    using scan_headerText [OF wf_printed_headers [OF assms], of "rs_body r @ rest" "[]"] by simp
  let ?r0 = "\<lparr>rs_status = rs_status r, rs_reason = rs_reason r, rs_headers = [], rs_body = [],
              rs_keepAlive = True\<rparr>"
  have "processStatusLine (HttpResponseParser_new\<lparr>r_buffer := serialize r @ rest\<rparr>) =
      Inr \<lparr>r_state = RHeaders, r_buffer = ?tail, r_bodyBytesNeeded = 0, r_resp = ?r0\<rparr>"
    using e d parseStatusLine_text [OF assms]
    by (simp add: processStatusLine_def HttpResponseParser_new_def HttpResponse_new_def erase_front_def)
  moreover have "response_processHeaders \<lparr>r_state = RHeaders, r_buffer = ?tail, r_bodyBytesNeeded = 0, r_resp = ?r0\<rparr> =
      Inr \<lparr>r_state = RBody, r_buffer = rs_body r @ rest, r_bodyBytesNeeded = length (rs_body r),
           r_resp = ?r0\<lparr>rs_headers := printed_headers r,
             rs_keepAlive := connectionKeepAlive (printed_headers r) ''HTTP/1.1''\<rparr>\<rparr>"
    using s by (simp add: response_processHeaders_def response_headersLoop_scan
        response_finalizeHeaders_def contentLength_printed [OF assms])
  moreover have "HttpResponseParser_new\<lparr>r_buffer := r_buffer HttpResponseParser_new @ serialize r @ rest\<rparr> =
      HttpResponseParser_new\<lparr>r_buffer := serialize r @ rest\<rparr>"
    by (simp add: HttpResponseParser_new_def)
  ultimately show ?thesis
    by (simp add: response_consume_def response_process_def response_processBody_def substr_def erase_front_def)
qed

subsection \<open>Properties\<close>

lemma find_sub_sublist: "find_sub pat s = None \<longleftrightarrow> \<not> sublist pat s"
proof
  assume n: "find_sub pat s = None"
  show "\<not> sublist pat s"
  proof
    assume "sublist pat s"
    then obtain a b where s: "s = a @ pat @ b" by (auto simp: sublist_def)
    with n have "find_sub pat (pat @ b) = None" using find_sub_suffix_free by blast
    moreover have "take (length pat) (pat @ b) = pat" by simp
    ultimately show False by (cases "pat @ b") (auto split: if_splits)
  qed
next
  assume "\<not> sublist pat s"
  then show "find_sub pat s = None"
    by (metis append_take_drop_id find_sub_Some_match not_None_eq sublist_def)
qed

lemma feed_all_inv: "parser_inv p \<Longrightarrow> parser_inv (foldl (\<lambda>q c. snd (consume q c)) p cs)"
  by (induction cs arbitrary: p) (simp_all add: keeps)

text \<open>C13: Whatever bytes a client sends, in whatever pieces, a request the parser declares
  complete is well formed: method and target are non-empty and hold no blank, the version is
  1.0 or 1.1, every header has a non-empty trimmed name without a colon and a trimmed value, no
  part holds a line break, the body has exactly the announced length, and the keep-alive flag
  is the one the headers and the version call for.\<close>

theorem completed_request_wf:
  assumes "parser_done (foldl (\<lambda>q c. snd (consume q c)) HttpParser_new cs)"
  shows "wf_request (p_req (foldl (\<lambda>q c. snd (consume q c)) HttpParser_new cs))
     \<and> rq_keepAlive (p_req (foldl (\<lambda>q c. snd (consume q c)) HttpParser_new cs))
       = connectionKeepAlive
           (rq_headers (p_req (foldl (\<lambda>q c. snd (consume q c)) HttpParser_new cs)))
           (rq_version (p_req (foldl (\<lambda>q c. snd (consume q c)) HttpParser_new cs)))"
  using feed_all_inv [OF parser_inv_new, of cs] assms
  by (simp add: parser_inv_def parser_done_def wf_request_def)

theorem completed_request_wf_witness:
  "wf_request (p_req (foldl (\<lambda>q c. snd (consume q c)) HttpParser_new
     [''POST /x HTTP/1.1'' @ CRLF @ ''content-LENGTH : 2'' @ CRLF, CRLF @ ''ab'']))"
proof -
  have "parser_done (foldl (\<lambda>q c. snd (consume q c)) HttpParser_new
     [''POST /x HTTP/1.1'' @ CRLF @ ''content-LENGTH : 2'' @ CRLF, CRLF @ ''ab''])"
    by code_simp
  from completed_request_wf [OF this] show ?thesis by blast
qed

text \<open>C8: The request parser reads back the text of every well-formed request: it completes
  with that request (the keep-alive flag computed from the headers) and leaves exactly the bytes
  that follow the request in its buffer.\<close>

theorem request_roundtrip:
  assumes "wf_request r"
  shows "consume HttpParser_new (requestText r @ rest) =
     (ParseComplete, \<lparr>p_state = Complete, p_buffer = rest,
        p_bodyBytesNeeded = contentLengthFrom (rq_headers r),
        p_req = r\<lparr>rq_keepAlive := connectionKeepAlive (rq_headers r) (rq_version r)\<rparr>\<rparr>)"
  using assms by (rule consume_text)

definition sample_request :: HttpRequest where
  "sample_request =
     \<lparr>rq_method = ''POST'', rq_target = ''/api/echo'', rq_version = ''HTTP/1.1'',
      rq_headers = [(''Host'', ''a:1''), (''Content-Length'', ''5''), (''Connection'', ''close'')],
      rq_body = ''hello'', rq_keepAlive = False\<rparr>"

theorem request_roundtrip_witness:
  "fst (consume HttpParser_new (requestText sample_request @ ''GET '')) = ParseComplete
     \<and> p_req (snd (consume HttpParser_new (requestText sample_request @ ''GET ''))) = sample_request"
proof -
  have w: "wf_request sample_request" by code_simp
  have k: "connectionKeepAlive (rq_headers sample_request) (rq_version sample_request)
      = rq_keepAlive sample_request"
    by code_simp
  show ?thesis using request_roundtrip [OF w, of "''GET ''"] by (simp add: k)
qed

text \<open>C14: The response parser reads back what \<open>serialize\<close> printed, status, reason and body
  included, for every response whose header list is well formed and whose Content-Length, if it
  has one, is right. The parsed headers are the printed ones, with the added Content-Length and
  Connection; without a Connection header of its own the response's keep-alive flag survives.\<close>

theorem response_roundtrip:
  assumes "wf_response r"
  shows "response_consume HttpResponseParser_new (serialize r @ rest) =
     (ParseComplete, \<lparr>r_state = RComplete, r_buffer = rest, r_bodyBytesNeeded = length (rs_body r),
        r_resp = r\<lparr>rs_headers := printed_headers r,
          rs_keepAlive := connectionKeepAlive (printed_headers r) ''HTTP/1.1''\<rparr>\<rparr>)
     \<and> (findHeader (rs_headers r) ''Connection'' = None \<longrightarrow>
          connectionKeepAlive (printed_headers r) ''HTTP/1.1'' = rs_keepAlive r)"
  using response_consume_text [OF assms] keepAlive_printed by blast

theorem response_roundtrip_witness:
  "fst (response_consume HttpResponseParser_new (serialize (makeJsonResponse 404 ''Not Found'' ''{}'') @ []))
     = ParseComplete"
proof -
  have "wf_response (makeJsonResponse 404 ''Not Found'' ''{}'')" by code_simp
  from response_roundtrip [OF this, of "[]"] show ?thesis by simp
qed

text \<open>\<open>trim\<close>, written with two index loops, removes the white space in front and at the
  back and nothing else: the result neither starts nor ends with white space, and the text is
  white space, the result and white space again.\<close>

theorem trim_correct:
  "trim s = rev (dropWhile isspace (rev (dropWhile isspace s)))
     \<and> (\<exists>pre post. s = pre @ trim s @ post \<and> filter isspace pre = pre \<and> filter isspace post = post)"
proof
  show e: "trim s = rev (dropWhile isspace (rev (dropWhile isspace s)))" by (rule trim_eq)
  let ?d = "dropWhile isspace s" and ?w = "takeWhile isspace (rev (dropWhile isspace s))"
  have "rev ?d = ?w @ rev (trim s)" by (simp add: e)
  then have "?d = trim s @ rev ?w" by (metis rev_append rev_rev_ident)
  then have "s = takeWhile isspace s @ trim s @ rev ?w" by (metis takeWhile_dropWhile_id)
  moreover have "filter isspace (takeWhile isspace s) = takeWhile isspace s"
    "filter isspace (rev ?w) = rev ?w"
    by (auto simp: filter_id_conv dest: set_takeWhileD)
  ultimately show "\<exists>pre post. s = pre @ trim s @ post \<and> filter isspace pre = pre \<and> filter isspace post = post"
    by blast
qed

text \<open>The announced body length is the decimal Content-Length of the first header of that
  name, in whatever letter case; without one, and for a value that is no number or negative, it
  is 0. It never exceeds the largest 64-bit \<open>long\<close>.\<close>

theorem contentLength_value:
  "(findHeader hs ''Content-Length'' = None \<longrightarrow> contentLengthFrom hs = 0)
   \<and> (findHeader hs ''Content-Length'' = Some (to_string z) \<longrightarrow>
        LONG_MIN < z \<and> z \<le> LONG_MAX \<longrightarrow> contentLengthFrom hs = nat z)
   \<and> int (contentLengthFrom hs) \<le> LONG_MAX"
proof (intro conjI impI)
  show "contentLengthFrom hs = 0" if "findHeader hs ''Content-Length'' = None"
    using that by (simp add: contentLengthFrom_def)
  show "contentLengthFrom hs = nat z"
    if "findHeader hs ''Content-Length'' = Some (to_string z)" "LONG_MIN < z \<and> z \<le> LONG_MAX"
    using that strtol_to_string [of z]
    by (auto simp: contentLengthFrom_def c_str_id to_string_no_special split: prod.splits)
  show "int (contentLengthFrom hs) \<le> LONG_MAX" by (rule contentLengthFrom_bound)
qed

theorem contentLength_value_witness:
  "contentLengthFrom [(''CONTENT-length'', ''42'')] = 42
   \<and> contentLengthFrom [(''Content-Length'', ''-7'')] = 0"
proof -
  have a: "findHeader [(''CONTENT-length'', ''42'')] ''Content-Length'' = Some (to_string 42)"
    "findHeader [(''Content-Length'', ''-7'')] ''Content-Length'' = Some (to_string (- 7))"
    by code_simp+
  have b: "LONG_MIN < (42::int) \<and> 42 \<le> LONG_MAX" "LONG_MIN < - (7::int) \<and> - 7 \<le> LONG_MAX"
    by (simp_all add: LONG_MIN_def LONG_MAX_def)
  show ?thesis
    using contentLength_value [of "[(''CONTENT-length'', ''42'')]" 42]
      contentLength_value [of "[(''Content-Length'', ''-7'')]" "- 7"] a b by simp
qed

text \<open>Persistence of a connection: a first Connection header with "close" in it, in any
  letter case, ends it; otherwise "keep-alive" in it keeps it; otherwise HTTP/1.1 keeps it and
  HTTP/1.0 does not.\<close>

theorem keepAlive_rule:
  "connectionKeepAlive hs v \<longleftrightarrow>
     (case findHeader hs ''Connection'' of
        None \<Rightarrow> v = ''HTTP/1.1''
      | Some c \<Rightarrow> \<not> sublist ''close'' (toLower c)
                  \<and> (sublist ''keep-alive'' (toLower c) \<or> v = ''HTTP/1.1''))"
  by (auto simp: connectionKeepAlive_def Let_def find_sub_sublist split: option.splits)

end
