(* ===== verification/Posix.thy ===== *)
theory Posix
  imports Prelude
begin

section \<open>The operating system as a parameter\<close>

text \<open>
  System calls are not code of the repository. A definition that makes one takes the
  operating system as an argument: a function from the calls made so far (with their
  results) and the call at hand to its result. Every behaviour of the outside world,
  clients and upstreams included, is some such function. The history of calls is threaded
  through the code as its effect, the latest call first; what a component did is read off
  the history.

  The hypotheses a theorem needs on the operating system are predicates on that function
  and state documented behaviour only.
\<close>

datatype errno = EAGAIN | EWOULDBLOCK | EINPROGRESS | EOTHER nat

datatype sockopt =
    SO_REUSEADDR
  | TCP_NODELAY
  | SO_RCVTIMEO nat nat \<comment> \<open>seconds and microseconds\<close>
  | SO_SNDTIMEO nat nat

datatype ctl_op = EPOLL_CTL_ADD | EPOLL_CTL_MOD | EPOLL_CTL_DEL

datatype kfilter = EVFILT_READ | EVFILT_WRITE

datatype kaction = EV_ADD | EV_DELETE

record kchange =
  kc_ident :: fd
  kc_filter :: kfilter
  kc_flags :: kaction

datatype syscall =
    Sys_socket
  | Sys_setsockopt fd sockopt
  | Sys_fcntl_getfl fd
  | Sys_fcntl_set_nonblock fd int \<comment> \<open>\<open>F_SETFL\<close> with \<open>flags | O_NONBLOCK\<close>\<close>
  | Sys_bind fd u16
  | Sys_listen fd int
  | Sys_accept fd
  | Sys_inet_pton string
  | Sys_connect fd string u16
  | Sys_send fd string
  | Sys_recv fd nat
  | Sys_close fd
  | Sys_epoll_create
  | Sys_epoll_ctl fd ctl_op fd u32 \<comment> \<open>the instance, the operation, the descriptor, the events\<close>
  | Sys_epoll_wait fd nat int \<comment> \<open>the room for events, the timeout in milliseconds\<close>
  | Sys_kqueue
  | Sys_kevent_change fd "kchange list"
  | Sys_kevent_wait fd nat "(int \<times> int) option" \<comment> \<open>the timeout in seconds and nanoseconds\<close>

text \<open>
  The outcome of a call: its return value and \<open>errno\<close>, the bytes it stored in a caller's
  buffer, the events it reported. For a \<open>kevent\<close> call that fails, \<open>sr_applied\<close> is the
  number of changes that took effect before the failing one.
\<close>

record sysres =
  sr_ret :: int
  sr_errno :: errno
  sr_data :: string
  sr_epoll :: "(fd \<times> u32) list"
  sr_kevents :: "(fd \<times> kfilter \<times> u16) list"
  sr_applied :: nat

definition sys_result :: "int \<Rightarrow> sysres" where
  "sys_result n = \<lparr>sr_ret = n, sr_errno = EOTHER 0, sr_data = [], sr_epoll = [], sr_kevents = [], sr_applied = 0\<rparr>"

definition sys_error :: "errno \<Rightarrow> sysres" where
  "sys_error e = (sys_result (- 1))\<lparr>sr_errno := e\<rparr>"

lemma sys_result_simps [simp]:
  "sr_ret (sys_result n) = n" "sr_ret (sys_error e) = - 1" "sr_errno (sys_error e) = e"
  "sr_data (sys_result n) = []" "sr_epoll (sys_result n) = []" "sr_kevents (sys_result n) = []"
  "sr_data (sys_error e) = []" "sr_epoll (sys_error e) = []" "sr_kevents (sys_error e) = []"
  by (simp_all add: sys_result_def sys_error_def)

type_synonym history = "(syscall \<times> sysres) list"
type_synonym os = "history \<Rightarrow> syscall \<Rightarrow> sysres"

definition invoke :: "os \<Rightarrow> syscall \<Rightarrow> history \<Rightarrow> sysres \<times> history" where
  "invoke os c h = (os h c, (c, os h c) # h)"

lemma fst_invoke [simp]: "fst (invoke os c h) = os h c"
  and snd_invoke [simp]: "snd (invoke os c h) = (c, os h c) # h"
  by (simp_all add: invoke_def)

definition would_block :: "errno \<Rightarrow> bool" where
  "would_block e \<longleftrightarrow> e = EAGAIN \<or> e = EWOULDBLOCK"

subsection \<open>Reading the history\<close>

text \<open>The descriptors that some call opened and \<open>close\<close> did not close yet.\<close>

fun track_fd :: "fd set \<Rightarrow> syscall \<times> sysres \<Rightarrow> fd set" where
  "track_fd S (Sys_socket, r) = (if 0 \<le> sr_ret r then insert (sr_ret r) S else S)"
| "track_fd S (Sys_accept _, r) = (if 0 \<le> sr_ret r then insert (sr_ret r) S else S)"
| "track_fd S (Sys_epoll_create, r) = (if 0 \<le> sr_ret r then insert (sr_ret r) S else S)"
| "track_fd S (Sys_kqueue, r) = (if 0 \<le> sr_ret r then insert (sr_ret r) S else S)"
| "track_fd S (Sys_close f, r) = S - {f}"
| "track_fd S _ = S"

primrec open_fds :: "history \<Rightarrow> fd set" where
  "open_fds [] = {}"
| "open_fds (e # h) = track_fd (open_fds h) e"

lemma invoke_open: "invoke os c h = (r, h') \<Longrightarrow> open_fds h' = track_fd (open_fds h) (c, r)"
  by (auto simp: invoke_def)

lemma invoke_result: "invoke os c h = (r, h') \<Longrightarrow> r = os h c \<and> h' = (c, r) # h"
  by (auto simp: invoke_def)

text \<open>The bytes the kernel accepted from \<open>send\<close> on a descriptor, in order.\<close>

fun sent_by :: "fd \<Rightarrow> syscall \<times> sysres \<Rightarrow> string" where
  "sent_by f (Sys_send g d, r) = (if f = g then take (nat (sr_ret r)) d else [])"
| "sent_by f _ = []"

primrec sent_bytes :: "fd \<Rightarrow> history \<Rightarrow> string" where
  "sent_bytes f [] = []"
| "sent_bytes f (e # h) = sent_bytes f h @ sent_by f e"

subsection \<open>Documented behaviour\<close>

text \<open>A new descriptor is not one of the open ones.\<close>

definition os_fresh :: "os \<Rightarrow> bool" where
  "os_fresh os \<longleftrightarrow>
     (\<forall>h. 0 \<le> sr_ret (os h Sys_socket) \<longrightarrow> sr_ret (os h Sys_socket) \<notin> open_fds h)
     \<and> (\<forall>h f. 0 \<le> sr_ret (os h (Sys_accept f)) \<longrightarrow> sr_ret (os h (Sys_accept f)) \<notin> open_fds h)
     \<and> (\<forall>h. 0 \<le> sr_ret (os h Sys_epoll_create) \<longrightarrow> sr_ret (os h Sys_epoll_create) \<notin> open_fds h)
     \<and> (\<forall>h. 0 \<le> sr_ret (os h Sys_kqueue) \<longrightarrow> sr_ret (os h Sys_kqueue) \<notin> open_fds h)"

text \<open>\<open>send\<close> never reports more bytes than it was given.\<close>

definition os_send_bounded :: "os \<Rightarrow> bool" where
  "os_send_bounded os \<longleftrightarrow> (\<forall>h f d. sr_ret (os h (Sys_send f d)) \<le> int (length d))"

subsection \<open>A descriptor that is free whatever happened\<close>

text \<open>Used to build concrete operating systems.\<close>

definition fresh_fd :: "history \<Rightarrow> fd" where
  "fresh_fd h = 1 + sum_list (map (\<lambda>e. \<bar>sr_ret (snd e)\<bar>) h)"

lemma fresh_fd_pos: "1 \<le> fresh_fd h"
  unfolding fresh_fd_def by (induction h) auto

lemma open_fds_result: "f \<in> open_fds h \<Longrightarrow> \<exists>e \<in> set h. f = sr_ret (snd e)"
proof (induction h)
  case Nil
  then show ?case by simp
next
  case (Cons e h)
  obtain c r where e: "e = (c, r)" by (cases e)
  from Cons e show ?case by (cases c) (auto split: if_splits)
qed

lemma fresh_fd_fresh: "fresh_fd h \<notin> open_fds h"
proof
  assume "fresh_fd h \<in> open_fds h"
  then obtain e where e: "e \<in> set h" "fresh_fd h = sr_ret (snd e)" using open_fds_result by blast
  have "\<bar>sr_ret (snd e)\<bar> \<le> sum_list (map (\<lambda>e. \<bar>sr_ret (snd e)\<bar>) h)"
    using e(1) by (intro member_le_sum_list) auto
  with e(2) show False by (simp add: fresh_fd_def)
qed

end
