(* ===== verification/Socket.thy ===== *)
theory Socket
  imports Posix
begin

section \<open>Sockets\<close>

text \<open>
  \<open>net::Socket\<close>, the owner of a file descriptor, and the functions of
  \<open>src/net/socket.cpp\<close> that make sockets. Every call to the kernel goes through the
  history; the lemmas follow the open descriptors through each function, so that the
  error paths are shown to close what they opened.
\<close>

record Socket =
  s_fd :: fd

definition Socket_new :: Socket where "Socket_new = \<lparr>s_fd = - 1\<rparr>"
definition Socket_of :: "fd \<Rightarrow> Socket" where "Socket_of f = \<lparr>s_fd = f\<rparr>"
definition Socket_valid :: "Socket \<Rightarrow> bool" where "Socket_valid s \<longleftrightarrow> 0 \<le> s_fd s"

definition Socket_close :: "os \<Rightarrow> Socket \<Rightarrow> history \<Rightarrow> Socket \<times> history" where
  "Socket_close os s h =
     (if 0 \<le> s_fd s then (s\<lparr>s_fd := - 1\<rparr>, snd (invoke os (Sys_close (s_fd s)) h)) else (s, h))"

text \<open>The destructor.\<close>

definition Socket_destroy :: "os \<Rightarrow> Socket \<Rightarrow> history \<Rightarrow> history" where
  "Socket_destroy os s h = snd (Socket_close os s h)"

text \<open>Move construction: the new socket and what is left of the other.\<close>

definition Socket_move :: "Socket \<Rightarrow> Socket \<times> Socket" where
  "Socket_move other = (\<lparr>s_fd = s_fd other\<rparr>, other\<lparr>s_fd := - 1\<rparr>)"

text \<open>Move assignment; \<open>same\<close> is \<open>this == &other\<close>.\<close>

definition Socket_assign ::
    "os \<Rightarrow> bool \<Rightarrow> Socket \<Rightarrow> Socket \<Rightarrow> history \<Rightarrow> (Socket \<times> Socket) \<times> history" where
  "Socket_assign os same this other h =
     (if \<not> same
      then (let (this1, h1) = Socket_close os this h
            in ((this1\<lparr>s_fd := s_fd other\<rparr>, other\<lparr>s_fd := - 1\<rparr>), h1))
      else ((this, other), h))"

definition Socket_release :: "Socket \<Rightarrow> fd \<times> Socket" where
  "Socket_release s = (s_fd s, s\<lparr>s_fd := - 1\<rparr>)"

definition setNonBlocking :: "os \<Rightarrow> fd \<Rightarrow> history \<Rightarrow> bool \<times> history" where
  "setNonBlocking os f h =
     (let (r, h1) = invoke os (Sys_fcntl_getfl f) h
      in if sr_ret r < 0 then (False, h1)
         else (let (r2, h2) = invoke os (Sys_fcntl_set_nonblock f (sr_ret r)) h1
               in (sr_ret r2 = 0, h2)))"

definition setTcpNoDelay :: "os \<Rightarrow> fd \<Rightarrow> history \<Rightarrow> bool \<times> history" where
  "setTcpNoDelay os f h =
     (let (r, h1) = invoke os (Sys_setsockopt f TCP_NODELAY) h in (sr_ret r = 0, h1))"

definition createListenSocket :: "os \<Rightarrow> u16 \<Rightarrow> int \<Rightarrow> history \<Rightarrow> Socket \<times> history" where
  "createListenSocket os port backlog h =
     (let (r, h1) = invoke os Sys_socket h; f = sr_ret r
      in if f < 0 then (Socket_new, h1)
         else
           (let (_, h2) = invoke os (Sys_setsockopt f SO_REUSEADDR) h1;
                (ok, h3) = setNonBlocking os f h2
            in if \<not> ok then (Socket_new, snd (invoke os (Sys_close f) h3))
               else
                 (let (r4, h4) = invoke os (Sys_bind f port) h3
                  in if sr_ret r4 \<noteq> 0 then (Socket_new, snd (invoke os (Sys_close f) h4))
                     else
                       (let (r5, h5) = invoke os (Sys_listen f backlog) h4
                        in if sr_ret r5 \<noteq> 0 then (Socket_new, snd (invoke os (Sys_close f) h5))
                           else (Socket_of f, h5)))))"

definition connectNonBlocking :: "os \<Rightarrow> string \<Rightarrow> u16 \<Rightarrow> history \<Rightarrow> Socket \<times> history" where
  "connectNonBlocking os host port h =
     (let (r, h1) = invoke os Sys_socket h; f = sr_ret r
      in if f < 0 then (Socket_new, h1)
         else
           (let (ok, h2) = setNonBlocking os f h1
            in if \<not> ok then (Socket_new, snd (invoke os (Sys_close f) h2))
               else
                 (let (r3, h3) = invoke os (Sys_inet_pton host) h2
                  in if sr_ret r3 \<noteq> 1 then (Socket_new, snd (invoke os (Sys_close f) h3))
                     else
                       (let (rc, h4) = invoke os (Sys_connect f host port) h3
                        in if sr_ret rc \<noteq> 0 \<and> sr_errno rc \<noteq> EINPROGRESS
                           then (Socket_new, snd (invoke os (Sys_close f) h4))
                           else (Socket_of f, h4)))))"

record AcceptResult =
  ar_sock :: Socket
  ar_peer :: string
  ar_wouldBlock :: bool

definition AcceptResult_new :: AcceptResult where
  "AcceptResult_new = \<lparr>ar_sock = Socket_new, ar_peer = [], ar_wouldBlock = False\<rparr>"

definition acceptNonBlocking :: "os \<Rightarrow> fd \<Rightarrow> history \<Rightarrow> AcceptResult \<times> history" where
  "acceptNonBlocking os listenFd h =
     (let (r, h1) = invoke os (Sys_accept listenFd) h; f = sr_ret r
      in if f < 0
         then ((if would_block (sr_errno r) then AcceptResult_new\<lparr>ar_wouldBlock := True\<rparr>
                else AcceptResult_new), h1)
         else
           (let (ok, h2) = setNonBlocking os f h1
            in if \<not> ok then (AcceptResult_new, snd (invoke os (Sys_close f) h2))
               else (AcceptResult_new\<lparr>ar_sock := Socket_of f, ar_peer := sr_data r\<rparr>, h2)))"

subsection \<open>Open descriptors\<close>

lemma setNonBlocking_open [simp]: "open_fds (snd (setNonBlocking os f h)) = open_fds h"
  by (simp add: setNonBlocking_def invoke_def Let_def)

lemma setTcpNoDelay_open [simp]: "open_fds (snd (setTcpNoDelay os f h)) = open_fds h"
  by (simp add: setTcpNoDelay_def invoke_def)

text \<open>Closing a fresh descriptor restores the set of open ones.\<close>

lemma fresh_socket:
  "os_fresh os \<Longrightarrow> 0 \<le> sr_ret (os h Sys_socket) \<Longrightarrow>
     insert (sr_ret (os h Sys_socket)) (open_fds h) - {sr_ret (os h Sys_socket)} = open_fds h"
  by (auto simp: os_fresh_def)

lemma fresh_accept:
  "os_fresh os \<Longrightarrow> 0 \<le> sr_ret (os h (Sys_accept f)) \<Longrightarrow>
     insert (sr_ret (os h (Sys_accept f))) (open_fds h) - {sr_ret (os h (Sys_accept f))} = open_fds h"
  by (auto simp: os_fresh_def)

text \<open>What a function that returns a socket does to the open descriptors.\<close>

definition opens_only :: "Socket \<Rightarrow> history \<Rightarrow> history \<Rightarrow> bool" where
  "opens_only s h h' \<longleftrightarrow>
     open_fds h' = (if Socket_valid s then insert (s_fd s) (open_fds h) else open_fds h)"

lemma opens_only_new [simp]: "opens_only Socket_new h h' \<longleftrightarrow> open_fds h' = open_fds h"
  by (simp add: opens_only_def Socket_new_def Socket_valid_def)

lemma opens_only_of [simp]:
  "0 \<le> f \<Longrightarrow> opens_only (Socket_of f) h h' \<longleftrightarrow> open_fds h' = insert f (open_fds h)"
  by (simp add: opens_only_def Socket_of_def Socket_valid_def)

lemma createListenSocket_opens:
  assumes "os_fresh os"
  shows "opens_only (fst (createListenSocket os port backlog h)) h (snd (createListenSocket os port backlog h))"
  using fresh_socket [OF assms, of h]
  by (simp add: createListenSocket_def Let_def case_prod_beta not_less)

lemma connectNonBlocking_opens:
  assumes "os_fresh os"
  shows "opens_only (fst (connectNonBlocking os host port h)) h (snd (connectNonBlocking os host port h))"
  using fresh_socket [OF assms, of h]
  by (simp add: connectNonBlocking_def Let_def case_prod_beta not_less)

lemma acceptNonBlocking_opens:
  assumes "os_fresh os"
  shows "opens_only (ar_sock (fst (acceptNonBlocking os f h))) h (snd (acceptNonBlocking os f h))"
  using fresh_accept [OF assms, of h f]
  by (simp add: acceptNonBlocking_def AcceptResult_new_def Let_def case_prod_beta not_less)

lemma acceptNonBlocking_wouldBlock:
  "ar_wouldBlock (fst (acceptNonBlocking os f h)) \<Longrightarrow> \<not> Socket_valid (ar_sock (fst (acceptNonBlocking os f h)))"
  by (auto simp: acceptNonBlocking_def AcceptResult_new_def Socket_new_def Socket_valid_def Let_def case_prod_beta)

subsection \<open>Ownership\<close>

text \<open>
  The socket objects of a program, by an object number, and what can happen to them: the
  operations of the class, and system calls of other code in between. A descriptor gets into an
  object from the call that opened it; other code never closes a descriptor that an object owns.
\<close>

type_synonym sock_store = "nat \<rightharpoonup> Socket"

definition owner :: "sock_store \<Rightarrow> fd \<Rightarrow> nat \<Rightarrow> bool" where
  "owner m f i \<longleftrightarrow> (\<exists>s. m i = Some s \<and> s_fd s = f \<and> Socket_valid s)"

definition owned :: "sock_store \<Rightarrow> fd \<Rightarrow> bool" where
  "owned m f \<longleftrightarrow> (\<exists>i. owner m f i)"

datatype sock_op =
  Default nat | Construct nat syscall | Move_construct nat nat | Move_assign nat nat
  | Release nat | Close_socket nat | Destroy nat | Other_call syscall

definition opens_fd :: "syscall \<Rightarrow> bool" where
  "opens_fd c \<longleftrightarrow> c = Sys_socket \<or> (\<exists>g. c = Sys_accept g)"

inductive sock_step :: "os \<Rightarrow> sock_op \<Rightarrow> sock_store \<times> history \<Rightarrow> sock_store \<times> history \<Rightarrow> bool" for os where
  default: "m i = None \<Longrightarrow> sock_step os (Default i) (m, h) (m(i \<mapsto> Socket_new), h)"
| construct: "m i = None \<Longrightarrow> opens_fd c \<Longrightarrow> invoke os c h = (r, h') \<Longrightarrow>
    sock_step os (Construct i c) (m, h) (m(i \<mapsto> Socket_of (sr_ret r)), h')"
| move_construct: "m i = None \<Longrightarrow> m j = Some s \<Longrightarrow>
    sock_step os (Move_construct i j) (m, h) (m(j \<mapsto> snd (Socket_move s), i \<mapsto> fst (Socket_move s)), h)"
| move_assign: "m i = Some s \<Longrightarrow> m j = Some t \<Longrightarrow> Socket_assign os (i = j) s t h = ((s', t'), h') \<Longrightarrow>
    sock_step os (Move_assign i j) (m, h) (m(j \<mapsto> t', i \<mapsto> s'), h')"
| release: "m i = Some s \<Longrightarrow> sock_step os (Release i) (m, h) (m(i \<mapsto> snd (Socket_release s)), h)"
| close: "m i = Some s \<Longrightarrow> Socket_close os s h = (s', h') \<Longrightarrow> sock_step os (Close_socket i) (m, h) (m(i \<mapsto> s'), h')"
| destroy: "m i = Some s \<Longrightarrow> sock_step os (Destroy i) (m, h) (m(i := None), Socket_destroy os s h)"
| other_call: "(\<And>f. c = Sys_close f \<Longrightarrow> \<not> owned m f) \<Longrightarrow>
    sock_step os (Other_call c) (m, h) (m, (c, os h c) # h)"

inductive_cases sock_stepE: "sock_step os op a b"

inductive sock_reach :: "os \<Rightarrow> sock_store \<times> history \<Rightarrow> bool" for os where
  start: "sock_reach os (Map.empty, [])"
| step: "sock_reach os a \<Longrightarrow> sock_step os op a b \<Longrightarrow> sock_reach os b"

definition sole_owners :: "sock_store \<Rightarrow> bool" where
  "sole_owners m \<longleftrightarrow> (\<forall>f i j. owner m f i \<longrightarrow> owner m f j \<longrightarrow> i = j)"

text \<open>Every owned descriptor has one owner and is open.\<close>

definition store_ok :: "sock_store \<times> history \<Rightarrow> bool" where
  "store_ok a \<longleftrightarrow> sole_owners (fst a) \<and> (\<forall>f. owned (fst a) f \<longrightarrow> f \<in> open_fds (snd a))"

text \<open>The operations that may close a descriptor, by its owner: assignment only from another object.\<close>

definition may_close :: "sock_store \<Rightarrow> sock_op \<Rightarrow> fd \<Rightarrow> bool" where
  "may_close m op f \<longleftrightarrow> (\<exists>i. owner m f i
     \<and> (op = Close_socket i \<or> op = Destroy i \<or> (\<exists>j. j \<noteq> i \<and> op = Move_assign i j)))"

lemmas socket_defs =
  Socket_of_def Socket_new_def Socket_valid_def Socket_move_def Socket_release_def Socket_close_def
  Socket_destroy_def Socket_assign_def

lemmas owner_defs = sole_owners_def owned_def owner_def

text \<open>What a step does to the history and the owners: nothing, one call that closes no owned descriptor,
  or the closing of one.\<close>

definition step_post :: "os \<Rightarrow> sock_op \<Rightarrow> sock_store \<Rightarrow> history \<Rightarrow> sock_store \<Rightarrow> history \<Rightarrow> bool" where
  "step_post os op m h m' h' \<longleftrightarrow> sole_owners m'
     \<and> (h' = h \<and> (\<forall>f. owned m' f \<longrightarrow> owned m f) \<and> (\<forall>f. owned m f \<and> \<not> owned m' f \<longrightarrow> (\<exists>i. op = Release i \<and> owner m f i))
       \<or> (\<exists>i c. op = Construct i c \<and> opens_fd c \<and> h' = (c, os h c) # h
            \<and> (\<forall>f. owned m' f \<longleftrightarrow> owned m f \<or> f = sr_ret (os h c) \<and> 0 \<le> f))
       \<or> (\<exists>c. op = Other_call c \<and> h' = (c, os h c) # h \<and> m' = m \<and> (\<forall>f. c = Sys_close f \<longrightarrow> \<not> owned m f))
       \<or> (\<exists>f. h' = (Sys_close f, os h (Sys_close f)) # h \<and> may_close m op f
            \<and> (\<forall>g. owned m' g \<longleftrightarrow> owned m g \<and> g \<noteq> f)))"

lemma empty_object: "\<not> Socket_valid x \<Longrightarrow> owner (m(i \<mapsto> x)) g k \<longleftrightarrow> owner m g k \<and> k \<noteq> i"
  by (auto simp: owner_def)

lemma no_object: "owner (m(i := None)) g k \<longleftrightarrow> owner m g k \<and> k \<noteq> i"
  by (auto simp: owner_def)

lemma lose_descriptor:
  assumes "sole_owners m" "owner m f i" "\<And>g k. owner m' g k \<longleftrightarrow> owner m g k \<and> k \<noteq> i"
  shows "sole_owners m' \<and> (\<forall>g. owned m' g \<longleftrightarrow> owned m g \<and> g \<noteq> f)"
proof -
  have "g = f" if "owner m g i" for g using that assms(2) by (auto simp: owner_def)
  with assms show ?thesis unfolding sole_owners_def owned_def by metis
qed

lemma lose_nothing:
  assumes "sole_owners m" "\<And>g. \<not> owner m g i" "\<And>g k. owner m' g k \<longleftrightarrow> owner m g k \<and> k \<noteq> i"
  shows "sole_owners m' \<and> (\<forall>g. owned m' g \<longleftrightarrow> owned m g)"
  using assms unfolding sole_owners_def owned_def by metis

lemma pass_on:
  assumes "sole_owners m" "m j = Some t" "i \<noteq> j" "\<And>g. \<not> owner m g i"
    and "m' = m(j \<mapsto> t\<lparr>s_fd := - 1\<rparr>, i \<mapsto> \<lparr>s_fd = s_fd t\<rparr>)"
  shows "sole_owners m' \<and> (\<forall>g. owned m' g \<longleftrightarrow> owned m g)"
proof -
  have o: "owner m' g k \<longleftrightarrow> (if k = i then owner m g j else owner m g k \<and> k \<noteq> j)" for g k
    using assms(2,3,5) by (auto simp: owner_def Socket_valid_def)
  from assms(1,3,4) show ?thesis unfolding sole_owners_def owned_def o by (auto split: if_splits) metis+
qed

lemma valid_owner: "m i = Some s \<Longrightarrow> Socket_valid s \<Longrightarrow> owner m (s_fd s) i"
  by (simp add: owner_def)

lemma invalid_owner: "m i = Some s \<Longrightarrow> \<not> Socket_valid s \<Longrightarrow> \<not> owner m g i"
  by (simp add: owner_def)

lemma same_owners: "sole_owners m \<Longrightarrow> sole_owners m' \<and> (\<forall>g. owned m' g \<longleftrightarrow> owned m g) \<Longrightarrow> step_post os op m h m' h"
  by (simp add: step_post_def)

lemma closes_one:
  "may_close m op f \<Longrightarrow> sole_owners m' \<and> (\<forall>g. owned m' g \<longleftrightarrow> owned m g \<and> g \<noteq> f) \<Longrightarrow>
     step_post os op m h m' ((Sys_close f, os h (Sys_close f)) # h)"
  unfolding step_post_def by blast

lemma construct_post:
  assumes "os_fresh os" "store_ok (m, h)" "m i = None" "opens_fd c"
  shows "step_post os (Construct i c) m h (m(i \<mapsto> Socket_of (sr_ret (os h c)))) ((c, os h c) # h)"
proof -
  let ?f = "sr_ret (os h c)"
  have n: "\<not> owner m ?f k" if "0 \<le> ?f" for k
    using assms(1,2,4) that by (auto simp: store_ok_def opens_fd_def os_fresh_def owned_def)
  have o: "owner (m(i \<mapsto> Socket_of ?f)) g k \<longleftrightarrow> owner m g k \<or> k = i \<and> g = ?f \<and> 0 \<le> ?f" for g k
    using assms(3) by (auto simp: owner_def Socket_of_def Socket_valid_def)
  have "sole_owners (m(i \<mapsto> Socket_of ?f))"
    using assms(2) n unfolding sole_owners_def o store_ok_def by auto
  moreover have "owned (m(i \<mapsto> Socket_of ?f)) g \<longleftrightarrow> owned m g \<or> g = ?f \<and> 0 \<le> g" for g unfolding owned_def o by auto
  ultimately show ?thesis using assms(4) by (simp add: step_post_def)
qed

lemma assign_post:
  assumes "sole_owners m" "m i = Some s" "m j = Some t" "i \<noteq> j" "Socket_assign os False s t h = ((s', t'), h')"
  shows "step_post os (Move_assign i j) m h (m(j \<mapsto> t', i \<mapsto> s')) h'"
proof -
  let ?e = "s\<lparr>s_fd := - 1\<rparr>"
  let ?m1 = "m(i \<mapsto> ?e)"
  have e: "\<not> Socket_valid ?e" by (simp add: Socket_valid_def)
  have m': "m(j \<mapsto> t', i \<mapsto> s') = ?m1(j \<mapsto> t\<lparr>s_fd := - 1\<rparr>, i \<mapsto> \<lparr>s_fd = s_fd t\<rparr>)"
    using assms(4,5) by (cases s) (auto simp: Socket_assign_def Socket_close_def Let_def fun_upd_twist split: if_splits)
  show ?thesis
  proof (cases "Socket_valid s")
    case True
    note o = valid_owner [of m i s, OF assms(2) True]
    from lose_descriptor [OF assms(1) o empty_object [OF e]] have l: "sole_owners ?m1" "\<forall>g. owned ?m1 g \<longleftrightarrow> owned m g \<and> g \<noteq> s_fd s"
      by auto
    have "?m1 j = Some t" using assms(3,4) by simp
    from pass_on [of ?m1 j t, OF l(1) this assms(4) _ m'] l(2) empty_object [OF e]
    have "sole_owners (m(j \<mapsto> t', i \<mapsto> s')) \<and> (\<forall>g. owned (m(j \<mapsto> t', i \<mapsto> s')) g \<longleftrightarrow> owned m g \<and> g \<noteq> s_fd s)" by simp
    moreover have "may_close m (Move_assign i j) (s_fd s)" using o assms(4) by (auto simp: may_close_def)
    moreover have "h' = (Sys_close (s_fd s), os h (Sys_close (s_fd s))) # h"
      using True assms(5) by (auto simp: Socket_assign_def Socket_close_def Socket_valid_def invoke_def)
    ultimately show ?thesis using closes_one by simp
  next
    case False
    note l = lose_nothing [OF assms(1) invalid_owner [of m i s, OF assms(2) False] empty_object [OF e]]
    have "?m1 j = Some t" using assms(3,4) by simp
    from pass_on [of ?m1 j t, OF _ this assms(4) _ m'] l empty_object [OF e] same_owners [OF assms(1)] 
    have "step_post os (Move_assign i j) m h (m(j \<mapsto> t', i \<mapsto> s')) h" by simp
    moreover have "h' = h" using False assms(5) by (auto simp: Socket_assign_def Socket_close_def Socket_valid_def)
    ultimately show ?thesis by simp
  qed
qed

lemma sock_step_post:
  assumes "os_fresh os" "sock_step os op (m, h) (m', h')" "store_ok (m, h)"
  shows "step_post os op m h m' h'"
proof -
  have so: "sole_owners m" using assms(3) by (simp add: store_ok_def)
  show ?thesis
    using assms(2)
  proof (cases rule: sock_step.cases)
    case (default i)
    then have "owner m' g k \<longleftrightarrow> owner m g k" for g k by (auto simp: owner_def Socket_new_def Socket_valid_def)
    with so have "sole_owners m' \<and> (\<forall>g. owned m' g \<longleftrightarrow> owned m g)" by (simp add: sole_owners_def owned_def)
    from same_owners [OF so this] default show ?thesis by simp
  next
    case (construct i c r)
    with construct_post [OF assms(1,3)] show ?thesis by (auto simp: invoke_def)
  next
    case (move_construct i j s)
    have "i \<noteq> j" using move_construct by auto
    with pass_on [of m j s i m', OF so move_construct(5)] move_construct same_owners [OF so]
    show ?thesis by (auto simp: Socket_move_def owner_def)
  next
    case (move_assign i s j t s' t')
    show ?thesis
    proof (cases "i = j")
      case True
      with move_assign so show ?thesis by (auto simp: Socket_assign_def step_post_def fun_upd_idem)
    next
      case False
      with assign_post [OF so move_assign(3,4) False] move_assign show ?thesis by simp
    qed
  next
    case (release i s)
    have m': "m' = m(i \<mapsto> s\<lparr>s_fd := - 1\<rparr>)" "\<not> Socket_valid (s\<lparr>s_fd := - 1\<rparr>)"
      using release by (simp_all add: Socket_release_def Socket_valid_def)
    have o: "owner m' g k \<longleftrightarrow> owner m g k \<and> k \<noteq> i" for g k unfolding m'(1) by (rule empty_object [OF m'(2)])
    have "sole_owners m'" using so unfolding sole_owners_def o by blast
    moreover have "\<exists>k. op = Release k \<and> owner m f k" if "owned m f" "\<not> owned m' f" for f
      using that release(1) unfolding owned_def o by blast
    moreover have "owned m f" if "owned m' f" for f using that unfolding owned_def o by blast
    ultimately show ?thesis using release by (simp add: step_post_def)
  next
    case (close i s s')
    have m': "m' = m(i \<mapsto> s')" "\<not> Socket_valid s'" using close by (auto simp: Socket_close_def Socket_valid_def split: if_splits)
    have o: "owner m' g k \<longleftrightarrow> owner m g k \<and> k \<noteq> i" for g k unfolding m'(1) by (rule empty_object [OF m'(2)])
    show ?thesis
    proof (cases "Socket_valid s")
      case True
      note v = valid_owner [of m i s, OF close(3) True]
      from closes_one [OF _ lose_descriptor [OF so v o]] v close True show ?thesis
        by (auto simp: may_close_def Socket_close_def Socket_valid_def invoke_def)
    next
      case False
      from same_owners [OF so lose_nothing [OF so invalid_owner [of m i s, OF close(3) False] o]] close False show ?thesis
        by (auto simp: Socket_close_def Socket_valid_def)
    qed
  next
    case (destroy i s)
    have o: "owner m' g k \<longleftrightarrow> owner m g k \<and> k \<noteq> i" for g k unfolding destroy by (rule no_object)
    show ?thesis
    proof (cases "Socket_valid s")
      case True
      note v = valid_owner [of m i s, OF destroy(4) True]
      from closes_one [OF _ lose_descriptor [OF so v o]] v destroy True show ?thesis
        by (auto simp: may_close_def Socket_destroy_def Socket_close_def Socket_valid_def invoke_def)
    next
      case False
      from same_owners [OF so lose_nothing [OF so invalid_owner [of m i s, OF destroy(4) False] o]] destroy False show ?thesis
        by (auto simp: Socket_destroy_def Socket_close_def Socket_valid_def)
    qed
  next
    case (other_call c)
    with so show ?thesis by (simp add: step_post_def)
  qed
qed

lemma step_post_ok:
  assumes "step_post os op m h m' h'" "store_ok (m, h)"
  shows "store_ok (m', h')"
proof -
  have t: "f \<in> open_fds ((c, r) # h)" if "f \<in> open_fds h" "c \<noteq> Sys_close f" for f c r using that by (cases c) auto
  have u: "sr_ret r \<in> open_fds ((c, r) # h)" if "opens_fd c" "0 \<le> sr_ret r" for c r using that by (auto simp: opens_fd_def)
  have "f \<in> open_fds h'" if "owned m' f" for f
    using assms that t u unfolding step_post_def store_ok_def opens_fd_def by fastforce
  with assms(1) show ?thesis by (simp add: store_ok_def step_post_def)
qed

lemma sock_reach_ok: "sock_reach os a \<Longrightarrow> os_fresh os \<Longrightarrow> store_ok a"
proof (induction rule: sock_reach.induct)
  case start
  then show ?case by (simp add: store_ok_def owner_defs)
next
  case (step a op b)
  then show ?case using sock_step_post step_post_ok by (cases a; cases b) blast
qed

subsection \<open>Properties\<close>

text \<open>C19: However socket objects are constructed from opened descriptors, moved, assigned, released,
  closed and destroyed, with system calls of other code in between: a descriptor has at most one
  owner, and every owned descriptor is open. An operation closes a descriptor only while it is
  open, and then it is \<open>close()\<close>, the destructor or an assignment from another object, on the
  object that owned it, and no object owns it afterwards; in particular self-assignment closes
  nothing. And an object loses a descriptor without another getting it only by closing it or by
  \<open>release()\<close>: no double close, no close of a descriptor in use, no leak.\<close>

theorem socket_closed_once:
  assumes "os_fresh os" "sock_reach os (m, h)" "sock_step os op (m, h) (m', h')"
  shows "sole_owners m' \<and> (\<forall>f. owned m' f \<longrightarrow> f \<in> open_fds h')
    \<and> (\<forall>f r. h' = (Sys_close f, r) # h \<and> op \<noteq> Other_call (Sys_close f) \<longrightarrow>
         f \<in> open_fds h \<and> may_close m op f \<and> \<not> owned m' f)
    \<and> (\<forall>f. owned m f \<and> \<not> owned m' f \<longrightarrow>
         h' = (Sys_close f, os h (Sys_close f)) # h \<or> (\<exists>i. op = Release i \<and> owner m f i))"
proof -
  have ok: "store_ok (m, h)" by (rule sock_reach_ok [OF assms(2,1)])
  note p = sock_step_post [OF assms(1,3) ok]
  have a: "sole_owners m'" "\<forall>f. owned m' f \<longrightarrow> f \<in> open_fds h'"
    using step_post_ok [OF p ok] by (simp_all add: store_ok_def)
  have b: "f \<in> open_fds h \<and> may_close m op f \<and> \<not> owned m' f"
    if "h' = (Sys_close f, r) # h" "op \<noteq> Other_call (Sys_close f)" for f r
  proof -
    from p that have "may_close m op f" "\<not> owned m' f" by (auto simp: step_post_def opens_fd_def)
    moreover from this(1) have "owned m f" by (auto simp: may_close_def owned_def)
    ultimately show ?thesis using ok by (simp add: store_ok_def)
  qed
  have c: "h' = (Sys_close f, os h (Sys_close f)) # h \<or> (\<exists>i. op = Release i \<and> owner m f i)"
    if "owned m f" "\<not> owned m' f" for f using p that by (auto simp: step_post_def)
  from a b c show ?thesis by blast
qed

definition quiet_os :: os where
  "quiet_os h c = sys_result 0"

text \<open>An operating system that hands out fresh descriptors and refuses to bind.\<close>

definition no_bind_os :: os where
  "no_bind_os h c = (case c of
      Sys_socket \<Rightarrow> sys_result (fresh_fd h)
    | Sys_accept f \<Rightarrow> sys_result (fresh_fd h)
    | Sys_epoll_create \<Rightarrow> sys_result (fresh_fd h)
    | Sys_kqueue \<Rightarrow> sys_result (fresh_fd h)
    | Sys_bind f p \<Rightarrow> sys_error (EOTHER 98)
    | _ \<Rightarrow> sys_result 0)"

lemma no_bind_os_fresh: "os_fresh no_bind_os"
  by (simp add: os_fresh_def no_bind_os_def fresh_fd_fresh)

theorem socket_closed_once_witness:
  "\<exists>m h m' h' f r. sock_reach no_bind_os (m, h) \<and> sock_step no_bind_os (Move_assign 0 1) (m, h) (m', h')
     \<and> h' = (Sys_close f, r) # h \<and> f \<in> open_fds h \<and> may_close m (Move_assign 0 1) f \<and> \<not> owned m' f"
proof -
  let ?os = no_bind_os
  let ?h1 = "[(Sys_socket, ?os [] Sys_socket)]"
  let ?h2 = "(Sys_socket, ?os ?h1 Sys_socket) # ?h1"
  let ?m1 = "[0 \<mapsto> Socket_of 1]" and ?m2 = "[0 \<mapsto> Socket_of 1, Suc 0 \<mapsto> Socket_of 2]"
  have f: "sr_ret (?os [] Sys_socket) = 1" "sr_ret (?os ?h1 Sys_socket) = 2"
    by (simp_all add: no_bind_os_def fresh_fd_def)
  have "sock_step ?os (Construct 0 Sys_socket) (Map.empty, []) (?m1, ?h1)"
    using sock_step.construct [of Map.empty 0 Sys_socket ?os "[]"] f(1) by (simp add: opens_fd_def invoke_def)
  moreover have "sock_step ?os (Construct 1 Sys_socket) (?m1, ?h1) (?m2, ?h2)"
    using sock_step.construct [of ?m1 "Suc 0" Sys_socket ?os ?h1] f(2) by (simp add: opens_fd_def invoke_def)
  ultimately have r: "sock_reach ?os (?m2, ?h2)" using sock_reach.start sock_reach.step by blast
  obtain s' t' h' where a: "Socket_assign ?os False (Socket_of 1) (Socket_of 2) ?h2 = ((s', t'), h')" by (metis prod.collapse)
  have st: "sock_step ?os (Move_assign 0 1) (?m2, ?h2) (?m2(1 \<mapsto> t', 0 \<mapsto> s'), h')"
    by (rule sock_step.move_assign) (use a in simp_all)
  have h': "h' = (Sys_close 1, ?os ?h2 (Sys_close 1)) # ?h2"
    using a by (auto simp: Socket_assign_def Socket_close_def Socket_of_def invoke_def)
  from socket_closed_once [OF no_bind_os_fresh r st] h'
  have "1 \<in> open_fds ?h2" "may_close ?m2 (Move_assign 0 1) 1" "\<not> owned (?m2(1 \<mapsto> t', 0 \<mapsto> s')) 1" by auto
  with r st h' show ?thesis by blast
qed

text \<open>No descriptor leaks: each function that makes a socket leaves exactly one more
  descriptor open, the one it returns, or returns an invalid socket and leaves the open
  descriptors as they were, on every error path.\<close>

theorem no_descriptor_leak:
  assumes "os_fresh os"
  shows "opens_only (fst (createListenSocket os port backlog h)) h (snd (createListenSocket os port backlog h))
    \<and> opens_only (fst (connectNonBlocking os host port h)) h (snd (connectNonBlocking os host port h))
    \<and> opens_only (ar_sock (fst (acceptNonBlocking os f h))) h (snd (acceptNonBlocking os f h))"
  using assms createListenSocket_opens connectNonBlocking_opens acceptNonBlocking_opens by blast

theorem no_descriptor_leak_witness:
  "fst (createListenSocket no_bind_os 8080 1024 []) = Socket_new
   \<and> open_fds (snd (createListenSocket no_bind_os 8080 1024 [])) = {}"
proof -
  have "fst (createListenSocket no_bind_os 8080 1024 []) = Socket_new" by code_simp
  with no_descriptor_leak [OF no_bind_os_fresh, of 8080 1024 "[]"] show ?thesis by simp
qed

end
