(* ===== verification/Connection.thy ===== *)
theory Connection
  imports Parser_Roundtrip Socket
begin

section \<open>Connections\<close>

text \<open>
  \<open>net::Connection\<close>: the socket, the request parser, the response bytes not yet written
  and whether the connection stays open after them. \<open>flushWrite\<close> loops around
  \<open>send\<close>; the loop ends because every successful call takes bytes off.
\<close>

record Connection =
  c_sock :: Socket
  c_parser :: HttpParser
  c_writeBuffer :: string
  c_writeOffset :: nat
  c_pendingKeepAlive :: bool

definition Connection_new :: "Socket \<Rightarrow> Connection" where
  "Connection_new s =
     \<lparr>c_sock = s, c_parser = HttpParser_new, c_writeBuffer = [], c_writeOffset = 0,
      c_pendingKeepAlive = True\<rparr>"

definition conn_fd :: "Connection \<Rightarrow> fd" where
  "conn_fd c = s_fd (c_sock c)"

definition queueWrite :: "string \<Rightarrow> Connection \<Rightarrow> Connection" where
  "queueWrite data c = c\<lparr>c_writeBuffer := c_writeBuffer c @ data\<rparr>"

definition hasPendingWrite :: "Connection \<Rightarrow> bool" where
  "hasPendingWrite c \<longleftrightarrow> c_writeOffset c < length (c_writeBuffer c)"

definition setPendingKeepAlive :: "bool \<Rightarrow> Connection \<Rightarrow> Connection" where
  "setPendingKeepAlive b c = c\<lparr>c_pendingKeepAlive := b\<rparr>"

text \<open>How the loop of \<open>flushWrite\<close> ends, with the offset it ends at.\<close>

datatype flush_end = Flushed | WouldBlock | Undeliverable

function flushLoop :: "os \<Rightarrow> fd \<Rightarrow> string \<Rightarrow> nat \<Rightarrow> history \<Rightarrow> flush_end \<times> nat \<times> history" where
  "flushLoop os f buf off h =
     (if off < length buf
      then (let (r, h1) = invoke os (Sys_send f (drop off buf)) h; n = sr_ret r
            in if 0 < n then flushLoop os f buf (off + nat n) h1
               else if n < 0 \<and> would_block (sr_errno r) then (WouldBlock, off, h1)
               else (Undeliverable, length buf, h1))
      else (Flushed, off, h))"
  by pat_completeness auto
termination by (relation "measure (\<lambda>(os, f, buf, off, h). length buf - off)") auto

declare flushLoop.simps [simp del]

definition flushWrite :: "os \<Rightarrow> Connection \<Rightarrow> history \<Rightarrow> bool \<times> Connection \<times> history" where
  "flushWrite os c h =
     (let (e, off, h1) = flushLoop os (conn_fd c) (c_writeBuffer c) (c_writeOffset c) h;
          c1 = c\<lparr>c_writeOffset := off\<rparr>
      in case e of
           WouldBlock \<Rightarrow> (False, c1, h1)
         | Undeliverable \<Rightarrow> (True, c1, h1)
         | Flushed \<Rightarrow>
             if c_writeOffset c1 = length (c_writeBuffer c1) \<and> c_writeBuffer c1 \<noteq> []
             then (True, c1\<lparr>c_writeBuffer := [], c_writeOffset := 0\<rparr>, h1)
             else (True, c1, h1))"

text \<open>The bytes a connection still owes its peer.\<close>

definition pending :: "Connection \<Rightarrow> string" where
  "pending c = drop (c_writeOffset c) (c_writeBuffer c)"

text \<open>The offset stays within the buffer.\<close>

definition conn_inv :: "Connection \<Rightarrow> bool" where
  "conn_inv c \<longleftrightarrow> c_writeOffset c \<le> length (c_writeBuffer c) \<and> parser_inv (c_parser c)"

subsection \<open>The write loop\<close>

lemma send_step_sent:
  "off < length buf \<Longrightarrow> n \<le> int (length (drop off buf)) \<Longrightarrow> 0 < n \<Longrightarrow>
     take (nat n) (drop off buf) @ drop (off + nat n) buf = drop off buf"
  by (metis add.commute append_take_drop_id drop_drop)

text \<open>How the last call of a history went: the socket buffer was full, or the peer is gone.\<close>

fun send_blocked :: "fd \<Rightarrow> history \<Rightarrow> bool" where
  "send_blocked f ((Sys_send g d, r) # h) \<longleftrightarrow> f = g \<and> sr_ret r < 0 \<and> would_block (sr_errno r)"
| "send_blocked f h \<longleftrightarrow> False"

fun send_failed :: "fd \<Rightarrow> history \<Rightarrow> bool" where
  "send_failed f ((Sys_send g d, r) # h) \<longleftrightarrow>
     f = g \<and> sr_ret r \<le> 0 \<and> \<not> (sr_ret r < 0 \<and> would_block (sr_errno r))"
| "send_failed f h \<longleftrightarrow> False"

lemma flushLoop_sent:
  assumes "os_send_bounded os" "off \<le> length buf"
  shows "case flushLoop os f buf off h of (e, off', h') \<Rightarrow>
     (e \<noteq> Undeliverable \<longrightarrow>
        off \<le> off' \<and> off' \<le> length buf \<and> sent_bytes f h' @ drop off' buf = sent_bytes f h @ drop off buf)
     \<and> (e = Flushed \<longrightarrow> off' = length buf)
     \<and> (e = WouldBlock \<longrightarrow> off' < length buf \<and> send_blocked f h')
     \<and> (e = Undeliverable \<longrightarrow> off' = length buf \<and> send_failed f h'
          \<and> (\<exists>k. sent_bytes f h' = sent_bytes f h @ take k (drop off buf)))"
  using assms
proof (induction os f buf off h rule: flushLoop.induct)
  case (1 os f buf off h)
  let ?r = "os h (Sys_send f (drop off buf))"
  let ?h1 = "(Sys_send f (drop off buf), ?r) # h"
  show ?case
  proof (cases "off < length buf \<and> 0 < sr_ret ?r")
    case False
    with "1.prems" show ?thesis
      by (auto simp: flushLoop.simps [of os f buf off h] Let_def case_prod_beta
          intro: exI [of _ 0])
  next
    case True
    have b: "sr_ret ?r \<le> int (length (drop off buf))"
      using "1.prems"(1) unfolding os_send_bounded_def by blast
    then have le: "off + nat (sr_ret ?r) \<le> length buf" using True by auto
    have s: "sent_bytes f ?h1 = sent_bytes f h @ take (nat (sr_ret ?r)) (drop off buf)" by simp
    have e: "flushLoop os f buf off h = flushLoop os f buf (off + nat (sr_ret ?r)) ?h1"
      using True by (simp add: flushLoop.simps [of os f buf off h] Let_def invoke_def)
    obtain en off' h' where fl: "flushLoop os f buf (off + nat (sr_ret ?r)) ?h1 = (en, off', h')"
      by (cases "flushLoop os f buf (off + nat (sr_ret ?r)) ?h1") auto
    have ih: "case (en, off', h') of (e, off', h') \<Rightarrow>
     (e \<noteq> Undeliverable \<longrightarrow>
        off + nat (sr_ret ?r) \<le> off' \<and> off' \<le> length buf
        \<and> sent_bytes f h' @ drop off' buf = sent_bytes f ?h1 @ drop (off + nat (sr_ret ?r)) buf)
     \<and> (e = Flushed \<longrightarrow> off' = length buf)
     \<and> (e = WouldBlock \<longrightarrow> off' < length buf \<and> send_blocked f h')
     \<and> (e = Undeliverable \<longrightarrow> off' = length buf \<and> send_failed f h'
          \<and> (\<exists>k. sent_bytes f h' = sent_bytes f ?h1 @ take k (drop (off + nat (sr_ret ?r)) buf)))"
      using "1.IH" [of "(?r, ?h1)" ?r ?h1 "sr_ret ?r"] True "1.prems"(1) le fl
      by (simp add: invoke_def)
    have cat: "sent_bytes f ?h1 @ drop (off + nat (sr_ret ?r)) buf = sent_bytes f h @ drop off buf"
      using True b by (simp add: send_step_sent)
    have tk: "take (nat (sr_ret ?r)) (drop off buf) @ take k (drop (off + nat (sr_ret ?r)) buf)
        = take (nat (sr_ret ?r) + k) (drop off buf)" for k
      by (metis add.commute drop_drop take_add)
    show ?thesis
      unfolding e fl prod.case using ih cat tk s
      by (auto simp del: sent_bytes.simps)
  qed
qed

lemma flushLoop_only_sends:
  "flushLoop os f buf off h = (e, off', h') \<Longrightarrow>
     \<exists>k. h' = k @ h \<and> (\<forall>x \<in> set k. \<exists>d. fst x = Sys_send f d)"
proof (induction os f buf off h rule: flushLoop.induct)
  case (1 os f buf off h)
  let ?r = "os h (Sys_send f (drop off buf))"
  let ?h1 = "(Sys_send f (drop off buf), ?r) # h"
  show ?case
  proof (cases "off < length buf \<and> 0 < sr_ret ?r")
    case False
    with "1.prems" show ?thesis
      by (auto simp: flushLoop.simps [of os f buf off h] Let_def case_prod_beta split: if_splits
          intro: exI [of _ "[(Sys_send f (drop off buf), ?r)]"])
  next
    case True
    then have "flushLoop os f buf (off + nat (sr_ret ?r)) ?h1 = (e, off', h')"
      using "1.prems" by (simp add: flushLoop.simps [of os f buf off h] Let_def invoke_def)
    with True "1.IH" [of "(?r, ?h1)" ?r ?h1 "sr_ret ?r"]
    obtain k where k: "h' = k @ ?h1" "\<forall>x \<in> set k. \<exists>d. fst x = Sys_send f d"
      by (auto simp: invoke_def)
    then have "h' = (k @ [(Sys_send f (drop off buf), ?r)]) @ h" by simp
    moreover have "\<forall>x \<in> set (k @ [(Sys_send f (drop off buf), ?r)]). \<exists>d. fst x = Sys_send f d"
      using k(2) by auto
    ultimately show ?thesis by blast
  qed
qed

text \<open>A run of calls that only sends on one descriptor.\<close>

definition only_sends :: "fd \<Rightarrow> history \<Rightarrow> history \<Rightarrow> bool" where
  "only_sends f h h' \<longleftrightarrow> (\<exists>k. h' = k @ h \<and> (\<forall>x \<in> set k. \<exists>d. fst x = Sys_send f d))"

lemma only_sends_open_fds: "only_sends f h h' \<Longrightarrow> open_fds h' = open_fds h"
proof -
  have "\<forall>x \<in> set k. \<exists>d. fst x = Sys_send f d \<Longrightarrow> open_fds (k @ h) = open_fds h" for k
  proof (induction k)
    case (Cons e k)
    then obtain d r where "e = (Sys_send f d, r)" by (cases e) auto
    with Cons show ?case by simp
  qed simp
  then show "only_sends f h h' \<Longrightarrow> open_fds h' = open_fds h" by (auto simp: only_sends_def)
qed

lemma only_sends_other:
  assumes "only_sends f h h'" "g \<noteq> f" shows "sent_bytes g h' = sent_bytes g h"
proof -
  have "\<forall>x \<in> set k. \<exists>d. fst x = Sys_send f d \<Longrightarrow> sent_bytes g (k @ h) = sent_bytes g h" for k
  proof (induction k)
    case (Cons e k)
    then obtain d r where "e = (Sys_send f d, r)" by (cases e) auto
    with Cons assms(2) show ?case by simp
  qed simp
  with assms(1) show ?thesis by (auto simp: only_sends_def)
qed

subsection \<open>What \<open>flushWrite\<close> does\<close>

text \<open>The outcome of a flush: the bytes already sent and those still owed are together what they
  were, and the result says whether some are still owed; or the peer is gone, the rest is
  dropped and what was sent is a prefix of it.\<close>

definition flush_post :: "Connection \<Rightarrow> history \<Rightarrow> bool \<times> Connection \<times> history \<Rightarrow> bool" where
  "flush_post c h res \<longleftrightarrow> (case res of (ok, c', h') \<Rightarrow>
     (ok \<longleftrightarrow> pending c' = []) \<and> (ok \<longleftrightarrow> \<not> hasPendingWrite c')
     \<and> (\<not> ok \<longrightarrow> send_blocked (conn_fd c) h')
     \<and> (sent_bytes (conn_fd c) h' @ pending c' = sent_bytes (conn_fd c) h @ pending c
        \<or> ok \<and> send_failed (conn_fd c) h' \<and> (\<exists>k. sent_bytes (conn_fd c) h' = sent_bytes (conn_fd c) h @ take k (pending c))))"

text \<open>What a flush leaves alone.\<close>

lemma flushWrite_keeps [keeps]:
  assumes "flushWrite os c h = (ok, c', h')"
  shows "c_sock c' = c_sock c" "c_parser c' = c_parser c" "c_pendingKeepAlive c' = c_pendingKeepAlive c"
    "only_sends (conn_fd c) h h'"
proof -
  obtain e off h1 where l: "flushLoop os (conn_fd c) (c_writeBuffer c) (c_writeOffset c) h = (e, off, h1)"
    by (cases "flushLoop os (conn_fd c) (c_writeBuffer c) (c_writeOffset c) h") auto
  with assms have "c_sock c' = c_sock c \<and> c_parser c' = c_parser c
      \<and> c_pendingKeepAlive c' = c_pendingKeepAlive c \<and> h' = h1"
    by (auto simp: flushWrite_def Let_def split: flush_end.splits if_splits)
  with flushLoop_only_sends [OF l] show "c_sock c' = c_sock c" "c_parser c' = c_parser c"
    "c_pendingKeepAlive c' = c_pendingKeepAlive c" "only_sends (conn_fd c) h h'"
    by (auto simp: only_sends_def)
qed

lemma flushWrite_outcome:
  assumes "os_send_bounded os" "conn_inv c"
  shows "flush_post c h (flushWrite os c h) \<and> conn_inv (fst (snd (flushWrite os c h)))"
proof -
  obtain e off h1 where l: "flushLoop os (conn_fd c) (c_writeBuffer c) (c_writeOffset c) h = (e, off, h1)"
    by (cases "flushLoop os (conn_fd c) (c_writeBuffer c) (c_writeOffset c) h") auto
  from assms(2) have "c_writeOffset c \<le> length (c_writeBuffer c)" by (simp add: conn_inv_def)
  from flushLoop_sent [OF assms(1) this, of "conn_fd c" h] l assms(2) show ?thesis
    by (cases e)
       (auto simp: flushWrite_def flush_post_def pending_def hasPendingWrite_def conn_inv_def Let_def)
qed


lemma pending_queueWrite: "conn_inv c \<Longrightarrow> pending (queueWrite d c) = pending c @ d"
  by (simp add: pending_def queueWrite_def conn_inv_def)

lemma conn_inv_queueWrite [keeps]: "conn_inv c \<Longrightarrow> conn_inv (queueWrite d c)"
  by (simp add: queueWrite_def conn_inv_def)

lemma conn_inv_setPendingKeepAlive [keeps]: "conn_inv c \<Longrightarrow> conn_inv (setPendingKeepAlive b c)"
  by (simp add: setPendingKeepAlive_def conn_inv_def)

lemma Connection_new_simps [simp]:
  "c_sock (Connection_new s) = s" "pending (Connection_new s) = []"
  by (simp_all add: Connection_new_def pending_def)

subsection \<open>Properties\<close>

text \<open>C18: Whatever the kernel accepts per call, \<open>flushWrite\<close> neither loses, duplicates nor
  reorders bytes: what was sent before and after it, followed by what is still owed, is what was
  owed. It returns false exactly when bytes are still owed, and then only because the socket
  would block; it gives up the rest (and returns true) only after a send that failed, having
  sent a prefix. The write offset stays inside the buffer and no other descriptor is touched.\<close>

theorem flushWrite_delivers:
  assumes "os_send_bounded os" "conn_inv c" "flushWrite os c h = (ok, c', h')"
  shows "conn_inv c' \<and> (ok \<longleftrightarrow> \<not> hasPendingWrite c') \<and> (\<not> ok \<longrightarrow> send_blocked (conn_fd c) h')
    \<and> (sent_bytes (conn_fd c) h' @ pending c' = sent_bytes (conn_fd c) h @ pending c
       \<or> ok \<and> send_failed (conn_fd c) h'
         \<and> (\<exists>k. sent_bytes (conn_fd c) h' = sent_bytes (conn_fd c) h @ take k (pending c)))
    \<and> only_sends (conn_fd c) h h'"
  using flushWrite_outcome [OF assms(1,2), of h] flushWrite_keeps(4) [OF assms(3)]
  unfolding assms(3) flush_post_def by auto

text \<open>A socket that takes three bytes per call and is full after two calls.\<close>

definition slow_os :: os where
  "slow_os h c = (case c of
      Sys_send f d \<Rightarrow> (if length h < 2 then sys_result (int (min 3 (length d))) else sys_error EAGAIN)
    | _ \<Rightarrow> sys_result 0)"

lemma slow_os_send_bounded: "os_send_bounded slow_os"
  by (simp add: os_send_bounded_def slow_os_def)

definition slow_conn :: Connection where
  "slow_conn = queueWrite ''hello, world'' (Connection_new (Socket_of 4))"

theorem flushWrite_delivers_witness:
  "sent_bytes 4 (snd (snd (flushWrite slow_os slow_conn []))) = ''hello,''
   \<and> pending (fst (snd (flushWrite slow_os slow_conn []))) = '' world''"
proof -
  have i: "conn_inv slow_conn"
    by (simp add: slow_conn_def conn_inv_def queueWrite_def Connection_new_def parser_inv_new)
  have f: "conn_fd slow_conn = 4" and p: "pending slow_conn = ''hello, world''" by code_simp+
  obtain ok c h where e: "flushWrite slow_os slow_conn [] = (ok, c, h)"
    by (cases "flushWrite slow_os slow_conn []") auto
  have "pending (fst (snd (flushWrite slow_os slow_conn []))) = '' world''"
    and "\<not> fst (flushWrite slow_os slow_conn [])" by code_simp+
  with e have c: "pending c = '' world''" "\<not> ok" by simp_all
  from flushWrite_delivers [OF slow_os_send_bounded i e] c f p
  have "sent_bytes 4 h @ '' world'' = ''hello,'' @ '' world''" by simp
  then have "sent_bytes 4 h = ''hello,''" by (metis append_same_eq)
  with e c show ?thesis by simp
qed

end
