(* ===== verification/Event_Loop.thy ===== *)
theory Event_Loop
  imports Posix
begin

unbundle bit_operations_syntax

section \<open>The event loop interface\<close>

text \<open>
  \<open>net::EventLoop\<close> of \<open>include/net/event_loop.h\<close>: interest masks, events, and the contract
  of the virtual interface as a locale. A backend is its four operations on its own state
  \<open>'s\<close> and the history of system calls; \<open>interest\<close> reads the mask that the kernel watches
  a descriptor with, \<open>known\<close> whether the kernel has an entry for it. The locale is
  interpreted by both backends (\<open>Epoll_Reactor\<close>, \<open>Kqueue_Reactor\<close>) and used by the
  reactor of the server and the load balancer.
\<close>

definition Readable :: u8 where "Readable = 1"
definition Writable :: u8 where "Writable = 2"

record IoEvent =
  ev_fd :: fd
  ev_mask :: u8
  ev_error :: bool

definition IoEvent_new :: IoEvent where
  "IoEvent_new = \<lparr>ev_fd = - 1, ev_mask = 0, ev_error = False\<rparr>"

text \<open>The bits of a mask that mean something.\<close>

definition mask_bits :: "u8 \<Rightarrow> u8" where
  "mask_bits m = m AND (Readable OR Writable)"

lemma bit_3_iff: "bit (3 :: int) n \<longleftrightarrow> n = 0 \<or> n = 1"
  by (cases n; cases "n - 1") (simp_all add: bit_numeral_rec bit_1_iff)

lemma mask_bits_eq: "mask_bits m = (if bit m 0 then 1 else 0) OR (if bit m 1 then 2 else 0)"
  by (rule bit_eqI)
     (auto simp: mask_bits_def Readable_def Writable_def bit_and_iff bit_or_iff bit_1_iff bit_2_iff bit_3_iff
      intro!: gr0I)

lemma and_Readable: "m AND Readable \<noteq> 0 \<longleftrightarrow> bit m 0"
  by (simp add: Readable_def and_one_eq odd_iff_mod_2_eq_one [symmetric] bit_0)

lemma and_Writable: "m AND Writable \<noteq> 0 \<longleftrightarrow> bit m 1"
  unfolding Writable_def
  by (rule iffI) (auto simp: bit_eq_iff [of "m AND 2" 0] bit_and_iff bit_2_iff)

lemma mask_bits_Readable [simp]: "mask_bits Readable = Readable"
  and mask_bits_Writable [simp]: "mask_bits Writable = Writable"
  and mask_bits_0 [simp]: "mask_bits 0 = 0"
  by (simp_all add: mask_bits_def Readable_def Writable_def)

lemma Readable_nonzero [simp]: "Readable \<noteq> 0" "Writable \<noteq> 0"
  by (simp_all add: Readable_def Writable_def)

subsection \<open>Calls that leave every registration alone\<close>

fun neutral :: "syscall \<Rightarrow> bool" where
  "neutral (Sys_close f) = False"
| "neutral (Sys_epoll_ctl e op f ev) = False"
| "neutral (Sys_kevent_change k cs) = False"
| "neutral _ = True"

subsection \<open>Sequences of operations\<close>

datatype loop_op = Add fd u8 | Modify fd u8 | Remove fd

fun op_fd :: "loop_op \<Rightarrow> fd" where
  "op_fd (Add f m) = f"
| "op_fd (Modify f m) = f"
| "op_fd (Remove f) = f"

fun loop_op_run ::
    "(fd \<Rightarrow> u8 \<Rightarrow> 's \<Rightarrow> history \<Rightarrow> bool \<times> 's \<times> history)
     \<Rightarrow> (fd \<Rightarrow> u8 \<Rightarrow> 's \<Rightarrow> history \<Rightarrow> bool \<times> 's \<times> history)
     \<Rightarrow> (fd \<Rightarrow> 's \<Rightarrow> history \<Rightarrow> bool \<times> 's \<times> history)
     \<Rightarrow> loop_op \<Rightarrow> 's \<times> history \<Rightarrow> 's \<times> history" where
  "loop_op_run add modify remove (Add f m) (s, h) = snd (add f m s h)"
| "loop_op_run add modify remove (Modify f m) (s, h) = snd (modify f m s h)"
| "loop_op_run add modify remove (Remove f) (s, h) = snd (remove f s h)"

subsection \<open>The contract\<close>

locale event_loop =
  fixes add modify :: "fd \<Rightarrow> u8 \<Rightarrow> 's \<Rightarrow> history \<Rightarrow> bool \<times> 's \<times> history"
    and remove :: "fd \<Rightarrow> 's \<Rightarrow> history \<Rightarrow> bool \<times> 's \<times> history"
    and wait :: "int \<Rightarrow> 's \<Rightarrow> history \<Rightarrow> int \<times> IoEvent list \<times> 's \<times> history"
    and interest :: "'s \<Rightarrow> history \<Rightarrow> fd \<Rightarrow> u8"
    and known :: "'s \<Rightarrow> history \<Rightarrow> fd \<Rightarrow> bool"
    and inv :: "'s \<Rightarrow> history \<Rightarrow> bool"
    and sound :: bool
  assumes add_inv: "sound \<Longrightarrow> inv s h \<Longrightarrow> add f m s h = (b, s', h') \<Longrightarrow> inv s' h'"
    and add_frame: "sound \<Longrightarrow> inv s h \<Longrightarrow> add f m s h = (b, s', h') \<Longrightarrow> g \<noteq> f \<Longrightarrow>
          interest s' h' g = interest s h g \<and> known s' h' g = known s h g"
    and add_sets: "sound \<Longrightarrow> inv s h \<Longrightarrow> add f m s h = (True, s', h') \<Longrightarrow>
          interest s' h' f = mask_bits m \<and> known s' h' f"
    and modify_inv: "sound \<Longrightarrow> inv s h \<Longrightarrow> modify f m s h = (b, s', h') \<Longrightarrow> inv s' h'"
    and modify_frame: "sound \<Longrightarrow> inv s h \<Longrightarrow> modify f m s h = (b, s', h') \<Longrightarrow> g \<noteq> f \<Longrightarrow>
          interest s' h' g = interest s h g \<and> known s' h' g = known s h g"
    and modify_sets: "sound \<Longrightarrow> inv s h \<Longrightarrow> modify f m s h = (b, s', h') \<Longrightarrow> known s h f \<Longrightarrow>
          b \<and> interest s' h' f = mask_bits m \<and> known s' h' f"
    and remove_inv: "sound \<Longrightarrow> inv s h \<Longrightarrow> remove f s h = (b, s', h') \<Longrightarrow> inv s' h'"
    and remove_frame: "sound \<Longrightarrow> inv s h \<Longrightarrow> remove f s h = (b, s', h') \<Longrightarrow> g \<noteq> f \<Longrightarrow>
          interest s' h' g = interest s h g \<and> known s' h' g = known s h g"
    and remove_clears: "sound \<Longrightarrow> inv s h \<Longrightarrow> remove f s h = (b, s', h') \<Longrightarrow> known s h f \<Longrightarrow>
          interest s' h' f = 0"
    and wait_keeps: "wait t s h = (n, evs, s', h') \<Longrightarrow> s' = s \<and> (\<exists>c r. h' = (c, r) # h \<and> neutral c)"
    and wait_events: "sound \<Longrightarrow> inv s h \<Longrightarrow> wait t s h = (n, evs, s', h') \<Longrightarrow>
          distinct (map ev_fd evs) \<and> n = int (length evs)
          \<and> (\<forall>ev \<in> set evs. known s h (ev_fd ev) \<and> ev_mask ev AND NOT (interest s h (ev_fd ev)) = 0)"
    and neutral_inv: "neutral c \<Longrightarrow> inv s ((c, r) # h) \<longleftrightarrow> inv s h"
    and neutral_frame: "neutral c \<Longrightarrow>
          interest s ((c, r) # h) g = interest s h g \<and> known s ((c, r) # h) g = known s h g"
    and close_inv: "inv s h \<Longrightarrow> interest s h f = 0 \<Longrightarrow> inv s ((Sys_close f, r) # h)"
    and close_frame: "inv s h \<Longrightarrow> g \<noteq> f \<Longrightarrow>
          interest s ((Sys_close f, r) # h) g = interest s h g
          \<and> known s ((Sys_close f, r) # h) g = known s h g"
    and close_clears: "interest s h f = 0 \<Longrightarrow> interest s ((Sys_close f, r) # h) f = 0"
    and add_open: "add f m s h = (b, s', h') \<Longrightarrow> open_fds h' = open_fds h"
    and modify_open: "modify f m s h = (b, s', h') \<Longrightarrow> open_fds h' = open_fds h"
    and remove_open: "remove f s h = (b, s', h') \<Longrightarrow> open_fds h' = open_fds h"
begin

lemma wait_inv: "wait t s h = (n, evs, s', h') \<Longrightarrow> inv s h \<Longrightarrow> inv s' h'"
  using wait_keeps neutral_inv by blast

lemma wait_frame:
  assumes "wait t s h = (n, evs, s', h')"
  shows "interest s' h' g = interest s h g \<and> known s' h' g = known s h g"
proof -
  from wait_keeps [OF assms] obtain c r where "s' = s" "h' = (c, r) # h" "neutral c" by blast
  with neutral_frame show ?thesis by metis
qed

lemma run_op_frame:
  assumes "sound" "inv s h" "loop_op_run add modify remove x (s, h) = (s', h')"
  shows "inv s' h' \<and> (\<forall>g. g \<noteq> op_fd x \<longrightarrow> interest s' h' g = interest s h g \<and> known s' h' g = known s h g)"
proof (cases x)
  case (Add f m)
  with assms(3) obtain b where "add f m s h = (b, s', h')" by (metis loop_op_run.simps(1) prod.collapse)
  with Add add_inv add_frame assms(1,2) show ?thesis by simp
next
  case (Modify f m)
  with assms(3) obtain b where "modify f m s h = (b, s', h')" by (metis loop_op_run.simps(2) prod.collapse)
  with Modify modify_inv modify_frame assms(1,2) show ?thesis by simp
next
  case (Remove f)
  with assms(3) obtain b where "remove f s h = (b, s', h')" by (metis loop_op_run.simps(3) prod.collapse)
  with Remove remove_inv remove_frame assms(1,2) show ?thesis by simp
qed

lemma run_ops_frame:
  assumes "sound" "inv s h" "fold (loop_op_run add modify remove) xs (s, h) = (s', h')"
    and "f \<notin> op_fd ` set xs"
  shows "inv s' h' \<and> interest s' h' f = interest s h f \<and> known s' h' f = known s h f"
  using assms(2-4)
proof (induction xs arbitrary: s h)
  case Nil
  then show ?case by simp
next
  case (Cons x xs)
  obtain s1 h1 where x: "loop_op_run add modify remove x (s, h) = (s1, h1)" by fastforce
  from run_op_frame [OF assms(1) Cons.prems(1) x] Cons.prems x Cons.IH [of s1 h1] show ?case
    by auto
qed

text \<open>A descriptor that was switched off stays off until an operation names it.\<close>

lemma off_until_named:
  assumes "sound" "inv s h" "known s h f" "modify f 0 s h = (b, s1, h1)"
    and "fold (loop_op_run add modify remove) xs (s1, h1) = (s2, h2)" "f \<notin> op_fd ` set xs"
  shows "inv s2 h2 \<and> interest s2 h2 f = 0 \<and> known s2 h2 f"
  using modify_sets [OF assms(1,2,4,3)] run_ops_frame [OF assms(1) modify_inv [OF assms(1,2,4)] assms(5,6)]
  by simp

end

text \<open>
  A loop that reports a descriptor only while some interest in it is registered. A mask of 0
  then silences the descriptor completely.
\<close>

locale gated_event_loop = event_loop +
  assumes wait_gated: "sound \<Longrightarrow> inv s h \<Longrightarrow> wait t s h = (n, evs, s', h') \<Longrightarrow> ev \<in> set evs \<Longrightarrow>
          interest s h (ev_fd ev) \<noteq> 0"
begin

lemma off_no_event:
  "sound \<Longrightarrow> inv s h \<Longrightarrow> interest s h f = 0 \<Longrightarrow> wait t s h = (n, evs, s', h') \<Longrightarrow> f \<notin> ev_fd ` set evs"
  using wait_gated by blast

lemma silenced:
  assumes "sound" "inv s h" "known s h f" "modify f 0 s h = (b, s1, h1)"
    and "fold (loop_op_run add modify remove) xs (s1, h1) = (s2, h2)" "f \<notin> op_fd ` set xs"
    and "wait t s2 h2 = (n, evs, s3, h3)"
  shows "f \<notin> ev_fd ` set evs"
  using off_until_named [OF assms(1-6)] off_no_event [OF assms(1) _ _ assms(7)] by blast

end

end
