(* ===== verification/Reactor.thy ===== *)
theory Reactor
  imports Connection Event_Loop
begin

section \<open>The reactor shared by the server and the load balancer\<close>

text \<open>
  \<open>HttpServer\<close> and \<open>LoadBalancer\<close> have the same reactor: a listening socket, an event loop, a
  thread pool whose tasks are descriptors to serve, the table of connections, and the deque
  of re-arm requests that workers post and the reactor thread applies. The state is a record
  that both classes extend; the operations here are those of
  \<open>src/server/http_server.cpp\<close>, which \<open>src/loadbalancer/load_balancer.cpp\<close> repeats line by
  line. The virtual interface \<open>net::EventLoop\<close> is a record of the four operations.
\<close>

record 's EventLoop =
  el_add :: "fd \<Rightarrow> u8 \<Rightarrow> 's \<Rightarrow> history \<Rightarrow> bool \<times> 's \<times> history"
  el_modify :: "fd \<Rightarrow> u8 \<Rightarrow> 's \<Rightarrow> history \<Rightarrow> bool \<times> 's \<times> history"
  el_remove :: "fd \<Rightarrow> 's \<Rightarrow> history \<Rightarrow> bool \<times> 's \<times> history"
  el_wait :: "int \<Rightarrow> 's \<Rightarrow> history \<Rightarrow> int \<times> IoEvent list \<times> 's \<times> history"

datatype RearmAction = WaitReadable | WaitWritable | Close

record 's Reactor =
  rx_listenSock :: Socket
  rx_eventLoop :: 's
  rx_queue :: "fd list"
  rx_connections :: "fd \<rightharpoonup> Connection"
  rx_pendingRearms :: "(fd \<times> RearmAction) list"
  rx_running :: bool

subsection \<open>Operations\<close>

definition postRearm :: "fd \<Rightarrow> RearmAction \<Rightarrow> ('s, 'm) Reactor_scheme \<Rightarrow> ('s, 'm) Reactor_scheme" where
  "postRearm f action s = s\<lparr>rx_pendingRearms := rx_pendingRearms s @ [(f, action)]\<rparr>"

definition enqueue_task :: "fd \<Rightarrow> ('s, 'm) Reactor_scheme \<Rightarrow> ('s, 'm) Reactor_scheme" where
  "enqueue_task f s = s\<lparr>rx_queue := rx_queue s @ [f]\<rparr>"

text \<open>\<open>connections_.erase(fd)\<close>: the connection is destroyed, which closes its socket.\<close>

definition erase_connection ::
    "os \<Rightarrow> fd \<Rightarrow> ('s, 'm) Reactor_scheme \<Rightarrow> history \<Rightarrow> ('s, 'm) Reactor_scheme \<times> history" where
  "erase_connection os f s h =
     (s\<lparr>rx_connections := (rx_connections s)(f := None)\<rparr>,
      case rx_connections s f of None \<Rightarrow> h | Some c \<Rightarrow> Socket_destroy os (c_sock c) h)"

text \<open>\<open>connections_[fd] = std::move(conn)\<close>: a connection that was there is destroyed.\<close>

definition store_connection ::
    "os \<Rightarrow> fd \<Rightarrow> Connection \<Rightarrow> ('s, 'm) Reactor_scheme \<Rightarrow> history \<Rightarrow> ('s, 'm) Reactor_scheme \<times> history" where
  "store_connection os f conn s h =
     (s\<lparr>rx_connections := (rx_connections s)(f \<mapsto> conn)\<rparr>,
      case rx_connections s f of None \<Rightarrow> h | Some c \<Rightarrow> Socket_destroy os (c_sock c) h)"

definition loop_modify ::
    "'s EventLoop \<Rightarrow> fd \<Rightarrow> u8 \<Rightarrow> ('s, 'm) Reactor_scheme \<Rightarrow> history \<Rightarrow> ('s, 'm) Reactor_scheme \<times> history" where
  "loop_modify el f m s h =
     (let (_, l, h1) = el_modify el f m (rx_eventLoop s) h in (s\<lparr>rx_eventLoop := l\<rparr>, h1))"

definition loop_add ::
    "'s EventLoop \<Rightarrow> fd \<Rightarrow> u8 \<Rightarrow> ('s, 'm) Reactor_scheme \<Rightarrow> history \<Rightarrow> ('s, 'm) Reactor_scheme \<times> history" where
  "loop_add el f m s h =
     (let (_, l, h1) = el_add el f m (rx_eventLoop s) h in (s\<lparr>rx_eventLoop := l\<rparr>, h1))"

definition loop_remove ::
    "'s EventLoop \<Rightarrow> fd \<Rightarrow> ('s, 'm) Reactor_scheme \<Rightarrow> history \<Rightarrow> ('s, 'm) Reactor_scheme \<times> history" where
  "loop_remove el f s h =
     (let (_, l, h1) = el_remove el f (rx_eventLoop s) h in (s\<lparr>rx_eventLoop := l\<rparr>, h1))"

definition applyRearm ::
    "os \<Rightarrow> 's EventLoop \<Rightarrow> fd \<times> RearmAction \<Rightarrow> ('s, 'm) Reactor_scheme \<times> history
     \<Rightarrow> ('s, 'm) Reactor_scheme \<times> history" where
  "applyRearm os el r sh = (case r of (f, action) \<Rightarrow> case sh of (s, h) \<Rightarrow>
     (if rx_connections s f = None then (s, h)
      else (case action of
              WaitReadable \<Rightarrow> loop_modify el f Readable s h
            | WaitWritable \<Rightarrow> loop_modify el f Writable s h
            | Close \<Rightarrow> (let (s1, h1) = loop_remove el f s h in erase_connection os f s1 h1))))"

definition applyPendingRearms ::
    "os \<Rightarrow> 's EventLoop \<Rightarrow> ('s, 'm) Reactor_scheme \<Rightarrow> history \<Rightarrow> ('s, 'm) Reactor_scheme \<times> history" where
  "applyPendingRearms os el s h =
     fold (applyRearm os el) (rx_pendingRearms s) (s\<lparr>rx_pendingRearms := []\<rparr>, h)"

text \<open>One turn of the loop in \<open>handleAccept\<close>, and whether the loop goes on.\<close>

definition acceptOne ::
    "os \<Rightarrow> 's EventLoop \<Rightarrow> ('s, 'm) Reactor_scheme \<Rightarrow> history \<Rightarrow> bool \<times> ('s, 'm) Reactor_scheme \<times> history" where
  "acceptOne os el s h =
     (let (res, h1) = acceptNonBlocking os (s_fd (rx_listenSock s)) h
      in if ar_wouldBlock res then (False, s, h1)
         else if \<not> Socket_valid (ar_sock res) then (False, s, h1)
         else (let f = s_fd (ar_sock res);
                   (_, h2) = setTcpNoDelay os f h1;
                   conn = Connection_new (ar_sock res);
                   (s1, h3) = store_connection os f conn s h2;
                   (s2, h4) = loop_add el f Readable s1 h3
               in (True, s2, h4)))"

partial_function (option) handleAccept ::
    "os \<Rightarrow> 's EventLoop \<Rightarrow> ('s, 'm) Reactor_scheme \<Rightarrow> history \<Rightarrow> (('s, 'm) Reactor_scheme \<times> history) option" where
  "handleAccept os el s h =
     (case acceptOne os el s h of (again, s1, h1) \<Rightarrow>
        if again then handleAccept os el s1 h1 else Some (s1, h1))"

declare handleAccept.simps [code]

text \<open>The body of the loop over the events of one wait.\<close>

definition handleEvent ::
    "os \<Rightarrow> 's EventLoop \<Rightarrow> IoEvent \<Rightarrow> ('s, 'm) Reactor_scheme \<Rightarrow> history
     \<Rightarrow> (('s, 'm) Reactor_scheme \<times> history) option" where
  "handleEvent os el ev s h =
     (if ev_fd ev = s_fd (rx_listenSock s) then handleAccept os el s h
      else if rx_connections s (ev_fd ev) = None then Some (s, h)
      else if ev_error ev
      then Some (let (s1, h1) = loop_remove el (ev_fd ev) s h in erase_connection os (ev_fd ev) s1 h1)
      else Some (let (s1, h1) = loop_modify el (ev_fd ev) 0 s h in (enqueue_task (ev_fd ev) s1, h1)))"

fun handleEvents ::
    "os \<Rightarrow> 's EventLoop \<Rightarrow> IoEvent list \<Rightarrow> ('s, 'm) Reactor_scheme \<Rightarrow> history
     \<Rightarrow> (('s, 'm) Reactor_scheme \<times> history) option" where
  "handleEvents os el [] s h = Some (s, h)"
| "handleEvents os el (ev # evs) s h =
     (case handleEvent os el ev s h of None \<Rightarrow> None | Some (s1, h1) \<Rightarrow> handleEvents os el evs s1 h1)"

text \<open>The re-arming and the wait at the top of one iteration of \<open>reactorLoop\<close>: the events of the
  wait, then the whole iteration.\<close>

definition reactorPoll ::
    "os \<Rightarrow> 's EventLoop \<Rightarrow> ('s, 'm) Reactor_scheme \<Rightarrow> history
     \<Rightarrow> IoEvent list \<times> ('s, 'm) Reactor_scheme \<times> history" where
  "reactorPoll os el s h =
     (let (s1, h1) = applyPendingRearms os el s h;
          (n, evs, l, h2) = el_wait el 100 (rx_eventLoop s1) h1;
          s2 = s1\<lparr>rx_eventLoop := l\<rparr>
      in if n \<le> 0 then ([], s2, h2) else (evs, s2, h2))"

definition reactorIteration ::
    "os \<Rightarrow> 's EventLoop \<Rightarrow> ('s, 'm) Reactor_scheme \<Rightarrow> history \<Rightarrow> (('s, 'm) Reactor_scheme \<times> history) option" where
  "reactorIteration os el s h =
     (let (evs, s1, h1) = reactorPoll os el s h in handleEvents os el evs s1 h1)"

text \<open>
  \<open>run\<close> up to the loop: \<open>create\<close> stands for \<open>EventLoop::create\<close>, and \<open>also_start\<close> for what the
  load balancer starts in between (\<open>None\<close>: the program is terminated). \<open>Inl\<close>: the loop is not
  reached.
\<close>

datatype run_end = BindFailed | Terminated

definition reactorStart ::
    "os \<Rightarrow> 's EventLoop \<Rightarrow> (os \<Rightarrow> history \<Rightarrow> 's \<times> history)
     \<Rightarrow> (('s, 'm) Reactor_scheme \<Rightarrow> ('s, 'm) Reactor_scheme option) \<Rightarrow> u16 \<Rightarrow> ('s, 'm) Reactor_scheme \<Rightarrow> history
     \<Rightarrow> (run_end \<times> ('s, 'm) Reactor_scheme \<times> history) + (('s, 'm) Reactor_scheme \<times> history)" where
  "reactorStart os el create also_start port s h =
     (let (sock, h1) = createListenSocket os port 1024 h;
          ((ls, _), h2) = Socket_assign os False (rx_listenSock s) sock h1;
          s1 = s\<lparr>rx_listenSock := ls\<rparr>
      in if \<not> Socket_valid ls then Inl (BindFailed, s1, h2)
         else (let (l, h3) = create os h2;
                   s2 = s1\<lparr>rx_eventLoop := l\<rparr>;
                   (s3, h4) = loop_add el (s_fd ls) Readable s2 h3
               in case also_start s3 of
                    None \<Rightarrow> Inl (Terminated, s3, h4)
                  | Some s4 \<Rightarrow> Inr (s4\<lparr>rx_running := True\<rparr>, h4)))"

definition reactor_stop :: "('s, 'm) Reactor_scheme \<Rightarrow> ('s, 'm) Reactor_scheme" where
  "reactor_stop s = s\<lparr>rx_running := False\<rparr>"

end
