(* ===== verification/Router.thy ===== *)
theory Router
  imports Http_Message
begin

section \<open>The router\<close>

text \<open>
  \<open>server::Router\<close>: two tables from target to handler. A handler is a function from the
  request to a response.
\<close>

type_synonym Handler = "HttpRequest \<Rightarrow> HttpResponse"

record Router =
  getRoutes :: "string \<rightharpoonup> Handler"
  postRoutes :: "string \<rightharpoonup> Handler"

definition Router_new :: Router where
  "Router_new = \<lparr>getRoutes = Map.empty, postRoutes = Map.empty\<rparr>"

definition router_get :: "string \<Rightarrow> Handler \<Rightarrow> Router \<Rightarrow> Router" where
  "router_get path h r = r\<lparr>getRoutes := (getRoutes r)(path \<mapsto> h)\<rparr>"

definition router_post :: "string \<Rightarrow> Handler \<Rightarrow> Router \<Rightarrow> Router" where
  "router_post path h r = r\<lparr>postRoutes := (postRoutes r)(path \<mapsto> h)\<rparr>"

definition dispatch :: "Router \<Rightarrow> HttpRequest \<Rightarrow> HttpResponse" where
  "dispatch r req =
     (if rq_method req \<noteq> ''GET'' \<and> rq_method req \<noteq> ''POST''
      then makeJsonResponse 405 ''Method Not Allowed'' ''{\"error\":\"method not allowed\"}''
      else (let table = (if rq_method req = ''GET'' then getRoutes r else postRoutes r)
            in case table (rq_target req) of
                 None \<Rightarrow> makeJsonResponse 404 ''Not Found'' ''{\"error\":\"not found\"}''
               | Some h \<Rightarrow> h req))"


subsection \<open>Registration and lookup\<close>

text \<open>A registration call, by the method it serves.\<close>

datatype registration = Get string Handler | Post string Handler

fun register :: "Router \<Rightarrow> registration \<Rightarrow> Router" where
  "register r (Get path h) = router_get path h r"
| "register r (Post path h) = router_post path h r"

text \<open>The same calls as one table keyed by method and target, the latest entry first.\<close>

fun route_entry :: "registration \<Rightarrow> (string \<times> string) \<times> Handler" where
  "route_entry (Get path h) = ((''GET'', path), h)"
| "route_entry (Post path h) = ((''POST'', path), h)"

lemma register_tables:
  "getRoutes (foldl register r rs) path
     = (case map_of (rev (map route_entry rs)) (''GET'', path) of Some h \<Rightarrow> Some h | None \<Rightarrow> getRoutes r path)
   \<and> postRoutes (foldl register r rs) path
     = (case map_of (rev (map route_entry rs)) (''POST'', path) of Some h \<Rightarrow> Some h | None \<Rightarrow> postRoutes r path)"
proof (induction rs arbitrary: r)
  case Nil
  then show ?case by simp
next
  case (Cons x rs)
  then show ?case
    by (cases x) (auto simp: router_get_def router_post_def map_add_def split: option.splits)
qed

text \<open>C28: The router as a specification: after any sequence of registrations, a request is
  answered by the handler registered last for its method and exact target; methods other than
  GET and POST give 405 and unregistered targets 404, each with its JSON error body.\<close>

theorem dispatch_latest_route:
  "dispatch (foldl register Router_new rs) req =
     (if rq_method req \<notin> {''GET'', ''POST''}
      then makeJsonResponse 405 ''Method Not Allowed'' ''{\"error\":\"method not allowed\"}''
      else case map_of (rev (map route_entry rs)) (rq_method req, rq_target req) of
             None \<Rightarrow> makeJsonResponse 404 ''Not Found'' ''{\"error\":\"not found\"}''
           | Some h \<Rightarrow> h req)"
  using register_tables [of Router_new rs "rq_target req"]
  by (auto simp: dispatch_def Router_new_def split: option.splits)

end
