(* ===== verification/Http_Server.thy ===== *)
theory Http_Server
  imports Reactor Router
begin

section \<open>The HTTP server\<close>

text \<open>
  \<open>server::HttpServer\<close>: the reactor with a router. \<open>handleConnectionEvent\<close> runs on a worker
  thread; each of its paths posts one re-arm request just before it returns, so the body is
  a function to the connection it leaves, the action it posts and the history.
\<close>

record 's HttpServer = "'s Reactor" +
  hs_port :: u16
  hs_router :: Router

definition badRequest :: HttpResponse where
  "badRequest = (makeJsonResponse 400 ''Bad Request'' ''{\"error\":\"bad request\"}'')\<lparr>rs_keepAlive := False\<rparr>"

definition reset_parser :: "Connection \<Rightarrow> Connection" where
  "reset_parser c = c\<lparr>c_parser := parser_reset (c_parser c)\<rparr>"

text \<open>The path of an incomplete response from an earlier event.\<close>

definition resumeWrite :: "os \<Rightarrow> Connection \<Rightarrow> history \<Rightarrow> Connection \<times> RearmAction \<times> history" where
  "resumeWrite os conn h =
     (let (done, c1, h1) = flushWrite os conn h
      in if \<not> done then (c1, WaitWritable, h1)
         else (let c2 = reset_parser c1
               in (c2, (if c_pendingKeepAlive c2 then WaitReadable else Close), h1)))"

text \<open>The path of a request that does not parse.\<close>

definition answerBadRequest :: "os \<Rightarrow> Connection \<Rightarrow> history \<Rightarrow> Connection \<times> RearmAction \<times> history" where
  "answerBadRequest os conn h =
     (let c1 = setPendingKeepAlive False conn;
          c2 = queueWrite (serialize badRequest) c1;
          (done, c3, h1) = flushWrite os c2 h
      in (c3, (if \<not> done then WaitWritable else Close), h1))"

text \<open>
  The path of a complete request. \<open>req\<close> is a reference into the parser
  (\<open>parser().request()\<close>): what it reads after \<open>parser().reset()\<close> is the reset request.
\<close>

definition answerRequest ::
    "os \<Rightarrow> Router \<Rightarrow> Connection \<Rightarrow> history \<Rightarrow> Connection \<times> RearmAction \<times> history" where
  "answerRequest os router conn h =
     (let req = (\<lambda>c. p_req (c_parser c));
          resp = (dispatch router (req conn))\<lparr>rs_keepAlive := rq_keepAlive (req conn)\<rparr>;
          c1 = setPendingKeepAlive (rq_keepAlive (req conn)) conn;
          c2 = queueWrite (serialize resp) c1;
          (done, c3, h1) = flushWrite os c2 h
      in if \<not> done then (c3, WaitWritable, h1)
         else (let c4 = reset_parser c3
               in (c4, (if rq_keepAlive (req c4) then WaitReadable else Close), h1)))"

definition serveConnection ::
    "os \<Rightarrow> Router \<Rightarrow> fd \<Rightarrow> Connection \<Rightarrow> history \<Rightarrow> Connection \<times> RearmAction \<times> history" where
  "serveConnection os router f conn h =
     (if hasPendingWrite conn then resumeWrite os conn h
      else (let (r, h1) = invoke os (Sys_recv f 8192) h; n = sr_ret r
            in if n = 0 then (conn, Close, h1)
               else if n < 0 then (conn, (if would_block (sr_errno r) then WaitReadable else Close), h1)
               else (let (status, p) = consume (c_parser conn) (take (nat n) (sr_data r));
                         c1 = conn\<lparr>c_parser := p\<rparr>
                     in case status of
                          NeedMoreData \<Rightarrow> (c1, WaitReadable, h1)
                        | ParseError \<Rightarrow> answerBadRequest os c1 h1
                        | ParseComplete \<Rightarrow> answerRequest os router c1 h1)))"

definition handleConnectionEvent ::
    "os \<Rightarrow> fd \<Rightarrow> ('s, 'm) HttpServer_scheme \<Rightarrow> history \<Rightarrow> ('s, 'm) HttpServer_scheme \<times> history" where
  "handleConnectionEvent os f s h =
     (case rx_connections s f of
        None \<Rightarrow> (s, h)
      | Some conn \<Rightarrow>
          (let (conn1, action, h1) = serveConnection os (hs_router s) f conn h
           in (postRearm f action (s\<lparr>rx_connections := (rx_connections s)(f \<mapsto> conn1)\<rparr>), h1)))"

definition HttpServer_new :: "'s \<Rightarrow> u16 \<Rightarrow> Router \<Rightarrow> 's HttpServer" where
  "HttpServer_new l port router =
     \<lparr>rx_listenSock = Socket_new, rx_eventLoop = l, rx_queue = [], rx_connections = Map.empty,
      rx_pendingRearms = [], rx_running = False, hs_port = port, hs_router = router\<rparr>"

definition HttpServer_run ::
    "os \<Rightarrow> 's EventLoop \<Rightarrow> (os \<Rightarrow> history \<Rightarrow> 's \<times> history) \<Rightarrow> 's HttpServer \<Rightarrow> history
     \<Rightarrow> (run_end \<times> 's HttpServer \<times> history) + ('s HttpServer \<times> history)" where
  "HttpServer_run os el create s h = reactorStart os el create Some (hs_port s) s h"

definition HttpServer_stop :: "'s HttpServer \<Rightarrow> 's HttpServer" where
  "HttpServer_stop s = reactor_stop s"

subsection \<open>The connection between events\<close>

text \<open>A connection that waits for an event either owes bytes or has a parser that still reads.\<close>

definition parser_reading :: "HttpParser \<Rightarrow> bool" where
  "parser_reading p \<longleftrightarrow> p_state p \<in> {RequestLine, Headers, Body}"

definition conn_ready :: "Connection \<Rightarrow> bool" where
  "conn_ready c \<longleftrightarrow> conn_inv c \<and> (hasPendingWrite c \<or> parser_reading (c_parser c))"

text \<open>What a worker leaves: unless the connection is to be closed it is ready again, and the
  re-arm action fits what it waits for.\<close>

definition rearm_fits :: "Connection \<times> RearmAction \<times> history \<Rightarrow> bool" where
  "rearm_fits x = (case x of (c, action, h) \<Rightarrow>
     (case action of
        WaitWritable \<Rightarrow> conn_ready c \<and> hasPendingWrite c
      | WaitReadable \<Rightarrow> conn_ready c \<and> \<not> hasPendingWrite c
      | Close \<Rightarrow> conn_inv c \<and> \<not> hasPendingWrite c))"

lemma conn_inv_reset [keeps]: "conn_inv c \<Longrightarrow> conn_inv (reset_parser c)"
  by (simp add: conn_inv_def reset_parser_def parser_inv_reset)

lemma reset_parser_simps [simp]:
  "hasPendingWrite (reset_parser c) = hasPendingWrite c" "pending (reset_parser c) = pending c"
  "parser_reading (c_parser (reset_parser c))" "conn_fd (reset_parser c) = conn_fd c"
  "c_pendingKeepAlive (reset_parser c) = c_pendingKeepAlive c" "c_sock (reset_parser c) = c_sock c"
  by (simp_all add: reset_parser_def hasPendingWrite_def pending_def parser_reading_def parser_reset_def
      conn_fd_def)

lemma resumeWrite_fits:
  assumes "os_send_bounded os" "conn_inv c"
  shows "rearm_fits (resumeWrite os c h)"
proof -
  obtain ok c1 h1 where f: "flushWrite os c h = (ok, c1, h1)" by (metis prod_cases3)
  with flushWrite_outcome [OF assms, of h] show ?thesis
    by (auto simp: resumeWrite_def rearm_fits_def flush_post_def conn_ready_def keeps)
qed

lemma answerBadRequest_fits:
  assumes "os_send_bounded os" "conn_inv c"
  shows "rearm_fits (answerBadRequest os c h)"
proof -
  let ?c = "queueWrite (serialize badRequest) (setPendingKeepAlive False c)"
  have i: "conn_inv ?c" using assms(2) by (simp add: keeps)
  obtain ok c1 h1 where f: "flushWrite os ?c h = (ok, c1, h1)" by (metis prod_cases3)
  with flushWrite_outcome [OF assms(1) i, of h] show ?thesis
    by (auto simp: answerBadRequest_def rearm_fits_def flush_post_def conn_ready_def Let_def)
qed

lemma answerRequest_fits:
  assumes "os_send_bounded os" "conn_inv c"
  shows "rearm_fits (answerRequest os router c h)"
proof -
  let ?r = "(dispatch router (p_req (c_parser c)))\<lparr>rs_keepAlive := rq_keepAlive (p_req (c_parser c))\<rparr>"
  let ?c = "queueWrite (serialize ?r) (setPendingKeepAlive (rq_keepAlive (p_req (c_parser c))) c)"
  have i: "conn_inv ?c" using assms(2) by (simp add: keeps)
  obtain ok c1 h1 where f: "flushWrite os ?c h = (ok, c1, h1)" by (metis prod_cases3)
  with flushWrite_outcome [OF assms(1) i, of h] show ?thesis
    by (auto simp: answerRequest_def rearm_fits_def flush_post_def conn_ready_def Let_def keeps)
qed


lemma less_Complete: "s < Complete \<longleftrightarrow> s \<in> {RequestLine, Headers, Body}"
  by (cases s) (simp_all add: less_State_def)

lemma consume_reading: "fst (consume p d) = NeedMoreData \<longleftrightarrow> parser_reading (snd (consume p d))"
  using consume_status [of p d] by (simp add: less_Complete parser_reading_def)

lemma recv_parser_inv:
  "conn_inv c \<Longrightarrow> consume (c_parser c) d = (st, p) \<Longrightarrow> conn_inv (c\<lparr>c_parser := p\<rparr>)"
  using consume_inv [of "c_parser c" d] by (simp add: conn_inv_def)

lemma serveConnection_fits:
  assumes "os_send_bounded os" "conn_ready c"
  shows "rearm_fits (serveConnection os router f c h)"
proof (cases "hasPendingWrite c")
  case True
  with assms resumeWrite_fits show ?thesis by (simp add: serveConnection_def conn_ready_def)
next
  case False
  let ?r = "os h (Sys_recv f 8192)"
  obtain st p where c: "consume (c_parser c) (take (nat (sr_ret ?r)) (sr_data ?r)) = (st, p)" by fastforce
  have i: "conn_inv (c\<lparr>c_parser := p\<rparr>)" using assms(2) c recv_parser_inv by (simp add: conn_ready_def)
  have nw: "\<not> hasPendingWrite (c\<lparr>c_parser := p\<rparr>)" using False by (simp add: hasPendingWrite_def)
  from consume_reading [of "c_parser c" "take (nat (sr_ret ?r)) (sr_data ?r)"] c
  have "st = NeedMoreData \<Longrightarrow> parser_reading p" by simp
  with False assms i nw c answerBadRequest_fits [OF assms(1) i] answerRequest_fits [OF assms(1) i]
  show ?thesis
    by (cases st)
       (auto simp: serveConnection_def rearm_fits_def conn_ready_def Let_def invoke_def)
qed


lemma parser_reset_new: "parser_reset p = HttpParser_new"
  by (simp add: parser_reset_def HttpParser_new_def)

subsection \<open>The bytes on the wire\<close>

text \<open>The outcome of writing a response: all of it is sent or still owed, in order and after what
  was sent before; or a send failed after a prefix of it.\<close>

definition written :: "fd \<Rightarrow> string \<Rightarrow> history \<Rightarrow> Connection \<Rightarrow> history \<Rightarrow> bool" where
  "written f text h c' h' \<longleftrightarrow>
     sent_bytes f h' @ pending c' = sent_bytes f h @ text
     \<or> send_failed f h' \<and> pending c' = [] \<and> (\<exists>k. sent_bytes f h' = sent_bytes f h @ take k text)"

lemma flush_written:
  assumes "os_send_bounded os" "conn_inv c" "flushWrite os c h = (ok, c', h')"
  shows "written (conn_fd c) (pending c) h c' h' \<and> (ok \<longleftrightarrow> pending c' = [])"
  using flushWrite_outcome [OF assms(1,2), of h] assms(3) by (auto simp: flush_post_def written_def)

lemma answerRequest_written:
  assumes "os_send_bounded os" "conn_inv c" "pending c = []" "answerRequest os router c h = (c', act, h')"
  shows "written (conn_fd c) (serialize ((dispatch router (p_req (c_parser c)))
           \<lparr>rs_keepAlive := rq_keepAlive (p_req (c_parser c))\<rparr>)) h c' h'
    \<and> act = (if pending c' = [] then WaitReadable else WaitWritable)"
proof -
  let ?r = "(dispatch router (p_req (c_parser c)))\<lparr>rs_keepAlive := rq_keepAlive (p_req (c_parser c))\<rparr>"
  let ?k = "setPendingKeepAlive (rq_keepAlive (p_req (c_parser c))) c"
  let ?c = "queueWrite (serialize ?r) ?k"
  have k: "conn_inv ?k" "pending ?k = []" "conn_fd ?c = conn_fd c" using assms(2,3)
    by (simp_all add: keeps, simp_all add: setPendingKeepAlive_def pending_def conn_fd_def queueWrite_def)
  then have i: "conn_inv ?c" "pending ?c = serialize ?r" by (simp_all add: keeps pending_queueWrite)
  obtain ok c1 h1 where f: "flushWrite os ?c h = (ok, c1, h1)" by (metis prod_cases3)
  from flush_written [OF assms(1) i(1) f] i(2) k(3)
  have w: "written (conn_fd c) (serialize ?r) h c1 h1" "ok \<longleftrightarrow> pending c1 = []" by auto
  from assms(4) f have "h' = h1" "pending c' = pending c1" "act = (if ok then WaitReadable else WaitWritable)"
    by (auto simp: answerRequest_def Let_def reset_parser_def parser_reset_def HttpRequest_new_def
        pending_def split: if_splits)
  with w show ?thesis by (simp add: written_def)
qed

lemma answerBadRequest_written:
  assumes "os_send_bounded os" "conn_inv c" "pending c = []" "answerBadRequest os c h = (c', act, h')"
  shows "written (conn_fd c) (serialize badRequest) h c' h'
    \<and> act = (if pending c' = [] then Close else WaitWritable) \<and> \<not> c_pendingKeepAlive c'"
proof -
  let ?k = "setPendingKeepAlive False c"
  let ?c = "queueWrite (serialize badRequest) ?k"
  have k: "conn_inv ?k" "pending ?k = []" "conn_fd ?c = conn_fd c" "\<not> c_pendingKeepAlive ?c" using assms(2,3)
    by (simp_all add: keeps, simp_all add: setPendingKeepAlive_def pending_def conn_fd_def queueWrite_def)
  then have i: "conn_inv ?c" "pending ?c = serialize badRequest" by (simp_all add: keeps pending_queueWrite)
  obtain ok c1 h1 where f: "flushWrite os ?c h = (ok, c1, h1)" by (metis prod_cases3)
  from assms(4) f have "c' = c1" "h' = h1" "act = (if ok then Close else WaitWritable)"
    by (auto simp: answerBadRequest_def Let_def split: if_splits)
  with flush_written [OF assms(1) i(1) f] i(2) k(3,4) flushWrite_keeps(3) [OF f] show ?thesis by simp
qed

lemma not_hasPendingWrite: "conn_inv c \<Longrightarrow> \<not> hasPendingWrite c \<longleftrightarrow> pending c = []"
  by (auto simp: hasPendingWrite_def pending_def conn_inv_def)

text \<open>The part of \<open>serveConnection\<close> after a successful read.\<close>

lemma serveConnection_read:
  assumes "\<not> hasPendingWrite c" "0 < sr_ret (os h (Sys_recv f 8192))"
    and "consume (c_parser c) (take (nat (sr_ret (os h (Sys_recv f 8192)))) (sr_data (os h (Sys_recv f 8192)))) = (st, p)"
  shows "serveConnection os router f c h =
     (case st of
        NeedMoreData \<Rightarrow> (c\<lparr>c_parser := p\<rparr>, WaitReadable, (Sys_recv f 8192, os h (Sys_recv f 8192)) # h)
      | ParseError \<Rightarrow> answerBadRequest os (c\<lparr>c_parser := p\<rparr>) ((Sys_recv f 8192, os h (Sys_recv f 8192)) # h)
      | ParseComplete \<Rightarrow> answerRequest os router (c\<lparr>c_parser := p\<rparr>) ((Sys_recv f 8192, os h (Sys_recv f 8192)) # h))"
  using assms by (simp add: serveConnection_def Let_def invoke_def)

subsection \<open>Properties\<close>

lemma serveConnection_answers:
  assumes "os_send_bounded os" "conn_inv c" "\<not> hasPendingWrite c" "c_parser c = HttpParser_new"
    and "wf_request req"
    and "sr_data (os h (Sys_recv (conn_fd c) 8192)) = requestText req"
    and "sr_ret (os h (Sys_recv (conn_fd c) 8192)) = int (length (requestText req))"
    and "serveConnection os router (conn_fd c) c h = (c', act, h')"
    and "ka = connectionKeepAlive (rq_headers req) (rq_version req)"
  shows "written (conn_fd c) (serialize ((dispatch router (req\<lparr>rq_keepAlive := ka\<rparr>))\<lparr>rs_keepAlive := ka\<rparr>)) h c' h'
    \<and> (act = WaitWritable \<longleftrightarrow> pending c' \<noteq> [])"
proof -
  let ?h = "(Sys_recv (conn_fd c) 8192, os h (Sys_recv (conn_fd c) 8192)) # h"
  let ?p = "\<lparr>p_state = Complete, p_buffer = [], p_bodyBytesNeeded = contentLengthFrom (rq_headers req),
      p_req = req\<lparr>rq_keepAlive := ka\<rparr>\<rparr>"
  let ?c = "c\<lparr>c_parser := ?p\<rparr>"
  have t: "consume (c_parser c) (requestText req) = (ParseComplete, ?p)"
    using consume_text [OF assms(5), of "[]"] assms(4,9) by simp
  have pos: "0 < length (requestText req)" using assms(5) by (simp add: requestText_def CRLF_def)
  from serveConnection_read [OF assms(3), of os h "conn_fd c" ParseComplete ?p router] t pos assms(6-8)
  have a: "answerRequest os router ?c ?h = (c', act, h')" by simp
  have i: "conn_inv ?c" "pending ?c = []" "conn_fd ?c = conn_fd c"
    using recv_parser_inv [OF assms(2) t] not_hasPendingWrite [OF assms(2)] assms(3)
    by (simp_all add: pending_def conn_fd_def)
  from answerRequest_written [OF assms(1) i(1,2) a] i(3) show ?thesis
    by (auto simp: written_def)
qed


text \<open>A request served: when the bytes of a well-formed request arrive on a connection that
  waits for one, the worker sends (or keeps to send, in order) exactly the serialised response of
  the router to that request, marked with the request's connection persistence, unless a send
  fails; it then waits for the socket to be writable exactly when bytes are still owed.\<close>

theorem server_answers:
  assumes "os_send_bounded os" "conn_inv c" "\<not> hasPendingWrite c" "c_parser c = HttpParser_new"
    and "wf_request req"
    and "sr_data (os h (Sys_recv (conn_fd c) 8192)) = requestText req"
    and "sr_ret (os h (Sys_recv (conn_fd c) 8192)) = int (length (requestText req))"
    and "serveConnection os router (conn_fd c) c h = (c', act, h')"
    and "ka = connectionKeepAlive (rq_headers req) (rq_version req)"
  shows "written (conn_fd c) (serialize ((dispatch router (req\<lparr>rq_keepAlive := ka\<rparr>))\<lparr>rs_keepAlive := ka\<rparr>)) h c' h'
    \<and> (act = WaitWritable \<longleftrightarrow> pending c' \<noteq> [])"
  using assms by (rule serveConnection_answers)

text \<open>A client that sends a text and a socket that takes every byte.\<close>

definition text_os :: "string \<Rightarrow> os" where
  "text_os text h c = (case c of
      Sys_recv f n \<Rightarrow> (sys_result (int (length text)))\<lparr>sr_data := text\<rparr>
    | Sys_send f d \<Rightarrow> sys_result (int (length d))
    | _ \<Rightarrow> sys_result 0)"

lemma text_os_send_bounded: "os_send_bounded (text_os text)"
  by (simp add: os_send_bounded_def text_os_def)

definition idle_conn :: Connection where
  "idle_conn = Connection_new (Socket_of 4)"

lemma idle_conn_simps [simp]:
  "conn_inv idle_conn" "conn_ready idle_conn" "\<not> hasPendingWrite idle_conn"
  "c_parser idle_conn = HttpParser_new" "conn_fd idle_conn = 4" "pending idle_conn = []"
  by (simp_all add: idle_conn_def Connection_new_def conn_inv_def parser_inv_new hasPendingWrite_def
      conn_fd_def Socket_of_def pending_def conn_ready_def parser_reading_def)
     (simp add: HttpParser_new_def)

theorem server_answers_witness:
  "written 4 (serialize ((makeJsonResponse 404 ''Not Found'' ''{\"error\":\"not found\"}'')\<lparr>rs_keepAlive := False\<rparr>))
     [] (fst (serveConnection (text_os (requestText sample_request)) Router_new 4 idle_conn []))
     (snd (snd (serveConnection (text_os (requestText sample_request)) Router_new 4 idle_conn [])))"
proof -
  let ?os = "text_os (requestText sample_request)"
  have w: "wf_request sample_request" by code_simp
  have r: "sr_data (?os [] (Sys_recv (conn_fd idle_conn) 8192)) = requestText sample_request"
    "sr_ret (?os [] (Sys_recv (conn_fd idle_conn) 8192)) = int (length (requestText sample_request))"
    by (simp_all add: text_os_def)
  obtain c act h where s: "serveConnection ?os Router_new (conn_fd idle_conn) idle_conn [] = (c, act, h)"
    by (metis prod_cases3)
  have k: "False = connectionKeepAlive (rq_headers sample_request) (rq_version sample_request)" by code_simp
  have d: "dispatch Router_new (sample_request\<lparr>rq_keepAlive := False\<rparr>)
      = makeJsonResponse 404 ''Not Found'' ''{\"error\":\"not found\"}''"
    by (simp add: dispatch_def Router_new_def sample_request_def)
  from server_answers [OF text_os_send_bounded idle_conn_simps(1,3,4) w r s k] s show ?thesis
    by (simp add: d)
qed

text \<open>Workers leave connections consistent: from a connection that waits for an event, every
  path of \<open>handleConnectionEvent\<close> (resumed write, end of file, read error, partial request, bad
  request, complete request) leaves the write offset and the parser consistent and posts an action
  that fits: it waits for writability exactly when bytes are owed, and when it waits for input the
  parser is one that reads, so a parser that failed or is complete is never fed again.\<close>

theorem rearm_action_fits:
  assumes "os_send_bounded os" "conn_ready c" "serveConnection os router f c h = (c', act, h')"
  shows "conn_inv c' \<and> (act = WaitWritable \<longleftrightarrow> hasPendingWrite c')
    \<and> (act = WaitReadable \<longrightarrow> parser_reading (c_parser c')) \<and> (act \<noteq> Close \<longrightarrow> conn_ready c')"
  using serveConnection_fits [OF assms(1,2), of router f h] assms(3)
  by (cases act) (auto simp: rearm_fits_def conn_ready_def)

theorem rearm_action_fits_witness:
  "fst (snd (serveConnection (text_os ''GET /'') Router_new 4 idle_conn [])) = WaitReadable
   \<and> conn_ready (fst (serveConnection (text_os ''GET /'') Router_new 4 idle_conn []))"
proof -
  obtain c act h where s: "serveConnection (text_os ''GET /'') Router_new 4 idle_conn [] = (c, act, h)"
    by (metis prod_cases3)
  have "fst (snd (serveConnection (text_os ''GET /'') Router_new 4 idle_conn [])) = WaitReadable"
    by code_simp
  with rearm_action_fits [OF text_os_send_bounded idle_conn_simps(2) s] s show ?thesis by simp
qed

text \<open>A request that does not parse is answered by 400 with \<open>Connection: close\<close>, and the
  connection is closed as soon as that answer is out: at once when the socket takes all of it,
  otherwise by the event that flushes the rest.\<close>

theorem bad_request_closes:
  assumes "os_send_bounded os" "conn_inv c" "\<not> hasPendingWrite c"
    and "0 < sr_ret (os h (Sys_recv (conn_fd c) 8192))"
    and "consume (c_parser c) (take (nat (sr_ret (os h (Sys_recv (conn_fd c) 8192))))
           (sr_data (os h (Sys_recv (conn_fd c) 8192)))) = (ParseError, p)"
    and "serveConnection os router (conn_fd c) c h = (c', act, h')"
  shows "written (conn_fd c) (serialize badRequest) h c' h'
    \<and> act = (if pending c' = [] then Close else WaitWritable)
    \<and> (pending c' \<noteq> [] \<longrightarrow> fst (snd (serveConnection os' router f' c' h2)) \<in> {Close, WaitWritable})"
proof -
  let ?h = "(Sys_recv (conn_fd c) 8192, os h (Sys_recv (conn_fd c) 8192)) # h"
  let ?c = "c\<lparr>c_parser := p\<rparr>"
  from serveConnection_read [where os = os and h = h and router = router, OF assms(3-5)] assms(6)
  have a: "answerBadRequest os ?c ?h = (c', act, h')" by simp
  have i: "conn_inv ?c" "pending ?c = []" "conn_fd ?c = conn_fd c"
    using recv_parser_inv [OF assms(2,5)] not_hasPendingWrite [OF assms(2)] assms(3)
    by (simp_all add: pending_def conn_fd_def)
  from answerBadRequest_written [OF assms(1) i(1,2) a] i(3)
  have w: "written (conn_fd c) (serialize badRequest) h c' h'"
    "act = (if pending c' = [] then Close else WaitWritable)" "\<not> c_pendingKeepAlive c'"
    by (auto simp: written_def)
  moreover have "fst (snd (serveConnection os' router f' c' h2)) \<in> {Close, WaitWritable}" if "pending c' \<noteq> []"
  proof -
    from that have "hasPendingWrite c'" by (auto simp: hasPendingWrite_def pending_def)
    moreover obtain ok c1 h1 where f: "flushWrite os' c' h2 = (ok, c1, h1)" by (metis prod_cases3)
    ultimately show ?thesis using w(3) flushWrite_keeps(3) [OF f]
      by (auto simp: serveConnection_def resumeWrite_def Let_def)
  qed
  ultimately show ?thesis by blast
qed

theorem bad_request_closes_witness:
  "written 4 (serialize badRequest) []
     (fst (serveConnection (text_os (''nonsense'' @ CRLF)) Router_new 4 idle_conn []))
     (snd (snd (serveConnection (text_os (''nonsense'' @ CRLF)) Router_new 4 idle_conn [])))"
proof -
  let ?os = "text_os (''nonsense'' @ CRLF)"
  have n: "0 < sr_ret (?os [] (Sys_recv (conn_fd idle_conn) 8192))" by (simp add: text_os_def)
  have "fst (consume HttpParser_new (''nonsense'' @ CRLF)) = ParseError" by code_simp
  then obtain p where p: "consume HttpParser_new (''nonsense'' @ CRLF) = (ParseError, p)"
    by (metis prod.collapse)
  then have c: "consume (c_parser idle_conn) (take (nat (sr_ret (?os [] (Sys_recv (conn_fd idle_conn) 8192))))
      (sr_data (?os [] (Sys_recv (conn_fd idle_conn) 8192)))) = (ParseError, p)"
    by (simp add: text_os_def)
  obtain c' act h where s: "serveConnection ?os Router_new (conn_fd idle_conn) idle_conn [] = (c', act, h)"
    by (metis prod_cases3)
  from bad_request_closes [OF text_os_send_bounded idle_conn_simps(1,3) n c s] s show ?thesis
    by (simp add: CRLF_def)
qed

text \<open>C37: The server does not close after a response to a request that asked for it: whenever a
  complete request is answered and its response is flushed at once, the action posted is
  \<open>WaitReadable\<close>, whatever the request says, because \<open>req.keepAlive\<close> is read through the
  reference after \<open>parser().reset()\<close> has replaced the request by a default one.\<close>

theorem close_not_honoured:
  assumes "os_send_bounded os" "conn_inv c" "\<not> hasPendingWrite c"
    and "0 < sr_ret (os h (Sys_recv (conn_fd c) 8192))"
    and "consume (c_parser c) (take (nat (sr_ret (os h (Sys_recv (conn_fd c) 8192))))
           (sr_data (os h (Sys_recv (conn_fd c) 8192)))) = (ParseComplete, p)"
    and "serveConnection os router (conn_fd c) c h = (c', act, h')" "\<not> hasPendingWrite c'"
  shows "act = WaitReadable"
proof -
  let ?h = "(Sys_recv (conn_fd c) 8192, os h (Sys_recv (conn_fd c) 8192)) # h"
  let ?c = "c\<lparr>c_parser := p\<rparr>"
  from serveConnection_read [where os = os and h = h and router = router, OF assms(3-5)] assms(6)
  have a: "answerRequest os router ?c ?h = (c', act, h')" by simp
  have i: "conn_inv ?c" "pending ?c = []"
    using recv_parser_inv [OF assms(2,5)] not_hasPendingWrite [OF assms(2)] assms(3)
    by (simp_all add: pending_def)
  from answerRequest_fits [OF assms(1) i(1), of router ?h] a have "conn_inv c'"
    by (auto simp: rearm_fits_def conn_ready_def split: RearmAction.splits)
  with answerRequest_written [OF assms(1) i a] assms(7) not_hasPendingWrite show ?thesis by simp
qed


theorem close_not_honoured_witness:
  "connectionKeepAlive (rq_headers sample_request) (rq_version sample_request) = False
   \<and> fst (snd (serveConnection (text_os (requestText sample_request)) Router_new 4 idle_conn [])) = WaitReadable"
proof -
  let ?os = "text_os (requestText sample_request)"
  have n: "0 < sr_ret (?os [] (Sys_recv (conn_fd idle_conn) 8192))"
    by (simp add: text_os_def requestText_def CRLF_def)
  have w: "wf_request sample_request" by code_simp
  from consume_text [OF w, of "[]"] obtain p
    where p: "consume HttpParser_new (requestText sample_request) = (ParseComplete, p)" by simp
  then have c: "consume (c_parser idle_conn) (take (nat (sr_ret (?os [] (Sys_recv (conn_fd idle_conn) 8192))))
      (sr_data (?os [] (Sys_recv (conn_fd idle_conn) 8192)))) = (ParseComplete, p)"
    by (simp add: text_os_def)
  obtain c' act h where s: "serveConnection ?os Router_new (conn_fd idle_conn) idle_conn [] = (c', act, h)"
    by (metis prod_cases3)
  have "\<not> hasPendingWrite (fst (serveConnection ?os Router_new 4 idle_conn []))"
    and k: "\<not> connectionKeepAlive (rq_headers sample_request) (rq_version sample_request)" by code_simp+
  with s have "\<not> hasPendingWrite c'" by simp
  from close_not_honoured [OF text_os_send_bounded idle_conn_simps(1,3) n c s this] s k show ?thesis by simp
qed

end
