(* ===== verification/Session.thy ===== *)
theory Session
  imports Http_Server
begin

section \<open>A connection over its whole life\<close>

text \<open>
  What a client sees of the server: the bytes it sends, in whatever pieces they are read, against
  the bytes it gets. The specification reads a piece and answers at once with the whole response;
  the worker reads, writes what the socket takes, is re-armed and resumes, over many events and
  with calls of other threads in between. The refinement maps a connection and a history to the
  bytes sent followed by the bytes still owed.
\<close>

subsection \<open>The specification\<close>

definition session_answer :: "Router \<Rightarrow> HttpRequest \<Rightarrow> string" where
  "session_answer router req = serialize ((dispatch router req)\<lparr>rs_keepAlive := rq_keepAlive req\<rparr>)"

definition session_read :: "Router \<Rightarrow> HttpParser \<times> string \<Rightarrow> string \<Rightarrow> HttpParser \<times> string" where
  "session_read router a chunk = (case a of (p, out) \<Rightarrow> (case consume p chunk of
       (NeedMoreData, q) \<Rightarrow> (q, out)
     | (ParseComplete, q) \<Rightarrow> (HttpParser_new, out @ session_answer router (p_req q))
     | (ParseError, q) \<Rightarrow> (q, out @ serialize badRequest)))"

definition session_spec :: "Router \<Rightarrow> string list \<Rightarrow> HttpParser \<times> string" where
  "session_spec router cs = foldl (session_read router) (HttpParser_new, []) cs"

lemma session_spec_simps [simp]:
  "session_spec router [] = (HttpParser_new, [])"
  "session_spec router (cs @ [c]) = session_read router (session_spec router cs) c"
  by (simp_all add: session_spec_def)

subsection \<open>The history of one descriptor\<close>

text \<open>The pieces that were read, oldest first, and the number of sends that failed for good.\<close>

fun chunk_of :: "fd \<Rightarrow> syscall \<times> sysres \<Rightarrow> string list" where
  "chunk_of f (Sys_recv g n, r) = (if f = g \<and> 0 < sr_ret r then [take (nat (sr_ret r)) (sr_data r)] else [])"
| "chunk_of f _ = []"

primrec chunks :: "fd \<Rightarrow> history \<Rightarrow> string list" where
  "chunks f [] = []"
| "chunks f (e # h) = chunks f h @ chunk_of f e"

fun send_error :: "fd \<Rightarrow> syscall \<times> sysres \<Rightarrow> nat" where
  "send_error f (Sys_send g d, r) =
     (if f = g \<and> sr_ret r \<le> 0 \<and> \<not> (sr_ret r < 0 \<and> would_block (sr_errno r)) then 1 else 0)"
| "send_error f _ = 0"

primrec send_errors :: "fd \<Rightarrow> history \<Rightarrow> nat" where
  "send_errors f [] = 0"
| "send_errors f (e # h) = send_errors f h + send_error f e"

text \<open>Calls of other threads: nothing is sent or read on the descriptor.\<close>

fun transfers :: "fd \<Rightarrow> syscall \<Rightarrow> bool" where
  "transfers f (Sys_send g d) \<longleftrightarrow> f = g"
| "transfers f (Sys_recv g n) \<longleftrightarrow> f = g"
| "transfers f _ \<longleftrightarrow> False"

lemma other_call:
  "\<not> transfers f c \<Longrightarrow> chunks f ((c, r) # h) = chunks f h \<and> sent_bytes f ((c, r) # h) = sent_bytes f h
     \<and> send_errors f ((c, r) # h) = send_errors f h"
  by (cases c) auto

lemma only_sends_chunks: "only_sends f h h' \<Longrightarrow> chunks g h' = chunks g h"
proof -
  have "\<forall>x \<in> set k. \<exists>d. fst x = Sys_send f d \<Longrightarrow> chunks g (k @ h) = chunks g h" for k
  proof (induction k)
    case (Cons e k)
    then obtain d r where "e = (Sys_send f d, r)" by (cases e) auto
    with Cons show ?case by simp
  qed simp
  then show "only_sends f h h' \<Longrightarrow> chunks g h' = chunks g h" by (auto simp: only_sends_def)
qed

subsection \<open>A flush without a failed send\<close>

lemma flushLoop_errors:
  "flushLoop os f buf off h = (e, off', h') \<Longrightarrow>
     send_errors f h' = (if e = Undeliverable then Suc (send_errors f h) else send_errors f h)"
proof (induction os f buf off h rule: flushLoop.induct)
  case (1 os f buf off h)
  let ?r = "os h (Sys_send f (drop off buf))"
  let ?h1 = "(Sys_send f (drop off buf), ?r) # h"
  show ?case
  proof (cases "off < length buf \<and> 0 < sr_ret ?r")
    case False
    with "1.prems" show ?thesis
      by (auto simp: flushLoop.simps [of os f buf off h] Let_def case_prod_beta split: if_splits)
  next
    case True
    then have "flushLoop os f buf (off + nat (sr_ret ?r)) ?h1 = (e, off', h')"
      using "1.prems" by (simp add: flushLoop.simps [of os f buf off h] Let_def invoke_def)
    with True "1.IH" [of "(?r, ?h1)" ?r ?h1 "sr_ret ?r"] show ?thesis by (simp add: invoke_def)
  qed
qed

text \<open>What a flush is to the specification: bytes move from owed to sent, or a send failed.\<close>

lemma flush_moves:
  assumes "os_send_bounded os" "conn_inv c" "flushWrite os c h = (ok, c', h')"
  shows "conn_inv c' \<and> conn_fd c' = conn_fd c \<and> c_parser c' = c_parser c \<and> c_pendingKeepAlive c' = c_pendingKeepAlive c
    \<and> (ok \<longleftrightarrow> pending c' = []) \<and> chunks (conn_fd c) h' = chunks (conn_fd c) h
    \<and> send_errors (conn_fd c) h \<le> send_errors (conn_fd c) h'
    \<and> (send_errors (conn_fd c) h' = send_errors (conn_fd c) h \<longrightarrow>
         sent_bytes (conn_fd c) h' @ pending c' = sent_bytes (conn_fd c) h @ pending c)"
proof -
  obtain e off h1 where l: "flushLoop os (conn_fd c) (c_writeBuffer c) (c_writeOffset c) h = (e, off, h1)"
    by (cases "flushLoop os (conn_fd c) (c_writeBuffer c) (c_writeOffset c) h") auto
  have le: "c_writeOffset c \<le> length (c_writeBuffer c)" using assms(2) by (simp add: conn_inv_def)
  have h1: "h' = h1" using l assms(3) by (auto simp: flushWrite_def Let_def split: flush_end.splits if_splits)
  have "e \<noteq> Undeliverable \<longrightarrow> sent_bytes (conn_fd c) h' @ pending c' = sent_bytes (conn_fd c) h @ pending c"
    using flushLoop_sent [OF assms(1) le, of "conn_fd c" h] l assms(3) h1
    by (cases e) (auto simp: flushWrite_def pending_def Let_def split: if_splits)
  with flushLoop_errors [OF l] h1 flushWrite_keeps [OF assms(3)] flushWrite_outcome [OF assms(1,2), of h] assms(3)
    only_sends_chunks [of "conn_fd c" h h' "conn_fd c"]
  show ?thesis by (auto simp: flush_post_def conn_fd_def split: if_splits)
qed

subsection \<open>The refinement relation\<close>

text \<open>A specification relates the pieces read so far to the parser it is left with and the bytes it has
  answered. It may refer to the descriptor and to the history, at the start of the connection and
  now, and then it must keep holding as the history grows. A connection implements it as long as
  no send on it failed.\<close>

type_synonym session = "fd \<Rightarrow> history \<Rightarrow> history \<Rightarrow> string list \<Rightarrow> HttpParser \<Rightarrow> string \<Rightarrow> bool"

definition grows :: "session \<Rightarrow> bool" where
  "grows spec \<longleftrightarrow> (\<forall>f h0 h k cs p out. spec f h0 h cs p out \<longrightarrow> spec f h0 (k @ h) cs p out)"

lemma grows_Cons: "grows spec \<Longrightarrow> spec f h0 h cs p out \<Longrightarrow> spec f h0 (x # h) cs p out"
  unfolding grows_def by (metis append_Cons append_Nil)

lemma grows_sends: "grows spec \<Longrightarrow> only_sends g h h' \<Longrightarrow> spec f h0 h cs p out \<Longrightarrow> spec f h0 h' cs p out"
  unfolding grows_def only_sends_def by blast

definition session_rel :: "session \<Rightarrow> fd \<Rightarrow> history \<Rightarrow> Connection \<Rightarrow> history \<Rightarrow> bool \<Rightarrow> bool" where
  "session_rel spec f h0 c h live \<longleftrightarrow>
     conn_inv c \<and> conn_fd c = f \<and> send_errors f h0 \<le> send_errors f h
     \<and> (send_errors f h = send_errors f h0 \<longrightarrow>
          (\<exists>cs p out. chunks f h = chunks f h0 @ cs \<and> spec f h0 h cs p out
             \<and> sent_bytes f h @ pending c = sent_bytes f h0 @ out
             \<and> (live \<longrightarrow> (if pending c = [] then c_parser c = p else p = HttpParser_new \<or> \<not> c_pendingKeepAlive c))))"

lemma session_rel_resume:
  assumes "os_send_bounded os" "grows spec" "session_rel spec f h0 c h True" "hasPendingWrite c"
    and "resumeWrite os c h = (c', act, h')"
  shows "session_rel spec f h0 c' h' (act \<noteq> Close)"
proof -
  obtain ok c1 h1 where f: "flushWrite os c h = (ok, c1, h1)" by (metis prod_cases3)
  have i: "conn_inv c" "conn_fd c = f" using assms(3) by (auto simp: session_rel_def)
  have p: "pending c \<noteq> []" using assms(4) by (simp add: hasPendingWrite_def pending_def)
  note m = flush_moves [OF assms(1) i(1) f, unfolded i(2)]
  have c': "h' = h1" "c' = (if ok then reset_parser c1 else c1)"
    "act = (if ok then if c_pendingKeepAlive c1 then WaitReadable else Close else WaitWritable)"
    using assms(5) f by (auto simp: resumeWrite_def Let_def split: if_splits)
  then have "c_parser c' = (if ok then HttpParser_new else c_parser c1)"
    by (simp add: reset_parser_def parser_reset_new)
  moreover have "pending c' = pending c1" "conn_inv c'" "conn_fd c' = f" "c_pendingKeepAlive c' = c_pendingKeepAlive c"
    using c' m by (simp_all add: keeps)
  ultimately have k: "conn_inv c'" "conn_fd c' = f" "send_errors f h0 \<le> send_errors f h'"
    and l: "act \<noteq> Close \<Longrightarrow> pending c' = [] \<Longrightarrow> c_parser c' = HttpParser_new \<and> c_pendingKeepAlive c"
    using c' m assms(3) by (auto simp: session_rel_def split: if_splits)
  have "\<exists>cs p out. chunks f h' = chunks f h0 @ cs \<and> spec f h0 h' cs p out \<and> sent_bytes f h' @ pending c' = sent_bytes f h0 @ out
      \<and> (act \<noteq> Close \<longrightarrow> (if pending c' = [] then c_parser c' = p else p = HttpParser_new \<or> \<not> c_pendingKeepAlive c'))"
    if e: "send_errors f h' = send_errors f h0"
  proof -
    have e1: "send_errors f h' = send_errors f h" "send_errors f h = send_errors f h0"
      using e m c'(1) assms(3) by (auto simp: session_rel_def)
    with assms(3) p obtain cs q out where cs: "chunks f h = chunks f h0 @ cs" "spec f h0 h cs q out"
      "sent_bytes f h @ pending c = sent_bytes f h0 @ out" "q = HttpParser_new \<or> \<not> c_pendingKeepAlive c"
      by (auto simp: session_rel_def)
    moreover have "spec f h0 h' cs q out"
      using grows_sends [OF assms(2) _ cs(2)] flushWrite_keeps(4) [OF f] c'(1) by blast
    ultimately show ?thesis using e1 m c'(1) l \<open>pending c' = pending c1\<close> \<open>c_pendingKeepAlive c' = c_pendingKeepAlive c\<close> cs
      by (intro exI [of _ cs] exI [of _ q] exI [of _ out]) auto
  qed
  with k show ?thesis by (simp add: session_rel_def)
qed

text \<open>Writing the answer to a piece just read: \<open>c1\<close> is the connection with the parser after it.\<close>

lemma session_rel_write:
  assumes "os_send_bounded os" "grows spec" "conn_inv c1" "conn_fd c1 = f" "pending c1 = []" "send_errors f h0 \<le> send_errors f h1"
    and "flushWrite os (queueWrite out (setPendingKeepAlive ka c1)) h1 = (ok, c2, h2)"
    and "c' = c2 \<or> c' = reset_parser c2"
    and "send_errors f h1 = send_errors f h0 \<Longrightarrow> \<exists>cs p o'. chunks f h1 = chunks f h0 @ cs \<and> spec f h0 h1 cs p o'
      \<and> sent_bytes f h1 @ out = sent_bytes f h0 @ o' \<and> (p = HttpParser_new \<or> \<not> ka)
      \<and> (live \<and> ok \<longrightarrow> c_parser c' = p)"
  shows "session_rel spec f h0 c' h2 live"
proof -
  let ?c = "queueWrite out (setPendingKeepAlive ka c1)"
  have k: "conn_inv ?c" "conn_fd ?c = f" "c_pendingKeepAlive ?c = ka" "pending ?c = out"
    using assms(3-5) pending_queueWrite [of "setPendingKeepAlive ka c1" out]
    by (simp_all add: keeps) (simp_all add: queueWrite_def setPendingKeepAlive_def conn_fd_def pending_def)
  note m = flush_moves [OF assms(1) k(1) assms(7), unfolded k(2-4)]
  have c': "conn_inv c'" "conn_fd c' = f" "pending c' = pending c2" "c_pendingKeepAlive c' = ka"
    using assms(8) m by (auto simp: keeps)
  have "\<exists>cs p o'. chunks f h2 = chunks f h0 @ cs \<and> spec f h0 h2 cs p o' \<and> sent_bytes f h2 @ pending c' = sent_bytes f h0 @ o'
      \<and> (live \<longrightarrow> (if pending c' = [] then c_parser c' = p else p = HttpParser_new \<or> \<not> c_pendingKeepAlive c'))"
    if e: "send_errors f h2 = send_errors f h0"
  proof -
    have e1: "send_errors f h1 = send_errors f h0" "send_errors f h2 = send_errors f h1"
      using e m assms(6) by linarith+
    from assms(9) [OF e1(1)] obtain cs p o' where "chunks f h1 = chunks f h0 @ cs" and sp: "spec f h0 h1 cs p o'" and
      "sent_bytes f h1 @ out = sent_bytes f h0 @ o'" "p = HttpParser_new \<or> \<not> ka" "live \<and> ok \<longrightarrow> c_parser c' = p"
      by blast
    moreover have "spec f h0 h2 cs p o'" using grows_sends [OF assms(2) flushWrite_keeps(4) [OF assms(7)] sp] .
    ultimately show ?thesis using m e1(2) c' by (intro exI [of _ cs] exI [of _ p] exI [of _ o']) auto
  qed
  with c' m assms(6) show ?thesis by (auto simp: session_rel_def)
qed

text \<open>A connection that was just accepted.\<close>

lemma session_rel_new:
  "spec f h0 h0 [] HttpParser_new [] \<Longrightarrow> session_rel spec f h0 (Connection_new (Socket_of f)) h0 live"
  unfolding session_rel_def
  by (auto simp: Connection_new_def conn_inv_def parser_inv_new conn_fd_def Socket_of_def pending_def
      intro!: exI [of _ "[]"] exI [of _ HttpParser_new])

text \<open>A read that brings nothing.\<close>

lemma session_rel_nothing:
  assumes "grows spec" "session_rel spec f h0 c h True" "\<not> 0 < sr_ret r"
  shows "session_rel spec f h0 c ((Sys_recv f n, r) # h) live"
proof -
  have "session_rel spec f h0 c ((Sys_recv f n, r) # h) True"
    using assms(2,3) grows_Cons [OF assms(1)] by (fastforce simp: session_rel_def)
  then show ?thesis unfolding session_rel_def by blast
qed

text \<open>A connection that owes nothing and has the parser of the specification.\<close>

lemma session_rel_wait:
  assumes "conn_inv c" "conn_fd c = f" "pending c = []" "send_errors f h0 \<le> send_errors f h"
    and "send_errors f h = send_errors f h0 \<Longrightarrow> \<exists>cs out. chunks f h = chunks f h0 @ cs \<and> spec f h0 h cs (c_parser c) out
      \<and> sent_bytes f h = sent_bytes f h0 @ out"
  shows "session_rel spec f h0 c h live"
  unfolding session_rel_def using assms by (metis append_Nil2)

text \<open>The part of a read that both programs share: what the specification has when a piece is read.\<close>

lemma session_rel_piece:
  assumes "grows spec" "session_rel spec f h0 c h True" "pending c = []" "0 < sr_ret r"
    and "send_errors f ((Sys_recv f n, r) # h) = send_errors f h0"
  shows "\<exists>cs p out. spec f h0 ((Sys_recv f n, r) # h) cs p out \<and> c_parser c = p \<and> sent_bytes f ((Sys_recv f n, r) # h) = sent_bytes f h0 @ out
    \<and> chunks f ((Sys_recv f n, r) # h) = chunks f h0 @ cs @ [take (nat (sr_ret r)) (sr_data r)]"
  using assms(2-5) grows_Cons [OF assms(1)] by (fastforce simp: session_rel_def)

subsection \<open>The server\<close>

definition server_session :: "Router \<Rightarrow> session" where
  "server_session router f h0 h cs p out \<longleftrightarrow> session_spec router cs = (p, out)"

lemma server_session_grows: "grows (server_session router)"
  by (simp add: grows_def server_session_def)

lemma session_rel_read:
  assumes "os_send_bounded os" "session_rel (server_session router) f h0 c h True" "\<not> hasPendingWrite c"
    and "serveConnection os router f c h = (c', act, h')"
  shows "session_rel (server_session router) f h0 c' h' (act \<noteq> Close)"
proof -
  let ?r = "os h (Sys_recv f 8192)"
  let ?h1 = "(Sys_recv f 8192, ?r) # h" and ?d = "take (nat (sr_ret ?r)) (sr_data ?r)"
  from assms(2,3) have i: "conn_inv c" "conn_fd c = f" "pending c = []" "send_errors f h0 \<le> send_errors f ?h1"
    using not_hasPendingWrite by (auto simp: session_rel_def)
  show ?thesis
  proof (cases "0 < sr_ret ?r")
    case False
    with assms(3,4) have "c' = c" "h' = ?h1" by (auto simp: serveConnection_def invoke_def Let_def split: if_splits)
    with session_rel_nothing [OF server_session_grows assms(2) False] show ?thesis by simp
  next
    case True
    obtain st q where q: "consume (c_parser c) ?d = (st, q)" by fastforce
    define c1 where "c1 = c\<lparr>c_parser := q\<rparr>"
    have i1: "conn_inv c1" "conn_fd c1 = f" "pending c1 = []" "p_req (c_parser c1) = p_req q" "c_parser c1 = q"
      using recv_parser_inv [OF i(1) q] i by (simp_all add: c1_def conn_fd_def pending_def)
    note sv = serveConnection_read [where os = os and h = h and router = router, OF assms(3) True q, folded c1_def, unfolded assms(4)]
    have spec: "\<exists>cs p out. chunks f ?h1 = chunks f h0 @ cs \<and> server_session router f h0 ?h1 cs p out
        \<and> (case st of
             NeedMoreData \<Rightarrow> sent_bytes f ?h1 = sent_bytes f h0 @ out \<and> p = q
           | ParseComplete \<Rightarrow> sent_bytes f ?h1 @ session_answer router (p_req q) = sent_bytes f h0 @ out \<and> p = HttpParser_new
           | ParseError \<Rightarrow> sent_bytes f ?h1 @ serialize badRequest = sent_bytes f h0 @ out)"
      if e: "send_errors f ?h1 = send_errors f h0"
    proof -
      from session_rel_piece [OF server_session_grows assms(2) i(3) True e] obtain cs out
        where "chunks f ?h1 = chunks f h0 @ cs @ [?d]" "sent_bytes f ?h1 = sent_bytes f h0 @ out"
          "session_spec router cs = (c_parser c, out)" by (auto simp: server_session_def)
      then show ?thesis using q
        by (intro exI [of _ "cs @ [?d]"]) (cases st; simp add: server_session_def session_read_def)
    qed
    show ?thesis
    proof (cases st)
      case NeedMoreData
      with sv have e: "c' = c1" "h' = ?h1" by simp_all
      from spec NeedMoreData i1(5) show ?thesis unfolding e by (intro session_rel_wait [OF i1(1-3) i(4)]) auto
    next
      case ParseComplete
      let ?out = "session_answer router (p_req q)"
      obtain ok c2 h2 where f: "flushWrite os (queueWrite ?out (setPendingKeepAlive (rq_keepAlive (p_req q)) c1)) ?h1 = (ok, c2, h2)"
        by (metis prod_cases3)
      with sv ParseComplete i1 have r: "h' = h2" "c' = (if ok then reset_parser c2 else c2)"
        by (auto simp: answerRequest_def session_answer_def Let_def split: if_splits)
      then have "ok \<Longrightarrow> c_parser c' = HttpParser_new" by (simp add: reset_parser_def parser_reset_new)
      with r spec ParseComplete show ?thesis
        by (intro session_rel_write [OF assms(1) server_session_grows i1(1-3) i(4) f, of c', folded r(1)]) auto
    next
      case ParseError
      obtain ok c2 h2 where f: "flushWrite os (queueWrite (serialize badRequest) (setPendingKeepAlive False c1)) ?h1 = (ok, c2, h2)"
        by (metis prod_cases3)
      with sv ParseError have r: "h' = h2" "c' = c2" "act = (if ok then Close else WaitWritable)"
        by (auto simp: answerBadRequest_def Let_def)
      with spec ParseError show ?thesis
        by (intro session_rel_write [OF assms(1) server_session_grows i1(1-3) i(4) f, of c', folded r(1)]) auto
    qed
  qed
qed

lemma session_rel_serve:
  assumes "os_send_bounded os" "session_rel (server_session router) f h0 c h True"
    and "serveConnection os router f c h = (c', act, h')"
  shows "session_rel (server_session router) f h0 c' h' (act \<noteq> Close)"
proof (cases "hasPendingWrite c")
  case True
  with assms(3) have "resumeWrite os c h = (c', act, h')" by (simp add: serveConnection_def)
  with session_rel_resume [OF assms(1) server_session_grows assms(2) True] show ?thesis .
qed (rule session_rel_read [OF assms(1,2) _ assms(3)])

subsection \<open>Requests in pieces, to the specification\<close>

text \<open>Before its last byte a request is not complete.\<close>

lemma consume_prefix:
  assumes "consume p (a @ b) = (ParseComplete, q)" "p_buffer q = []" "b \<noteq> []"
  shows "fst (consume p a) = NeedMoreData \<and> consume (snd (consume p a)) b = (ParseComplete, q)"
proof -
  have r: "resume process parser_push b (consume p a) = (ParseComplete, q)"
    using req.feed_append [of p a b] assms(1) by simp
  then have "fst (consume p a) = NeedMoreData"
    using assms(2,3) by (auto simp: resume_def parser_push_def split: if_splits)
  with r show ?thesis by (simp add: resume_def consume_def parser_push_def)
qed

lemma session_pieces:
  assumes "consume p (concat cs) = (ParseComplete, q)" "p_buffer q = []" "[] \<notin> set cs" "cs \<noteq> []"
  shows "foldl (session_read router) (p, out) cs = (HttpParser_new, out @ session_answer router (p_req q))"
  using assms
proof (induction cs arbitrary: p)
  case (Cons c cs)
  show ?case
  proof (cases "cs = []")
    case True
    with Cons.prems show ?thesis by (simp add: session_read_def)
  next
    case False
    with Cons.prems have "concat cs \<noteq> []" by (cases cs) auto
    with consume_prefix [of p c "concat cs" q] Cons.prems have n: "fst (consume p c) = NeedMoreData"
      "consume (snd (consume p c)) (concat cs) = (ParseComplete, q)" by auto
    from n(1) have "session_read router (p, out) c = (snd (consume p c), out)"
      by (simp add: session_read_def case_prod_beta)
    with Cons.IH [OF n(2)] Cons.prems False show ?thesis by simp
  qed
qed simp

text \<open>A request that arrives in non-empty pieces.\<close>

definition arrives :: "string list \<Rightarrow> HttpRequest \<Rightarrow> bool" where
  "arrives cs req \<longleftrightarrow> wf_request req \<and> concat cs = requestText req \<and> [] \<notin> set cs"

definition keep_flag :: "HttpRequest \<Rightarrow> HttpRequest" where
  "keep_flag req = req\<lparr>rq_keepAlive := connectionKeepAlive (rq_headers req) (rq_version req)\<rparr>"

lemma arrives_consume:
  assumes "arrives cs req"
  obtains q where "consume HttpParser_new (concat cs) = (ParseComplete, q)" "p_buffer q = []" "p_req q = keep_flag req"
    "cs \<noteq> []" "[] \<notin> set cs"
proof -
  from assms have a: "wf_request req" "concat cs = requestText req" "[] \<notin> set cs" by (auto simp: arrives_def)
  have "requestText req \<noteq> []" by (simp add: requestText_def CRLF_def)
  with a have "cs \<noteq> []" by auto
  with consume_text [OF a(1), of "[]"] a(2,3) that show thesis by (simp add: keep_flag_def)
qed

lemma session_requests:
  "list_all2 arrives css reqs \<Longrightarrow>
     foldl (session_read router) (HttpParser_new, out) (concat css)
       = (HttpParser_new, out @ concat (map (session_answer router \<circ> keep_flag) reqs))"
proof (induction css reqs arbitrary: out rule: list_all2_induct)
  case (Cons cs css req reqs)
  then obtain q where "consume HttpParser_new (concat cs) = (ParseComplete, q)" "p_buffer q = []" "p_req q = keep_flag req"
    "cs \<noteq> []" "[] \<notin> set cs" by (blast elim: arrives_consume)
  with session_pieces [of HttpParser_new cs q router out] Cons.IH show ?case by simp
qed simp

subsection \<open>Runs of a connection\<close>

text \<open>The events of one connection and the calls other threads make in between. The flag says
  whether the last action left the connection open.\<close>

type_synonym worker_fun = "Connection \<Rightarrow> history \<Rightarrow> Connection \<Rightarrow> RearmAction \<Rightarrow> history \<Rightarrow> bool"

inductive conn_run ::
    "os \<Rightarrow> worker_fun \<Rightarrow> fd \<Rightarrow> Connection \<times> history \<times> bool \<Rightarrow> Connection \<times> history \<times> bool \<Rightarrow> bool"
  for os serve f where
  start: "conn_run os serve f a a"
| serve: "conn_run os serve f a (c, h, True) \<Longrightarrow> serve c h c' act h' \<Longrightarrow> conn_run os serve f a (c', h', act \<noteq> Close)"
| others: "conn_run os serve f a (c, h, live) \<Longrightarrow> \<not> transfers f call \<Longrightarrow>
     conn_run os serve f a (c, (call, os h call) # h, live)"

text \<open>What is asked of a worker for its connections to refine a specification: each event it serves
  keeps the refinement relation.\<close>

locale session_system =
  fixes os :: os and serve :: worker_fun and f :: fd and spec :: session and sound :: bool
  assumes spec_start: "spec f h0 h0 [] HttpParser_new []"
    and spec_grows: "grows spec"
    and serve_rel: "sound \<Longrightarrow> session_rel spec f h0 c h True \<Longrightarrow> serve c h c' act h' \<Longrightarrow>
          session_rel spec f h0 c' h' (act \<noteq> Close)"
begin

lemma run_rel:
  assumes "conn_run os serve f a b" "sound" "session_rel spec f h0 (fst a) (fst (snd a)) (snd (snd a))"
  shows "session_rel spec f h0 (fst b) (fst (snd b)) (snd (snd b))"
  using assms
proof (induction rule: conn_run.induct)
  case (serve a c h c' act h')
  then show ?case using serve_rel by simp
next
  case (others a c h live call)
  then show ?case using other_call [OF others(2)] grows_Cons [OF spec_grows] by (fastforce simp: session_rel_def)
qed

lemma run_refines:
  assumes "sound" "conn_run os serve f (Connection_new (Socket_of f), h0, True) (c, h, live)"
    and "send_errors f h = send_errors f h0"
  shows "\<exists>cs p out. chunks f h = chunks f h0 @ cs \<and> spec f h0 h cs p out \<and> sent_bytes f h @ pending c = sent_bytes f h0 @ out"
proof -
  have "session_rel spec f h0 c h live" using run_rel [OF assms(2,1), of h0] session_rel_new [of spec f h0 True] spec_start by simp
  with assms(3) show ?thesis by (auto simp: session_rel_def)
qed

end

definition server_serves :: "os \<Rightarrow> Router \<Rightarrow> fd \<Rightarrow> worker_fun" where
  "server_serves os router f c h c' act h' \<longleftrightarrow> serveConnection os router f c h = (c', act, h')"

interpretation server_sessions: session_system os "server_serves os router f" f "server_session router"
    "os_send_bounded os" for os router f
  by unfold_locales (auto simp: server_session_def server_serves_def server_session_grows intro: session_rel_serve)

lemma session_run:
  assumes "os_send_bounded os" "conn_run os (server_serves os router f) f (Connection_new (Socket_of f), h0, True) (c, h, live)"
    and "send_errors f h = send_errors f h0"
  shows "\<exists>cs. chunks f h = chunks f h0 @ cs \<and> sent_bytes f h @ pending c = sent_bytes f h0 @ snd (session_spec router cs)"
  using server_sessions.run_refines [OF assms] by (auto simp: server_session_def)

subsection \<open>Properties\<close>

text \<open>A kernel that delivers a text in two pieces and takes at most 60 bytes before it blocks, and the
  connection driven by events on it.\<close>

definition piece_os :: "string \<Rightarrow> string \<Rightarrow> os" where
  "piece_os a b h c = (case c of
      Sys_recv f n \<Rightarrow>
        (case length (chunks f h) of
           0 \<Rightarrow> (sys_result (int (length a)))\<lparr>sr_data := a\<rparr>
         | Suc 0 \<Rightarrow> (sys_result (int (length b)))\<lparr>sr_data := b\<rparr>
         | _ \<Rightarrow> sys_error EAGAIN)
    | Sys_send f d \<Rightarrow>
        (case h of
           (Sys_send g e, r) # _ \<Rightarrow> (if 0 < sr_ret r then sys_error EAGAIN else sys_result (min 60 (int (length d))))
         | _ \<Rightarrow> sys_result (min 60 (int (length d))))
    | _ \<Rightarrow> sys_result 0)"

lemma piece_os_send_bounded: "os_send_bounded (piece_os a b)"
  by (auto simp: os_send_bounded_def piece_os_def split: list.split syscall.split)

fun drive :: "os \<Rightarrow> Router \<Rightarrow> fd \<Rightarrow> nat \<Rightarrow> Connection \<times> history \<times> bool \<Rightarrow> Connection \<times> history \<times> bool" where
  "drive os router f (Suc n) (c, h, True) =
     (let (c', act, h') = serveConnection os router f c h in drive os router f n (c', h', act \<noteq> Close))"
| "drive os router f n a = a"

lemma conn_run_drive: "conn_run os (server_serves os router f) f a b \<Longrightarrow>
    conn_run os (server_serves os router f) f a (drive os router f n b)"
proof (induction os router f n b rule: drive.induct)
  case (1 os router f n c h)
  obtain c' act h' where s: "serveConnection os router f c h = (c', act, h')" by (metis prod_cases3)
  with 1 conn_run.serve [OF 1(2), of c' act h'] show ?case by (simp add: server_serves_def)
qed simp_all

definition short_request :: HttpRequest where
  "short_request = \<lparr>rq_method = ''GET'', rq_target = ''/'', rq_version = ''HTTP/1.1'', rq_headers = [], rq_body = [],
     rq_keepAlive = True\<rparr>"

definition demo_session :: "Connection \<times> history \<times> bool" where
  "demo_session =
     drive (piece_os ''GET / HT'' (''TP/1.1'' @ CRLF @ CRLF)) Router_new 4 2
       (Connection_new (Socket_of 4), [], True)"

lemma demo_session_errors: "send_errors 4 (fst (snd demo_session)) = 0"
  by code_simp

lemma demo_session_chunks: "chunks 4 (fst (snd demo_session)) = [''GET / HT'', ''TP/1.1'' @ CRLF @ CRLF]"
  by code_simp

lemma demo_session_run:
  obtains c h live where "demo_session = (c, h, live)" "send_errors 4 h = 0"
    "chunks 4 h = [''GET / HT'', ''TP/1.1'' @ CRLF @ CRLF]"
    "conn_run (piece_os ''GET / HT'' (''TP/1.1'' @ CRLF @ CRLF))
      (server_serves (piece_os ''GET / HT'' (''TP/1.1'' @ CRLF @ CRLF)) Router_new 4) 4 (Connection_new (Socket_of 4), [], True) (c, h, live)"
proof -
  obtain c h live where d: "demo_session = (c, h, live)" by (metis prod_cases3)
  have "conn_run (piece_os ''GET / HT'' (''TP/1.1'' @ CRLF @ CRLF))
      (server_serves (piece_os ''GET / HT'' (''TP/1.1'' @ CRLF @ CRLF)) Router_new 4) 4 (Connection_new (Socket_of 4), [], True) demo_session"
    unfolding demo_session_def by (rule conn_run_drive [OF conn_run.start])
  then show thesis by (rule that [OF d demo_session_errors [unfolded d fst_conv snd_conv]
        demo_session_chunks [unfolded d fst_conv snd_conv], unfolded d [symmetric]])
qed

text \<open>A connection refines its specification. Over any sequence of events, with partial
  writes, blocked sockets, resumed flushes and calls of other threads in between, the bytes sent
  to the client followed by the bytes still owed are those of the specification that reads the
  same pieces and answers each at once, as long as no send on the connection failed.\<close>

theorem session_refines:
  assumes "os_send_bounded os" "conn_run os (server_serves os router f) f (Connection_new (Socket_of f), h0, True) (c, h, live)"
    and "send_errors f h = send_errors f h0"
  shows "\<exists>cs. chunks f h = chunks f h0 @ cs \<and> sent_bytes f h @ pending c = sent_bytes f h0 @ snd (session_spec router cs)"
  using assms by (rule session_run)

theorem session_refines_witness:
  "\<exists>c h live cs. demo_session = (c, h, live) \<and> chunks 4 h = cs \<and> length cs = 2
     \<and> sent_bytes 4 h @ pending c = snd (session_spec Router_new cs)"
proof -
  obtain c h live where d: "demo_session = (c, h, live)" "send_errors 4 h = 0"
    "chunks 4 h = [''GET / HT'', ''TP/1.1'' @ CRLF @ CRLF]"
    "conn_run (piece_os ''GET / HT'' (''TP/1.1'' @ CRLF @ CRLF))
      (server_serves (piece_os ''GET / HT'' (''TP/1.1'' @ CRLF @ CRLF)) Router_new 4) 4 (Connection_new (Socket_of 4), [], True) (c, h, live)"
    by (rule demo_session_run)
  from session_refines [OF piece_os_send_bounded d(4)] d(2,3)
  have "sent_bytes 4 h @ pending c = snd (session_spec Router_new (chunks 4 h))" by auto
  moreover have "length (chunks 4 h) = 2" using d(3) by simp
  ultimately show ?thesis using d(1) by blast
qed

text \<open>C6: A conversation. When the pieces read on a connection are those of a list of well-formed
  requests, each cut in any way (a piece holds bytes of one request only), and no send to it
  failed, the client is sent (or owed) exactly the serialised answers of the router, one per request
  and in their order.\<close>

theorem session_replies:
  assumes "os_send_bounded os" "conn_run os (server_serves os router f) f (Connection_new (Socket_of f), h0, True) (c, h, live)"
    and "send_errors f h = send_errors f h0"
    and "chunks f h = chunks f h0 @ concat css" "list_all2 arrives css reqs"
  shows "sent_bytes f h @ pending c = sent_bytes f h0 @ concat (map (session_answer router \<circ> keep_flag) reqs)"
  using session_run [OF assms(1-3)] assms(4) session_requests [OF assms(5), of router "[]"]
  by (auto simp: session_spec_def)

theorem session_replies_witness:
  "\<exists>c h live. demo_session = (c, h, live)
     \<and> sent_bytes 4 h @ pending c = session_answer Router_new (keep_flag short_request)"
proof -
  let ?css = "[[''GET / HT'', ''TP/1.1'' @ CRLF @ CRLF]]"
  obtain c h live where d: "demo_session = (c, h, live)" "send_errors 4 h = 0"
    "chunks 4 h = [''GET / HT'', ''TP/1.1'' @ CRLF @ CRLF]"
    "conn_run (piece_os ''GET / HT'' (''TP/1.1'' @ CRLF @ CRLF))
      (server_serves (piece_os ''GET / HT'' (''TP/1.1'' @ CRLF @ CRLF)) Router_new 4) 4 (Connection_new (Socket_of 4), [], True) (c, h, live)"
    by (rule demo_session_run)
  have "arrives [''GET / HT'', ''TP/1.1'' @ CRLF @ CRLF] short_request" by code_simp
  then have "list_all2 arrives ?css [short_request]" by simp
  from session_replies [OF piece_os_send_bounded d(4) _ _ this] d(2,3)
  have "sent_bytes 4 h @ pending c = session_answer Router_new (keep_flag short_request)" by simp
  with d(1) show ?thesis by blast
qed

end
