(* ===== verification/Response_Reader.thy ===== *)
theory Response_Reader
  imports Parser_Roundtrip Socket
begin

section \<open>Reading a response from an upstream\<close>

text \<open>
  The receive loop that \<open>LoadBalancer::proxyRequest\<close> and \<open>HealthChecker::probeOnce\<close> share:
  bytes are handed to a response parser until it is done, rejects them, or the socket gives
  no more. Nothing bounds the number of calls, so the loop is a partial function: \<open>None\<close> is a
  loop that never returns. It returns whenever the socket eventually stops delivering.
\<close>

partial_function (option) recvResponse ::
    "os \<Rightarrow> fd \<Rightarrow> nat \<Rightarrow> HttpResponseParser \<Rightarrow> history \<Rightarrow> (HttpResponse option \<times> history) option" where
  "recvResponse os f sz p h =
     (case invoke os (Sys_recv f sz) h of (r, h1) \<Rightarrow>
        if sr_ret r \<le> 0 then Some (None, h1)
        else (case response_consume p (take (nat (sr_ret r)) (sr_data r)) of (status, p1) \<Rightarrow>
                if status = ParseComplete then Some (Some (r_resp p1), h1)
                else if status = ParseError then Some (None, h1)
                else recvResponse os f sz p1 h1))"

declare recvResponse.simps [code]

subsection \<open>What was received\<close>

fun received_by :: "fd \<Rightarrow> syscall \<times> sysres \<Rightarrow> string" where
  "received_by f (Sys_recv g n, r) = (if f = g \<and> 0 < sr_ret r then take (nat (sr_ret r)) (sr_data r) else [])"
| "received_by f _ = []"

primrec received :: "fd \<Rightarrow> history \<Rightarrow> string" where
  "received f [] = []"
| "received f (e # h) = received f h @ received_by f e"

text \<open>A run of calls that only reads from one descriptor.\<close>

definition only_recvs :: "fd \<Rightarrow> history \<Rightarrow> history \<Rightarrow> bool" where
  "only_recvs f h h' \<longleftrightarrow> (\<exists>k. h' = k @ h \<and> (\<forall>x \<in> set k. \<exists>n. fst x = Sys_recv f n))"

lemma only_recvs_Cons:
  "only_recvs f ((Sys_recv f n, r) # h) h' \<Longrightarrow> only_recvs f h h'"
proof -
  assume "only_recvs f ((Sys_recv f n, r) # h) h'"
  then obtain k where "h' = k @ (Sys_recv f n, r) # h" "\<forall>x \<in> set k. \<exists>n. fst x = Sys_recv f n"
    by (auto simp: only_recvs_def)
  then have "h' = (k @ [(Sys_recv f n, r)]) @ h"
    "\<forall>x \<in> set (k @ [(Sys_recv f n, r)]). \<exists>n. fst x = Sys_recv f n" by auto
  then show ?thesis unfolding only_recvs_def by blast
qed

lemma only_recvs_refl [simp]: "only_recvs f h h" "only_recvs f h ((Sys_recv f n, r) # h)"
  by (auto simp: only_recvs_def)

lemma only_recvs_keeps:
  assumes "only_recvs f h h'"
  shows "open_fds h' = open_fds h" "sent_bytes g h' = sent_bytes g h"
proof -
  have "\<forall>x \<in> set k. \<exists>n. fst x = Sys_recv f n \<Longrightarrow>
      open_fds (k @ h) = open_fds h \<and> sent_bytes g (k @ h) = sent_bytes g h" for k
  proof (induction k)
    case (Cons e k)
    then obtain n r where "e = (Sys_recv f n, r)" by (cases e) auto
    with Cons show ?case by simp
  qed simp
  with assms show "open_fds h' = open_fds h" "sent_bytes g h' = sent_bytes g h"
    by (auto simp: only_recvs_def)
qed

subsection \<open>The loop reads like the incremental parser\<close>

definition read_post :: "fd \<Rightarrow> HttpResponseParser \<Rightarrow> history \<Rightarrow> HttpResponse option \<times> history \<Rightarrow> bool" where
  "read_post f p h y = (case y of (res, h') \<Rightarrow> only_recvs f h h' \<and>
     (\<exists>cs. received f h' = received f h @ concat cs \<and> res = map_option r_resp (resp.read_loop p cs)))"

lemma recvResponse_read_post:
  assumes "recvResponse os f sz p h = Some y" shows "read_post f p h y"
proof (rule recvResponse.raw_induct [OF _ assms, of "\<lambda>os f sz p h y. read_post f p h y"], goal_cases)
  case (1 rec os f sz p h y)
  obtain res h' where y: "y = (res, h')" by (cases y)
  let ?r = "os h (Sys_recv f sz)"
  let ?h1 = "(Sys_recv f sz, ?r) # h"
  let ?d = "take (nat (sr_ret ?r)) (sr_data ?r)"
  obtain st p1 where c: "response_consume p ?d = (st, p1)" by fastforce
  show ?case
  proof (cases "sr_ret ?r \<le> 0")
    case True
    with 1(2) y show ?thesis by (auto simp: invoke_def read_post_def intro: exI [of _ "[]"])
  next
    case False
    then have rc: "received f ?h1 = received f h @ ?d" by simp
    show ?thesis
    proof (cases st)
      case NeedMoreData
      with False c 1(2) have "rec os f sz p1 ?h1 = Some y" by (simp add: invoke_def)
      from 1(1) [OF this] y obtain cs where "only_recvs f ?h1 h'"
        "received f h' = received f ?h1 @ concat cs" "res = map_option r_resp (resp.read_loop p1 cs)"
        by (auto simp: read_post_def)
      with rc c NeedMoreData have "received f h' = received f h @ concat (?d # cs)"
        "res = map_option r_resp (resp.read_loop p (?d # cs))" by simp_all
      with \<open>only_recvs f ?h1 h'\<close> show ?thesis using only_recvs_Cons y
        unfolding read_post_def by blast
    next
      case ParseComplete
      with False c 1(2) y have "res = Some (r_resp p1)" "h' = ?h1" by (auto simp: invoke_def)
      with rc c y ParseComplete show ?thesis by (auto simp: read_post_def intro!: exI [of _ "[?d]"])
    next
      case ParseError
      with False c 1(2) y have "res = None" "h' = ?h1" by (auto simp: invoke_def)
      with rc c y ParseError show ?thesis by (auto simp: read_post_def intro!: exI [of _ "[?d]"])
    qed
  qed
qed


subsection \<open>The loop returns\<close>

text \<open>The history after a number of reads, the data they delivered, and that all did.\<close>

fun recv_after :: "os \<Rightarrow> fd \<Rightarrow> nat \<Rightarrow> nat \<Rightarrow> history \<Rightarrow> history" where
  "recv_after os f sz 0 h = h"
| "recv_after os f sz (Suc k) h = recv_after os f sz k ((Sys_recv f sz, os h (Sys_recv f sz)) # h)"

fun recv_chunks :: "os \<Rightarrow> fd \<Rightarrow> nat \<Rightarrow> nat \<Rightarrow> history \<Rightarrow> string list" where
  "recv_chunks os f sz 0 h = []"
| "recv_chunks os f sz (Suc k) h =
     take (nat (sr_ret (os h (Sys_recv f sz)))) (sr_data (os h (Sys_recv f sz)))
     # recv_chunks os f sz k ((Sys_recv f sz, os h (Sys_recv f sz)) # h)"

fun recv_pos :: "os \<Rightarrow> fd \<Rightarrow> nat \<Rightarrow> nat \<Rightarrow> history \<Rightarrow> bool" where
  "recv_pos os f sz 0 h = True"
| "recv_pos os f sz (Suc k) h \<longleftrightarrow>
     0 < sr_ret (os h (Sys_recv f sz)) \<and> recv_pos os f sz k ((Sys_recv f sz, os h (Sys_recv f sz)) # h)"

lemma recvResponse_returns:
  assumes "sr_ret (os (recv_after os f sz k h) (Sys_recv f sz)) \<le> 0"
  shows "\<exists>y. recvResponse os f sz p h = Some y"
  using assms
proof (induction k arbitrary: h p)
  case 0
  then show ?case by (subst recvResponse.simps) (simp add: invoke_def)
next
  case (Suc k)
  then show ?case
    by (subst recvResponse.simps) (auto simp: invoke_def split: prod.splits)
qed

lemma recvResponse_chunks:
  assumes "recv_pos os f sz k h" "resp.read_loop p (recv_chunks os f sz k h) = Some q"
  shows "\<exists>h'. recvResponse os f sz p h = Some (Some (r_resp q), h')"
  using assms
proof (induction k arbitrary: h p)
  case 0
  then show ?case by simp
next
  case (Suc k)
  then show ?case
    by (subst recvResponse.simps) (auto simp: invoke_def split: prod.splits ParseStatus.splits)
qed

text \<open>An upstream that answers with the text of a response is understood, however the text is cut.\<close>

lemma response_new_waits: "fst (response_process HttpResponseParser_new) = NeedMoreData"
  by code_simp

lemma recvResponse_text:
  assumes "wf_response r" "recv_pos os f sz k h" "concat (recv_chunks os f sz k h) = serialize r @ rest"
  shows "\<exists>h'. recvResponse os f sz HttpResponseParser_new h =
     Some (Some (r\<lparr>rs_headers := printed_headers r,
            rs_keepAlive := connectionKeepAlive (printed_headers r) ''HTTP/1.1''\<rparr>), h')"
proof -
  let ?cs = "recv_chunks os f sz k h"
  have c: "response_consume HttpResponseParser_new (concat ?cs) =
     (ParseComplete, \<lparr>r_state = RComplete, r_buffer = rest, r_bodyBytesNeeded = length (rs_body r),
        r_resp = r\<lparr>rs_headers := printed_headers r,
          rs_keepAlive := connectionKeepAlive (printed_headers r) ''HTTP/1.1''\<rparr>\<rparr>)"
    unfolding assms(3) by (rule response_consume_text [OF assms(1)])
  then obtain q where q: "resp.read_loop HttpResponseParser_new ?cs = Some q"
    using resp.read_loop_None [OF _ response_new_waits, of ?cs] by fastforce
  from resp.read_loop_Some [OF q] c obtain rest'
    where "response_push q rest' = \<lparr>r_state = RComplete, r_buffer = rest, r_bodyBytesNeeded = length (rs_body r),
        r_resp = r\<lparr>rs_headers := printed_headers r,
          rs_keepAlive := connectionKeepAlive (printed_headers r) ''HTTP/1.1''\<rparr>\<rparr>" by auto
  then have "r_resp q = r\<lparr>rs_headers := printed_headers r,
      rs_keepAlive := connectionKeepAlive (printed_headers r) ''HTTP/1.1''\<rparr>"
    by (cases q) (simp add: response_push_def)
  with recvResponse_chunks [OF assms(2) q] show ?thesis by simp
qed

end
