(* ===== verification/Upstream_Pool.thy ===== *)
theory Upstream_Pool
  imports Prelude "HOL-Library.Multiset"
begin

section \<open>The upstream pool\<close>

text \<open>
  \<open>lb::UpstreamPool\<close>: a fixed list of upstreams with a health flag each, and a 64-bit
  round-robin counter that wraps. A pointer to an upstream is its index in the list,
  \<open>None\<close> is \<open>nullptr\<close>.
\<close>

record Upstream =
  u_host :: string
  u_port :: u16
  u_healthy :: bool

definition Upstream_new :: "string \<Rightarrow> u16 \<Rightarrow> Upstream" where
  "Upstream_new h p = \<lparr>u_host = h, u_port = p, u_healthy = True\<rparr>"

record UpstreamPool =
  up_upstreams :: "Upstream list"
  up_nextIndex :: size_t

definition UpstreamPool_new :: "(string \<times> u16) list \<Rightarrow> UpstreamPool" where
  "UpstreamPool_new targets =
     \<lparr>up_upstreams = map (\<lambda>(host, port). Upstream_new host port) targets, up_nextIndex = 0\<rparr>"

text \<open>Moving a pool keeps the upstreams and restarts the counter.\<close>

definition UpstreamPool_move :: "UpstreamPool \<Rightarrow> UpstreamPool" where
  "UpstreamPool_move other = \<lparr>up_upstreams = up_upstreams other, up_nextIndex = 0\<rparr>"

function pick_loop :: "Upstream list \<Rightarrow> nat \<Rightarrow> nat \<Rightarrow> nat \<Rightarrow> nat option" where
  "pick_loop us start cnt i =
     (if i < cnt
      then (let j = (start + i) mod cnt
            in if u_healthy (us ! j) then Some j else pick_loop us start cnt (Suc i))
      else None)"
  by pat_completeness auto
termination by (relation "measure (\<lambda>(us, start, cnt, i). cnt - i)") auto

declare pick_loop.simps [simp del]

definition pickNext :: "UpstreamPool \<Rightarrow> nat option \<times> UpstreamPool" where
  "pickNext p =
     (let cnt = length (up_upstreams p)
      in if cnt = 0 then (None, p)
         else (let start = unat (up_nextIndex p) mod cnt;
                   p' = p\<lparr>up_nextIndex := up_nextIndex p + 1\<rparr>
               in (pick_loop (up_upstreams p) start cnt 0, p')))"

definition set_healthy :: "nat \<Rightarrow> bool \<Rightarrow> UpstreamPool \<Rightarrow> UpstreamPool" where
  "set_healthy i b p = p\<lparr>up_upstreams := (up_upstreams p)[i := (up_upstreams p ! i)\<lparr>u_healthy := b\<rparr>]\<rparr>"

subsection \<open>What the scan finds\<close>

lemma pick_loop_Some:
  "pick_loop us start cnt i = Some j \<Longrightarrow>
     \<exists>k. i \<le> k \<and> k < cnt \<and> j = (start + k) mod cnt \<and> u_healthy (us ! j)
       \<and> (\<forall>m. i \<le> m \<and> m < k \<longrightarrow> \<not> u_healthy (us ! ((start + m) mod cnt)))"
proof (induction us start cnt i rule: pick_loop.induct)
  case (1 us start cnt i)
  show ?case
  proof (cases "i < cnt \<and> \<not> u_healthy (us ! ((start + i) mod cnt))")
    case True
    with "1.prems" have "pick_loop us start cnt (Suc i) = Some j"
      by (simp add: pick_loop.simps [of us start cnt i] Let_def)
    with True "1.IH" obtain k where "Suc i \<le> k" "k < cnt" "j = (start + k) mod cnt"
      "u_healthy (us ! j)" "\<forall>m. Suc i \<le> m \<and> m < k \<longrightarrow> \<not> u_healthy (us ! ((start + m) mod cnt))"
      by blast
    with True show ?thesis by (intro exI [of _ k]) (metis Suc_leD not_less_eq_eq le_antisym)
  next
    case False
    with "1.prems" have "i < cnt" "j = (start + i) mod cnt" "u_healthy (us ! j)"
      by (auto simp: pick_loop.simps [of us start cnt i] Let_def split: if_splits)
    then show ?thesis by auto
  qed
qed

lemma pick_loop_None:
  "pick_loop us start cnt i = None \<Longrightarrow> i \<le> m \<Longrightarrow> m < cnt \<Longrightarrow>
     \<not> u_healthy (us ! ((start + m) mod cnt))"
proof (induction us start cnt i rule: pick_loop.induct)
  case (1 us start cnt i)
  then have i: "i < cnt" by simp
  from "1.prems"(1) i have h: "\<not> u_healthy (us ! ((start + i) mod cnt))"
    "pick_loop us start cnt (Suc i) = None"
    by (auto simp: pick_loop.simps [of us start cnt i] Let_def split: if_splits)
  show ?case
  proof (cases "m = i")
    case True
    with h show ?thesis by simp
  next
    case False
    with 1 i h show ?thesis by (simp add: Suc_leI)
  qed
qed

lemma mod_onto:
  assumes "j < n" "s < (n::nat)"
  shows "\<exists>m < n. (s + m) mod n = j"
proof (cases "s \<le> j")
  case True
  with assms show ?thesis by (intro exI [of _ "j - s"]) auto
next
  case False
  with assms have "s + (n - s + j) = j + n" by simp
  then have "(s + (n - s + j)) mod n = j" using assms by (metis mod_add_self2 mod_less)
  with False assms show ?thesis by (intro exI [of _ "n - s + j"]) auto
qed

lemma pickNext_upstreams [simp]: "up_upstreams (snd (pickNext p)) = up_upstreams p"
  by (simp add: pickNext_def Let_def)

lemma pickNext_None_iff:
  "fst (pickNext p) = None \<longleftrightarrow> (\<forall>j < length (up_upstreams p). \<not> u_healthy (up_upstreams p ! j))"
proof (cases "up_upstreams p = []")
  case True
  then show ?thesis by (simp add: pickNext_def)
next
  case False
  let ?us = "up_upstreams p" and ?n = "length (up_upstreams p)"
  let ?s = "unat (up_nextIndex p) mod ?n"
  have f: "fst (pickNext p) = pick_loop ?us ?s ?n 0" using False by (simp add: pickNext_def Let_def)
  have s: "?s < ?n" using False by simp
  show ?thesis
  proof
    assume n: "fst (pickNext p) = None"
    show "\<forall>j < ?n. \<not> u_healthy (?us ! j)"
    proof (intro allI impI)
      fix j assume "j < ?n"
      from mod_onto [OF this s] obtain m where "m < ?n" "(?s + m) mod ?n = j" by blast
      with pick_loop_None [of ?us ?s ?n 0 m] n f show "\<not> u_healthy (?us ! j)" by auto
    qed
  next
    assume a: "\<forall>j < ?n. \<not> u_healthy (?us ! j)"
    show "fst (pickNext p) = None"
    proof (rule ccontr)
      assume "fst (pickNext p) \<noteq> None"
      with f obtain j where "pick_loop ?us ?s ?n 0 = Some j" by auto
      from pick_loop_Some [OF this] False have "j < ?n" "u_healthy (?us ! j)" by auto
      with a show False by blast
    qed
  qed
qed

lemma pickNext_Some:
  assumes "fst (pickNext p) = Some j"
  shows "j < length (up_upstreams p) \<and> u_healthy (up_upstreams p ! j)"
proof -
  let ?n = "length (up_upstreams p)"
  have ne: "up_upstreams p \<noteq> []" using assms by (auto simp: pickNext_def)
  with assms have "pick_loop (up_upstreams p) (unat (up_nextIndex p) mod ?n) ?n 0 = Some j"
    by (simp add: pickNext_def Let_def)
  from pick_loop_Some [OF this] show ?thesis using ne by auto
qed

subsection \<open>Sequences of picks\<close>

primrec pick_seq :: "nat \<Rightarrow> UpstreamPool \<Rightarrow> nat option list" where
  "pick_seq 0 p = []"
| "pick_seq (Suc n) p = fst (pickNext p) # pick_seq n (snd (pickNext p))"

definition all_healthy :: "UpstreamPool \<Rightarrow> bool" where
  "all_healthy p \<longleftrightarrow> (\<forall>u \<in> set (up_upstreams p). u_healthy u)"

lemma pickNext_all_healthy:
  assumes "all_healthy p" "up_upstreams p \<noteq> []"
  shows "fst (pickNext p) = Some (unat (up_nextIndex p) mod length (up_upstreams p))"
proof -
  let ?j = "unat (up_nextIndex p) mod length (up_upstreams p)"
  have "u_healthy (up_upstreams p ! ?j)" using assms by (simp add: all_healthy_def)
  with assms(2) show ?thesis
    by (simp add: pickNext_def Let_def pick_loop.simps [of _ _ _ 0])
qed

lemma pick_seq_all_healthy:
  assumes "all_healthy p" "up_upstreams p \<noteq> []" "unat (up_nextIndex p) + k \<le> 2 ^ 64"
  shows "pick_seq k p =
     map (\<lambda>i. Some ((unat (up_nextIndex p) + i) mod length (up_upstreams p))) [0..<k]"
  using assms
proof (induction k arbitrary: p)
  case 0
  then show ?case by simp
next
  case (Suc k)
  let ?q = "snd (pickNext p)"
  show ?case
  proof (cases "k = 0")
    case True
    with Suc show ?thesis by (simp add: pickNext_all_healthy)
  next
    case False
    have "up_nextIndex ?q = up_nextIndex p + 1" using Suc.prems by (simp add: pickNext_def Let_def)
    moreover have "unat (up_nextIndex p + 1) = unat (up_nextIndex p) + 1"
      using Suc.prems False by (subst unat_word_ariths) (simp add: mod_less)
    ultimately have u: "unat (up_nextIndex ?q) = unat (up_nextIndex p) + 1" by simp
    have h: "all_healthy ?q" using Suc.prems by (simp add: all_healthy_def)
    have "pick_seq k ?q = map (\<lambda>i. Some ((unat (up_nextIndex ?q) + i) mod length (up_upstreams ?q))) [0..<k]"
      using Suc.prems u h by (intro Suc.IH) auto
    then have "pick_seq k ?q = map (\<lambda>i. Some ((unat (up_nextIndex p) + i) mod length (up_upstreams p))) [1..<Suc k]"
      by (simp add: u map_Suc_upt [symmetric] del: upt_Suc)
    with Suc.prems show ?thesis
      by (simp add: pickNext_all_healthy upt_rec [of 0 "Suc k"] del: upt_Suc)
  qed
qed

lemma mset_mod_window:
  assumes "0 < (n::nat)"
  shows "mset (map (\<lambda>i. (s + i) mod n) [0..<n]) = mset [0..<n]"
proof -
  let ?f = "\<lambda>i. (s + i) mod n"
  have sub: "?f ` {0..<n} \<subseteq> {0..<n}" using assms by auto
  have "{0..<n} \<subseteq> ?f ` {0..<n}"
  proof
    fix j assume "j \<in> {0..<n}"
    then obtain m where "m < n" "(s mod n + m) mod n = j"
      using mod_onto [of j n "s mod n"] assms by auto
    then show "j \<in> ?f ` {0..<n}" by (auto simp: mod_add_left_eq intro!: image_eqI [of _ _ m])
  qed
  with sub have im: "?f ` {0..<n} = {0..<n}" by blast
  then have inj: "inj_on ?f {0..<n}" by (intro eq_card_imp_inj_on) auto
  note im
  moreover have "distinct (map ?f [0..<n])" using inj by (simp add: distinct_map)
  ultimately show ?thesis by (intro set_eq_iff_mset_eq_distinct [THEN iffD1]) auto
qed

lemma count_mset_Some: "count (image_mset Some M) (Some j) = count M j"
  by (induction M) auto

lemma count_mod_windows:
  assumes "j < (n::nat)"
  shows "count (mset (map (\<lambda>i. (s + i) mod n) [0..<m * n])) j = m"
proof (induction m)
  case 0
  then show ?case by simp
next
  case (Suc m)
  have "[0..<Suc m * n] = [0..<m * n] @ map (\<lambda>i. i + m * n) [0..<n]"
    using upt_add_eq_append [of 0 "m * n" n] by (simp add: map_add_upt add.commute)
  moreover have "(s + (i + m * n)) mod n = (s + i) mod n" for i
    by (metis add.assoc mod_mult_self3 add.commute)
  ultimately have "mset (map (\<lambda>i. (s + i) mod n) [0..<Suc m * n]) =
      mset (map (\<lambda>i. (s + i) mod n) [0..<m * n]) + mset (map (\<lambda>i. (s + i) mod n) [0..<n])"
    by (simp add: comp_def)
  moreover have "count (mset [0..<n]) j = 1" using assms by (simp add: count_mset_0_iff distinct_count_atmost_1)
  ultimately show ?case using Suc mset_mod_window [of n s] assms by simp
qed

subsection \<open>What the load balancer relies on\<close>

text \<open>
  The interface of the pool as its client sees it: picking does not touch the upstreams, a
  pick is a healthy upstream, and no pick means that there is none.
\<close>

locale upstream_selector =
  fixes pick :: "'p \<Rightarrow> nat option \<times> 'p"
    and upstreams :: "'p \<Rightarrow> Upstream list"
  assumes pick_frame: "upstreams (snd (pick p)) = upstreams p"
    and pick_healthy: "fst (pick p) = Some j \<Longrightarrow> j < length (upstreams p) \<and> u_healthy (upstreams p ! j)"
    and pick_none: "fst (pick p) = None \<Longrightarrow> j < length (upstreams p) \<Longrightarrow> \<not> u_healthy (upstreams p ! j)"
begin

primrec picks :: "nat \<Rightarrow> 'p \<Rightarrow> nat option list" where
  "picks 0 p = []"
| "picks (Suc n) p = fst (pick p) # picks n (snd (pick p))"

lemma picks_healthy:
  "Some j \<in> set (picks n p) \<Longrightarrow> j < length (upstreams p) \<and> u_healthy (upstreams p ! j)"
proof (induction n arbitrary: p)
  case 0
  then show ?case by simp
next
  case (Suc n)
  then show ?case using pick_healthy [of p j] pick_frame [of p] by fastforce
qed

text \<open>While one upstream is healthy, every pick succeeds.\<close>

lemma picks_available:
  "j < length (upstreams p) \<Longrightarrow> u_healthy (upstreams p ! j) \<Longrightarrow> None \<notin> set (picks n p)"
proof (induction n arbitrary: p)
  case 0
  then show ?case by simp
next
  case (Suc n)
  then have "fst (pick p) \<noteq> None" using pick_none by blast
  with Suc pick_frame [of p] show ?case by auto
qed

end

interpretation pool: upstream_selector pickNext up_upstreams
  by unfold_locales (use pickNext_Some pickNext_None_iff in auto)

lemma picks_pick_seq: "pool.picks n p = pick_seq n p"
  by (induction n arbitrary: p) simp_all

subsection \<open>Properties\<close>

text \<open>C10: \<open>pickNext\<close> returns the first healthy upstream in cyclic order from the position of the
  round-robin counter, and \<open>nullptr\<close> exactly when no upstream is healthy.\<close>

theorem pickNext_first_healthy:
  "(fst (pickNext p) = None \<longleftrightarrow> \<not> list_ex u_healthy (up_upstreams p))
   \<and> (fst (pickNext p) = Some j \<longrightarrow>
        (\<exists>k < length (up_upstreams p).
           j = (unat (up_nextIndex p) + k) mod length (up_upstreams p)
           \<and> u_healthy (up_upstreams p ! j)
           \<and> (\<forall>m < k. \<not> u_healthy (up_upstreams p ! ((unat (up_nextIndex p) + m) mod length (up_upstreams p))))))"
proof
  show "fst (pickNext p) = None \<longleftrightarrow> \<not> list_ex u_healthy (up_upstreams p)"
    by (simp add: pickNext_None_iff list_ex_length)
next
  show "fst (pickNext p) = Some j \<longrightarrow>
        (\<exists>k < length (up_upstreams p).
           j = (unat (up_nextIndex p) + k) mod length (up_upstreams p)
           \<and> u_healthy (up_upstreams p ! j)
           \<and> (\<forall>m < k. \<not> u_healthy (up_upstreams p ! ((unat (up_nextIndex p) + m) mod length (up_upstreams p)))))"
  proof
    assume a: "fst (pickNext p) = Some j"
    let ?n = "length (up_upstreams p)"
    have "up_upstreams p \<noteq> []" using a by (auto simp: pickNext_def)
    with a have "pick_loop (up_upstreams p) (unat (up_nextIndex p) mod ?n) ?n 0 = Some j"
      by (simp add: pickNext_def Let_def)
    from pick_loop_Some [OF this] show "\<exists>k < ?n. j = (unat (up_nextIndex p) + k) mod ?n
        \<and> u_healthy (up_upstreams p ! j)
        \<and> (\<forall>m < k. \<not> u_healthy (up_upstreams p ! ((unat (up_nextIndex p) + m) mod ?n)))"
      by (simp add: mod_add_left_eq)
  qed
qed

definition demo_pool :: UpstreamPool where
  "demo_pool =
     UpstreamPool_new [(''127.0.0.1'', 9001), (''127.0.0.1'', 9002), (''127.0.0.1'', 9003)]"

theorem pickNext_first_healthy_witness:
  "fst (pickNext (set_healthy 0 False demo_pool)) = Some 1
   \<and> u_healthy (up_upstreams (set_healthy 0 False demo_pool) ! 1)"
proof -
  have "fst (pickNext (set_healthy 0 False demo_pool)) = Some 1" by code_simp
  with pickNext_first_healthy [of "set_healthy 0 False demo_pool" 1] show ?thesis by blast
qed

text \<open>C22: Round robin is fair: while all upstreams are healthy and the 64-bit counter does not
  wrap, \<open>m\<close> rounds of picks select each upstream exactly \<open>m\<close> times, wherever the counter
  stands.\<close>

theorem round_robin_fair:
  assumes "all_healthy p"
    and "unat (up_nextIndex p) + m * length (up_upstreams p) \<le> 2 ^ 64"
    and "j < length (up_upstreams p)"
  shows "count (mset (pick_seq (m * length (up_upstreams p)) p)) (Some j) = m"
proof -
  let ?n = "length (up_upstreams p)" and ?s = "unat (up_nextIndex p)"
  have ne: "up_upstreams p \<noteq> []" using assms(3) by auto
  have "pick_seq (m * ?n) p = map Some (map (\<lambda>i. (?s + i) mod ?n) [0..<m * ?n])"
    using pick_seq_all_healthy [OF assms(1) ne assms(2)] by simp
  then have "mset (pick_seq (m * ?n) p) = image_mset Some (mset (map (\<lambda>i. (?s + i) mod ?n) [0..<m * ?n]))"
    by (simp only: mset_map)
  then show ?thesis
    using count_mod_windows [OF assms(3), of ?s m]
    by (simp add: count_mset_Some del: mset_map mset_upt)
qed

theorem round_robin_fair_witness:
  "count (mset (pick_seq (2 * length (up_upstreams demo_pool)) demo_pool)) (Some 1) = 2"
proof -
  have a: "all_healthy demo_pool" by code_simp
  have b: "unat (up_nextIndex demo_pool) + 2 * length (up_upstreams demo_pool) \<le> 2 ^ 64"
    "1 < length (up_upstreams demo_pool)"
    by (simp_all add: demo_pool_def UpstreamPool_new_def)
  show ?thesis by (rule round_robin_fair [OF a b])
qed

text \<open>C34: When all upstreams are healthy and the counter wraps at the largest 64-bit value the rotation restarts at the first
  upstream: unless the number of upstreams divides \<open>2 ^ 64\<close>, the upstream whose turn it was is
  skipped.\<close>

theorem round_robin_wrap:
  assumes "all_healthy p" "up_upstreams p \<noteq> []" "up_nextIndex p = - 1"
  shows "pick_seq 2 p = [Some ((2 ^ 64 - 1) mod length (up_upstreams p)), Some 0]"
proof -
  have u: "unat (- 1 :: size_t) = 2 ^ 64 - 1"
    by (simp add: unsigned_minus_1_eq_mask mask_eq_exp_minus_1)
  let ?q = "snd (pickNext p)"
  have q: "all_healthy ?q" "up_upstreams ?q \<noteq> []" "up_nextIndex ?q = 0"
    using assms by (simp_all add: all_healthy_def) (simp add: pickNext_def Let_def)
  have "pick_seq 2 p = [fst (pickNext p), fst (pickNext ?q)]" by (simp add: numeral_2_eq_2)
  with pickNext_all_healthy [OF assms(1,2)] pickNext_all_healthy [OF q(1,2)] q(3) assms(3) u
  show ?thesis by simp
qed

theorem round_robin_wrap_witness:
  "pick_seq 2 (demo_pool\<lparr>up_nextIndex := - 1\<rparr>) = [Some 0, Some 0]"
proof -
  have a: "all_healthy (demo_pool\<lparr>up_nextIndex := - 1\<rparr>)"
    "up_upstreams (demo_pool\<lparr>up_nextIndex := - 1\<rparr>) \<noteq> []"
    "up_nextIndex (demo_pool\<lparr>up_nextIndex := - 1\<rparr>) = - 1"
    by (simp_all add: demo_pool_def UpstreamPool_new_def all_healthy_def Upstream_new_def)
  have "length (up_upstreams (demo_pool\<lparr>up_nextIndex := - 1\<rparr>)) = 3"
    by (simp add: demo_pool_def UpstreamPool_new_def)
  with round_robin_wrap [OF a] show ?thesis by simp
qed

text \<open>However many requests are routed while the health flags stand still, every selected
  upstream is a healthy one of the list, and one healthy upstream suffices for every selection
  to succeed.\<close>

theorem picks_only_healthy:
  "(Some j \<in> set (pick_seq n p) \<longrightarrow> j < length (up_upstreams p) \<and> u_healthy (up_upstreams p ! j))
   \<and> (list_ex u_healthy (up_upstreams p) \<longrightarrow> None \<notin> set (pick_seq n p))"
  using pool.picks_healthy [of j n p] pool.picks_available [of _ p n]
  by (auto simp: picks_pick_seq list_ex_length)

theorem picks_only_healthy_witness:
  "None \<notin> set (pick_seq 5 (set_healthy 1 False demo_pool))"
proof -
  have "list_ex u_healthy (up_upstreams (set_healthy 1 False demo_pool))" by code_simp
  with picks_only_healthy [of 0 5 "set_healthy 1 False demo_pool"] show ?thesis by blast
qed

end
