(* ===== verification/Health_Checker.thy ===== *)
theory Health_Checker
  imports Response_Reader Upstream_Pool
begin

section \<open>Health checks\<close>

text \<open>
  \<open>lb::HealthChecker\<close>: one probe asks an upstream for \<open>/health\<close> and wants status 200; a round
  probes every upstream in order and stores the result in its flag. The thread object is
  modelled by whether it is joinable; starting a second thread on a joinable one is the
  \<open>std::terminate\<close> of the C++ library.
\<close>

record HealthChecker =
  hc_intervalMs :: int
  hc_running :: bool
  hc_joinable :: bool

datatype terminate = Terminate

definition HealthChecker_new :: "int \<Rightarrow> HealthChecker" where
  "HealthChecker_new intervalMs = \<lparr>hc_intervalMs = intervalMs, hc_running = False, hc_joinable = False\<rparr>"

definition HealthChecker_start :: "HealthChecker \<Rightarrow> terminate + HealthChecker" where
  "HealthChecker_start hc =
     (if hc_joinable hc then Inl Terminate else Inr (hc\<lparr>hc_running := True, hc_joinable := True\<rparr>))"

definition HealthChecker_stop :: "HealthChecker \<Rightarrow> HealthChecker" where
  "HealthChecker_stop hc =
     (let hc = hc\<lparr>hc_running := False\<rparr> in (if hc_joinable hc then hc\<lparr>hc_joinable := False\<rparr> else hc))"

definition kRequest :: string where
  "kRequest = ''GET /health HTTP/1.1'' @ CRLF @ ''Host: healthcheck'' @ CRLF @ ''Connection: close'' @ CRLF @ CRLF"

definition probeOnce :: "os \<Rightarrow> Upstream \<Rightarrow> history \<Rightarrow> (bool \<times> history) option" where
  "probeOnce os u h =
     (let (r, h1) = invoke os Sys_socket h; f = sr_ret r
      in if f < 0 then Some (False, h1)
         else
           (let (_, h2) = invoke os (Sys_setsockopt f (SO_RCVTIMEO 0 500000)) h1;
                (_, h3) = invoke os (Sys_setsockopt f (SO_SNDTIMEO 0 500000)) h2;
                (r4, h4) = invoke os (Sys_inet_pton (u_host u)) h3
            in if sr_ret r4 \<noteq> 1 then Some (False, snd (invoke os (Sys_close f) h4))
               else
                 (let (r5, h5) = invoke os (Sys_connect f (u_host u) (u_port u)) h4
                  in if sr_ret r5 \<noteq> 0 then Some (False, snd (invoke os (Sys_close f) h5))
                     else
                       (let (r6, h6) = invoke os (Sys_send f kRequest) h5
                        in if sr_ret r6 < 0 then Some (False, snd (invoke os (Sys_close f) h6))
                           else (case recvResponse os f 2048 HttpResponseParser_new h6 of
                                   None \<Rightarrow> None
                                 | Some (res, h7) \<Rightarrow>
                                     (let ok = (case res of None \<Rightarrow> False | Some resp \<Rightarrow> rs_status resp = 200)
                                      in Some (ok, snd (invoke os (Sys_close f) h7))))))))"

text \<open>The body of the loop over the upstreams, from an index on: probe and exchange the flag.\<close>

fun probeFrom :: "os \<Rightarrow> nat list \<Rightarrow> UpstreamPool \<Rightarrow> history \<Rightarrow> (UpstreamPool \<times> history) option" where
  "probeFrom os [] pool h = Some (pool, h)"
| "probeFrom os (i # is) pool h =
     (case probeOnce os (up_upstreams pool ! i) h of
        None \<Rightarrow> None
      | Some (ok, h1) \<Rightarrow> probeFrom os is (set_healthy i ok pool) h1)"

definition probeRound :: "os \<Rightarrow> UpstreamPool \<Rightarrow> history \<Rightarrow> (UpstreamPool \<times> history) option" where
  "probeRound os pool h = probeFrom os [0..<length (up_upstreams pool)] pool h"

text \<open>\<open>loop\<close>: rounds until the flag that another thread clears is found cleared; \<open>flags\<close> are the
  values that \<open>running_\<close> has at the successive tests.\<close>

fun healthLoop :: "os \<Rightarrow> bool list \<Rightarrow> UpstreamPool \<Rightarrow> history \<Rightarrow> (UpstreamPool \<times> history) option" where
  "healthLoop os [] pool h = Some (pool, h)"
| "healthLoop os (running # flags) pool h =
     (if running
      then (case probeRound os pool h of None \<Rightarrow> None | Some (pool1, h1) \<Rightarrow> healthLoop os flags pool1 h1)
      else Some (pool, h))"

subsection \<open>One probe\<close>

text \<open>The calls of a probe before its first read, with their results.\<close>

definition probe_calls ::
    "os \<Rightarrow> Upstream \<Rightarrow> history \<Rightarrow> fd \<Rightarrow> history \<Rightarrow> sysres \<times> history \<Rightarrow> sysres \<times> history \<Rightarrow> sysres \<times> history \<Rightarrow> bool" where
  "probe_calls os u h f h3 x4 x5 x6 \<longleftrightarrow>
     (\<exists>r h1 r2 h2 r3. invoke os Sys_socket h = (r, h1) \<and> f = sr_ret r
        \<and> invoke os (Sys_setsockopt f (SO_RCVTIMEO 0 500000)) h1 = (r2, h2)
        \<and> invoke os (Sys_setsockopt f (SO_SNDTIMEO 0 500000)) h2 = (r3, h3)
        \<and> invoke os (Sys_inet_pton (u_host u)) h3 = x4
        \<and> invoke os (Sys_connect f (u_host u) (u_port u)) (snd x4) = x5
        \<and> invoke os (Sys_send f kRequest) (snd x5) = x6)"

lemma probe_calls_ex: "\<exists>f h3 r4 h4 r5 h5 r6 h6. probe_calls os u h f h3 (r4, h4) (r5, h5) (r6, h6)"
  unfolding probe_calls_def by (simp add: invoke_def)

lemma probe_calls_fd: "probe_calls os u h f h3 x4 x5 x6 \<Longrightarrow> f = sr_ret (os h Sys_socket)"
  by (auto simp: probe_calls_def dest: invoke_result)

lemma probeOnce_calls:
  assumes "probe_calls os u h f h3 (r4, h4) (r5, h5) (r6, h6)"
  shows "probeOnce os u h =
    (if f < 0 then Some (False, (Sys_socket, os h Sys_socket) # h)
     else if sr_ret r4 \<noteq> 1 then Some (False, snd (invoke os (Sys_close f) h4))
     else if sr_ret r5 \<noteq> 0 then Some (False, snd (invoke os (Sys_close f) h5))
     else if sr_ret r6 < 0 then Some (False, snd (invoke os (Sys_close f) h6))
     else (case recvResponse os f 2048 HttpResponseParser_new h6 of
             None \<Rightarrow> None
           | Some (res, h7) \<Rightarrow>
               Some ((case res of None \<Rightarrow> False | Some resp \<Rightarrow> rs_status resp = 200),
                     snd (invoke os (Sys_close f) h7))))"
proof -
  from assms obtain r h1 r2 h2 r3 where c: "invoke os Sys_socket h = (r, h1)" "f = sr_ret r"
    "invoke os (Sys_setsockopt f (SO_RCVTIMEO 0 500000)) h1 = (r2, h2)"
    "invoke os (Sys_setsockopt f (SO_SNDTIMEO 0 500000)) h2 = (r3, h3)"
    "invoke os (Sys_inet_pton (u_host u)) h3 = (r4, h4)"
    "invoke os (Sys_connect f (u_host u) (u_port u)) h4 = (r5, h5)"
    "invoke os (Sys_send f kRequest) h5 = (r6, h6)"
    unfolding probe_calls_def by auto
  have h1: "h1 = (Sys_socket, os h Sys_socket) # h" using invoke_result [OF c(1)] by simp
  show ?thesis
    unfolding probeOnce_def Let_def c(1) prod.case c(2) [symmetric]
    unfolding c(3) prod.case c(4) c(5) c(6) c(7)
    unfolding h1 by simp
qed

lemma probe_calls_open:
  assumes "probe_calls os u h f h3 (r4, h4) (r5, h5) (r6, h6)" "0 \<le> f"
  shows "open_fds h4 = insert f (open_fds h) \<and> open_fds h5 = insert f (open_fds h)
    \<and> open_fds h6 = insert f (open_fds h)"
  using assms unfolding probe_calls_def by (auto dest!: invoke_open)

lemma probeOnce_open:
  assumes "os_fresh os" "probeOnce os u h = Some (ok, h')"
  shows "open_fds h' = open_fds h"
proof -
  obtain f h3 r4 h4 r5 h5 r6 h6 where c: "probe_calls os u h f h3 (r4, h4) (r5, h5) (r6, h6)"
    using probe_calls_ex by blast
  note f = probe_calls_fd [OF c]
  show ?thesis
  proof (cases "f < 0")
    case True
    with assms(2) f show ?thesis by (auto simp: probeOnce_calls [OF c])
  next
    case False
    with f fresh_socket [OF assms(1), of h] have fr: "insert f (open_fds h) - {f} = open_fds h" by simp
    have rd: "open_fds h7 = open_fds h6" if "recvResponse os f 2048 HttpResponseParser_new h6 = Some (res, h7)"
      for res h7
      using recvResponse_read_post [OF that] only_recvs_keeps(1) by (auto simp: read_post_def)
    from False probe_calls_open [OF c] have "open_fds h4 = insert f (open_fds h)"
      "open_fds h5 = insert f (open_fds h)" "open_fds h6 = insert f (open_fds h)" by auto
    with False assms(2) fr rd show ?thesis
      unfolding probeOnce_calls [OF c] by (auto split: if_splits option.splits)
  qed
qed

text \<open>The upstream is reachable: the calls before the first read succeed.\<close>

definition reachable_upstream :: "os \<Rightarrow> Upstream \<Rightarrow> history \<Rightarrow> history \<Rightarrow> bool" where
  "reachable_upstream os u h h6 \<longleftrightarrow>
     (\<exists>f h3 r4 h4 r5 h5 r6. probe_calls os u h f h3 (r4, h4) (r5, h5) (r6, h6)
        \<and> 0 \<le> f \<and> sr_ret r4 = 1 \<and> sr_ret r5 = 0 \<and> 0 \<le> sr_ret r6)"

lemma probeOnce_reachable:
  assumes "reachable_upstream os u h h6" "f = sr_ret (os h Sys_socket)"
  shows "probeOnce os u h =
    (case recvResponse os f 2048 HttpResponseParser_new h6 of
       None \<Rightarrow> None
     | Some (res, h7) \<Rightarrow>
         Some ((case res of None \<Rightarrow> False | Some resp \<Rightarrow> rs_status resp = 200), snd (invoke os (Sys_close f) h7)))"
proof -
  from assms(1) obtain g h3 r4 h4 r5 h5 r6 where c: "probe_calls os u h g h3 (r4, h4) (r5, h5) (r6, h6)"
    "0 \<le> g" "sr_ret r4 = 1" "sr_ret r5 = 0" "0 \<le> sr_ret r6" unfolding reachable_upstream_def by blast
  moreover have "g = f" using assms(2) probe_calls_fd [OF c(1)] by simp
  ultimately show ?thesis unfolding probeOnce_calls [OF c(1)] by auto
qed

lemma probeOnce_unreachable:
  assumes "\<nexists>h6. reachable_upstream os u h h6" shows "\<exists>h'. probeOnce os u h = Some (False, h')"
proof -
  obtain f h3 r4 h4 r5 h5 r6 h6 where c: "probe_calls os u h f h3 (r4, h4) (r5, h5) (r6, h6)"
    using probe_calls_ex by blast
  with assms have "\<not> (0 \<le> f \<and> sr_ret r4 = 1 \<and> sr_ret r5 = 0 \<and> 0 \<le> sr_ret r6)"
    unfolding reachable_upstream_def by blast
  then show ?thesis unfolding probeOnce_calls [OF c] by auto
qed


subsection \<open>One round\<close>

lemma set_healthy_simps [simp]:
  "length (up_upstreams (set_healthy i b p)) = length (up_upstreams p)"
  "up_nextIndex (set_healthy i b p) = up_nextIndex p"
  "j \<noteq> i \<Longrightarrow> up_upstreams (set_healthy i b p) ! j = up_upstreams p ! j"
  "i < length (up_upstreams p) \<Longrightarrow> up_upstreams (set_healthy i b p) ! i = (up_upstreams p ! i)\<lparr>u_healthy := b\<rparr>"
  by (simp_all add: set_healthy_def)

text \<open>A round probes one upstream after the other; \<open>hs\<close> are the histories before and after each probe.\<close>

definition round_of :: "os \<Rightarrow> nat list \<Rightarrow> Upstream list \<Rightarrow> Upstream list \<Rightarrow> history list \<Rightarrow> bool" where
  "round_of os is us us' hs \<longleftrightarrow> length hs = Suc (length is)
     \<and> (\<forall>j < length is. probeOnce os (us ! (is ! j)) (hs ! j) = Some (u_healthy (us' ! (is ! j)), hs ! Suc j))"

lemma round_of_Cons:
  assumes "probeOnce os (us ! i) h = Some (u_healthy (us' ! i), h1)" "round_of os is us us' hs" "hs ! 0 = h1"
  shows "round_of os (i # is) us us' (h # hs)"
  using assms by (auto simp: round_of_def nth_Cons split: nat.splits)

lemma round_of_cong: "round_of os is us us' hs \<Longrightarrow> (\<And>i. i \<in> set is \<Longrightarrow> us ! i = vs ! i) \<Longrightarrow> round_of os is vs us' hs"
  by (simp add: round_of_def)

lemma probeFrom_flags:
  assumes "probeFrom os is pool h = Some (pool', h')" "distinct is" "set is \<subseteq> {..<length (up_upstreams pool)}"
  shows "length (up_upstreams pool') = length (up_upstreams pool) \<and> up_nextIndex pool' = up_nextIndex pool
    \<and> (\<forall>i. up_upstreams pool' ! i = (up_upstreams pool ! i)\<lparr>u_healthy := u_healthy (up_upstreams pool' ! i)\<rparr>)
    \<and> (\<forall>i. i \<notin> set is \<longrightarrow> up_upstreams pool' ! i = up_upstreams pool ! i)
    \<and> (\<exists>hs. hs ! 0 = h \<and> last hs = h' \<and> round_of os is (up_upstreams pool) (up_upstreams pool') hs)"
  using assms
proof (induction "is" arbitrary: pool h)
  case Nil
  then show ?case by (auto simp: round_of_def intro!: exI [of _ "[h]"])
next
  case (Cons i "is")
  then obtain ok h1 where p: "probeOnce os (up_upstreams pool ! i) h = Some (ok, h1)"
    and r: "probeFrom os is (set_healthy i ok pool) h1 = Some (pool', h')"
    by (auto split: option.splits)
  from Cons.prems have d: "i \<notin> set is" "distinct is"
    "set is \<subseteq> {..<length (up_upstreams (set_healthy i ok pool))}" "i < length (up_upstreams pool)" by auto
  note ih = Cons.IH [OF r d(2,3)]
  have i: "up_upstreams pool' ! i = (up_upstreams pool ! i)\<lparr>u_healthy := ok\<rparr>" using ih d(1,4) by simp
  from ih obtain hs where hs: "hs ! 0 = h1" "last hs = h'"
    "round_of os is (up_upstreams (set_healthy i ok pool)) (up_upstreams pool') hs" by blast
  have "round_of os is (up_upstreams pool) (up_upstreams pool') hs"
    by (rule round_of_cong [OF hs(3)], rule set_healthy_simps(3)) (use d(1) in blast)
  from round_of_Cons [OF _ this hs(1)] p i have "round_of os (i # is) (up_upstreams pool) (up_upstreams pool') (h # hs)" by simp
  moreover have "hs \<noteq> []" using hs(3) by (auto simp: round_of_def)
  ultimately have "\<exists>hs. hs ! 0 = h \<and> last hs = h' \<and> round_of os (i # is) (up_upstreams pool) (up_upstreams pool') hs"
    using hs(2) by (intro exI [of _ "h # hs"]) simp
  moreover have "up_upstreams pool' ! j = (up_upstreams pool ! j)\<lparr>u_healthy := u_healthy (up_upstreams pool' ! j)\<rparr>" for j
    using ih i by (cases "j = i") (simp, metis set_healthy_simps(3))
  ultimately show ?case using ih by (metis list.set_intros(1,2) set_healthy_simps(1-3))
qed

lemma probeRound_flags:
  assumes "probeRound os pool h = Some (pool', h')"
  shows "length (up_upstreams pool') = length (up_upstreams pool) \<and> up_nextIndex pool' = up_nextIndex pool
    \<and> (\<forall>i. up_upstreams pool' ! i = (up_upstreams pool ! i)\<lparr>u_healthy := u_healthy (up_upstreams pool' ! i)\<rparr>)
    \<and> (\<exists>hs. hs ! 0 = h \<and> last hs = h'
          \<and> round_of os [0..<length (up_upstreams pool)] (up_upstreams pool) (up_upstreams pool') hs)"
  using probeFrom_flags [OF assms [unfolded probeRound_def]] by (simp add: atLeast0LessThan)

lemma probeFrom_open:
  "os_fresh os \<Longrightarrow> probeFrom os is pool h = Some (pool', h') \<Longrightarrow> open_fds h' = open_fds h"
  by (induction "is" arbitrary: pool h) (auto split: option.splits dest: probeOnce_open)


subsection \<open>Properties\<close>

text \<open>C30: The verdict of a probe. When the upstream accepts the connection and the request and
  answers with the text of a well-formed response, cut into reads in any way, the probe returns
  whether its status is 200. When the upstream cannot be reached, the probe returns false. In
  every case in which it returns, all descriptors it opened are closed again.\<close>

theorem probe_verdict:
  assumes "os_fresh os"
  shows "(reachable_upstream os u h h6 \<and> wf_response r
      \<and> recv_pos os (sr_ret (os h Sys_socket)) 2048 k h6
      \<and> concat (recv_chunks os (sr_ret (os h Sys_socket)) 2048 k h6) = serialize r @ rest
      \<longrightarrow> (\<exists>h'. probeOnce os u h = Some (rs_status r = 200, h')))
    \<and> ((\<nexists>h6. reachable_upstream os u h h6) \<longrightarrow> (\<exists>h'. probeOnce os u h = Some (False, h')))
    \<and> (\<forall>ok h'. probeOnce os u h = Some (ok, h') \<longrightarrow> open_fds h' = open_fds h)"
proof -
  have "\<exists>h'. probeOnce os u h = Some (rs_status r = 200, h')"
    if a: "reachable_upstream os u h h6" "wf_response r"
      "recv_pos os (sr_ret (os h Sys_socket)) 2048 k h6"
      "concat (recv_chunks os (sr_ret (os h Sys_socket)) 2048 k h6) = serialize r @ rest"
    using recvResponse_text [OF a(2-4)] by (auto simp: probeOnce_reachable [OF a(1) refl])
  with probeOnce_unreachable [of os u h] probeOnce_open [OF assms, of u h] show ?thesis by blast
qed

text \<open>An upstream that takes every request and answers with a text, then ends the stream.\<close>

definition upstream_os :: "string \<Rightarrow> os" where
  "upstream_os text h c = (case c of
      Sys_socket \<Rightarrow> sys_result (fresh_fd h)
    | Sys_accept f \<Rightarrow> sys_result (fresh_fd h)
    | Sys_epoll_create \<Rightarrow> sys_result (fresh_fd h)
    | Sys_kqueue \<Rightarrow> sys_result (fresh_fd h)
    | Sys_inet_pton s \<Rightarrow> sys_result 1
    | Sys_send f d \<Rightarrow> sys_result (int (length d))
    | Sys_recv f n \<Rightarrow> (case h of
          (Sys_recv g m, r) # _ \<Rightarrow> sys_result 0
        | _ \<Rightarrow> (sys_result (int (length text)))\<lparr>sr_data := text\<rparr>)
    | _ \<Rightarrow> sys_result 0)"

lemma upstream_os_fresh: "os_fresh (upstream_os text)"
  by (simp add: os_fresh_def upstream_os_def fresh_fd_fresh)

lemma upstream_os_send_bounded: "os_send_bounded (upstream_os text)"
  by (simp add: os_send_bounded_def upstream_os_def)

definition ok_response :: HttpResponse where
  "ok_response = makeJsonResponse 200 ''OK'' ''{}''"

lemma wf_ok_response: "wf_response ok_response"
  by code_simp

lemma upstream_os_reachable:
  "\<exists>h6. reachable_upstream (upstream_os text) u [] h6
     \<and> recv_pos (upstream_os text) 1 2048 1 h6 = (text \<noteq> [])
     \<and> recv_chunks (upstream_os text) 1 2048 1 h6 = [text]"
proof -
  let ?os = "upstream_os text"
  obtain f h3 r4 h4 r5 h5 r6 h6 where c: "probe_calls ?os u [] f h3 (r4, h4) (r5, h5) (r6, h6)"
    using probe_calls_ex by blast
  have f: "f = 1" using probe_calls_fd [OF c] by (simp add: upstream_os_def fresh_fd_def)
  from c have r: "sr_ret r4 = 1" "sr_ret r5 = 0" "0 \<le> sr_ret r6" and h6: "h6 = (Sys_send f kRequest, r6) # h5"
    unfolding probe_calls_def by (auto dest!: invoke_result simp: upstream_os_def)
  then have "reachable_upstream ?os u [] h6" unfolding reachable_upstream_def using c f by force
  moreover have "recv_pos ?os 1 2048 1 h6 = (text \<noteq> [])" "recv_chunks ?os 1 2048 1 h6 = [text]"
    unfolding h6 One_nat_def by (simp_all add: upstream_os_def)
  ultimately show ?thesis by blast
qed

theorem probe_verdict_witness:
  "\<exists>h'. probeOnce (upstream_os (serialize ok_response)) (Upstream_new ''127.0.0.1'' 9001) [] = Some (True, h')
     \<and> open_fds h' = {}"
proof -
  let ?os = "upstream_os (serialize ok_response)" and ?u = "Upstream_new ''127.0.0.1'' 9001"
  have s: "sr_ret (?os [] Sys_socket) = 1" by (simp add: upstream_os_def fresh_fd_def)
  obtain h6 where h6: "reachable_upstream ?os ?u [] h6"
    "recv_pos ?os 1 2048 1 h6 = (serialize ok_response \<noteq> [])"
    "recv_chunks ?os 1 2048 1 h6 = [serialize ok_response]" using upstream_os_reachable by blast
  have n: "serialize ok_response \<noteq> []" by code_simp
  have st: "rs_status ok_response = 200" by code_simp
  from probe_verdict [where os = ?os and u = ?u and h = "[]" and ?h6.0 = h6 and r = ok_response and k = 1
      and rest = "[]", OF upstream_os_fresh]
    h6 n wf_ok_response s st
  show ?thesis by fastforce
qed


text \<open>C23: Health checks decide who gets requests: after a round of probes the pool has the same
  upstreams and the same place in the rotation and no descriptor was leaked. The round made one
  probe of each upstream, in the order of the pool, the first from the history at the start of the
  round and each next one from the history the previous one left, and each flag is the verdict of
  the probe of its own upstream among these. So \<open>pickNext\<close> returns an upstream only if its probe in
  this very round succeeded, and \<open>nullptr\<close> only if every probe of this round failed.\<close>

theorem pick_after_round:
  assumes "os_fresh os" "probeRound os pool h = Some (pool', h')"
  shows "map u_host (up_upstreams pool') = map u_host (up_upstreams pool)
    \<and> map u_port (up_upstreams pool') = map u_port (up_upstreams pool)
    \<and> up_nextIndex pool' = up_nextIndex pool \<and> open_fds h' = open_fds h
    \<and> (\<exists>hs. length hs = Suc (length (up_upstreams pool)) \<and> hs ! 0 = h \<and> last hs = h'
        \<and> (\<forall>i < length (up_upstreams pool).
             probeOnce os (up_upstreams pool ! i) (hs ! i) = Some (u_healthy (up_upstreams pool' ! i), hs ! Suc i))
        \<and> (case fst (pickNext pool') of
             Some i \<Rightarrow> i < length (up_upstreams pool) \<and> probeOnce os (up_upstreams pool ! i) (hs ! i) = Some (True, hs ! Suc i)
           | None \<Rightarrow> \<forall>i < length (up_upstreams pool).
               probeOnce os (up_upstreams pool ! i) (hs ! i) = Some (False, hs ! Suc i)))"
proof -
  from probeRound_flags [OF assms(2)] have len: "length (up_upstreams pool') = length (up_upstreams pool)"
    and ix: "up_nextIndex pool' = up_nextIndex pool"
    and fl: "\<And>i. up_upstreams pool' ! i = (up_upstreams pool ! i)\<lparr>u_healthy := u_healthy (up_upstreams pool' ! i)\<rparr>"
    by auto
  from probeRound_flags [OF assms(2)] obtain hs where hs: "hs ! 0 = h" "last hs = h'"
    "length hs = Suc (length (up_upstreams pool))"
    and pr: "\<And>i. i < length (up_upstreams pool) \<Longrightarrow>
      probeOnce os (up_upstreams pool ! i) (hs ! i) = Some (u_healthy (up_upstreams pool' ! i), hs ! Suc i)"
    by (auto simp: round_of_def)
  have hp: "u_host (up_upstreams pool' ! i) = u_host (up_upstreams pool ! i)
      \<and> u_port (up_upstreams pool' ! i) = u_port (up_upstreams pool ! i)" for i by (subst (1 2) fl) simp
  then have "map u_host (up_upstreams pool') = map u_host (up_upstreams pool)"
    "map u_port (up_upstreams pool') = map u_port (up_upstreams pool)"
    by (auto intro!: nth_equalityI simp: len)
  moreover have "open_fds h' = open_fds h"
    using probeFrom_open [OF assms(1) assms(2) [unfolded probeRound_def]] .
  moreover have "case fst (pickNext pool') of
       Some i \<Rightarrow> i < length (up_upstreams pool) \<and> probeOnce os (up_upstreams pool ! i) (hs ! i) = Some (True, hs ! Suc i)
     | None \<Rightarrow> \<forall>i < length (up_upstreams pool). probeOnce os (up_upstreams pool ! i) (hs ! i) = Some (False, hs ! Suc i)"
  proof (cases "fst (pickNext pool')")
    case None
    with pickNext_None_iff [of pool'] have "\<forall>i < length (up_upstreams pool). \<not> u_healthy (up_upstreams pool' ! i)"
      by (simp add: len)
    with None pr show ?thesis by simp
  next
    case (Some i)
    from pickNext_Some [OF this] have "i < length (up_upstreams pool)" "u_healthy (up_upstreams pool' ! i)"
      by (simp_all add: len)
    with Some pr [of i] show ?thesis by simp
  qed
  ultimately show ?thesis using ix hs pr by blast
qed

definition down_os :: os where
  "down_os h c = (case c of
      Sys_socket \<Rightarrow> sys_result (fresh_fd h)
    | Sys_accept f \<Rightarrow> sys_result (fresh_fd h)
    | Sys_epoll_create \<Rightarrow> sys_result (fresh_fd h)
    | Sys_kqueue \<Rightarrow> sys_result (fresh_fd h)
    | Sys_inet_pton s \<Rightarrow> sys_result 1
    | Sys_connect f s p \<Rightarrow> sys_error (EOTHER 111)
    | _ \<Rightarrow> sys_result 0)"

lemma down_os_fresh: "os_fresh down_os"
  by (simp add: os_fresh_def down_os_def fresh_fd_fresh)

lemma down_os_probe: "\<exists>h'. probeOnce down_os u h = Some (False, h')"
proof (rule probeOnce_unreachable, rule notI, elim exE)
  fix h6 assume "reachable_upstream down_os u h h6"
  then show False
    unfolding reachable_upstream_def probe_calls_def by (auto dest!: invoke_result simp: down_os_def)
qed

theorem pick_after_round_witness:
  "\<exists>pool' h'. probeRound down_os (UpstreamPool_new [(''10.0.0.1'', 80), (''10.0.0.2'', 80)]) [] = Some (pool', h')
     \<and> fst (pickNext pool') = None \<and> open_fds h' = {}"
proof -
  let ?p = "UpstreamPool_new [(''10.0.0.1'', 80), (''10.0.0.2'', 80)]"
  let ?u1 = "Upstream_new ''10.0.0.1'' 80" and ?u2 = "Upstream_new ''10.0.0.2'' 80"
  let ?q = "set_healthy 1 False (set_healthy 0 False ?p)"
  obtain h1 where h1: "probeOnce down_os ?u1 [] = Some (False, h1)" using down_os_probe by blast
  obtain h2 where h2: "probeOnce down_os ?u2 h1 = Some (False, h2)" using down_os_probe by blast
  have "[0..<length (up_upstreams ?p)] = [0, 1]" "up_upstreams ?p ! 0 = ?u1"
    "up_upstreams (set_healthy 0 False ?p) ! 1 = ?u2"
    by (simp_all add: UpstreamPool_new_def upt_rec)
  with h1 h2 have r: "probeRound down_os ?p [] = Some (?q, h2)" by (simp add: probeRound_def)
  moreover have "fst (pickNext ?q) = None" by code_simp
  ultimately obtain pool' h' where r: "probeRound down_os ?p [] = Some (pool', h')" "fst (pickNext pool') = None"
    by blast
  from pick_after_round [OF down_os_fresh r(1)] r show ?thesis by simp
qed

end
