(* ===== verification/Load_Balancer.thy ===== *)
theory Load_Balancer
  imports Http_Server Health_Checker
begin

section \<open>The load balancer\<close>

text \<open>
  \<open>lb::LoadBalancer\<close>: the reactor of the server with an upstream pool, a health checker and
  \<open>proxyRequest\<close> in place of the router. The socket to an upstream is blocking with a timeout
  per call; how long a call blocks is not modelled, only what it returns.
\<close>

record 's LoadBalancer = "'s Reactor" +
  lb_port :: u16
  lb_upstreamPool :: UpstreamPool
  lb_healthChecker :: HealthChecker

subsection \<open>Sending a request\<close>

function sendAllLoop :: "os \<Rightarrow> fd \<Rightarrow> string \<Rightarrow> nat \<Rightarrow> history \<Rightarrow> bool \<times> history" where
  "sendAllLoop os f data offset h =
     (if offset < length data
      then (let (r, h1) = invoke os (Sys_send f (drop offset data)) h; n = sr_ret r
            in if n \<le> 0 then (False, h1) else sendAllLoop os f data (offset + nat n) h1)
      else (True, h))"
  by pat_completeness auto
termination by (relation "measure (\<lambda>(os, f, data, offset, h). length data - offset)") auto

declare sendAllLoop.simps [simp del]

definition sendAll :: "os \<Rightarrow> fd \<Rightarrow> string \<Rightarrow> history \<Rightarrow> bool \<times> history" where
  "sendAll os f data h = sendAllLoop os f data 0 h"

text \<open>The header lines of the forwarded request, and whether a \<open>Connection\<close> header was seen.\<close>

fun forwardHeaders :: "HeaderList \<Rightarrow> string \<Rightarrow> bool \<Rightarrow> string \<times> bool" where
  "forwardHeaders [] out sawConnection = (out, sawConnection)"
| "forwardHeaders ((k, v) # hs) out sawConnection =
     (if strcasecmp_eq k ''connection''
      then forwardHeaders hs (out @ ''Connection: close'' @ CRLF) True
      else forwardHeaders hs (out @ k @ '': '' @ v @ CRLF) sawConnection)"

definition forwardText :: "HttpRequest \<Rightarrow> string" where
  "forwardText req =
     (let out = rq_method req @ '' '' @ rq_target req @ '' '' @ rq_version req @ CRLF;
          (out, sawConnection) = forwardHeaders (rq_headers req) out False;
          out = (if \<not> sawConnection then out @ ''Connection: close'' @ CRLF else out)
      in out @ CRLF @ rq_body req)"

definition badGateway :: "string \<Rightarrow> HttpResponse" where
  "badGateway json = makeJsonResponse 502 ''Bad Gateway'' json"

text \<open>The answer that ends a proxied request early: no upstream, or no socket for it.\<close>

definition refuseProxy :: "string \<Rightarrow> Connection \<Rightarrow> Connection" where
  "refuseProxy json conn =
     queueWrite (serialize ((badGateway json)\<lparr>rs_keepAlive := False\<rparr>)) (setPendingKeepAlive False conn)"

text \<open>The address in \<open>addr\<close>: the result of \<open>inet_pton\<close> is not looked at, and when the host is not a
  numeric address \<open>addr\<close> keeps the zeros it was initialised with.\<close>

definition connectAddr :: "Upstream \<Rightarrow> sysres \<Rightarrow> string" where
  "connectAddr u r = (if sr_ret r = 1 then u_host u else ''0.0.0.0'')"

text \<open>The exchange with the upstream on an open socket: connect, send, read the response.\<close>

definition upstreamExchange ::
    "os \<Rightarrow> fd \<Rightarrow> Upstream \<Rightarrow> HttpRequest \<Rightarrow> history \<Rightarrow> (HttpResponse option \<times> history) option" where
  "upstreamExchange os ufd u req h =
     (let (_, h2) = invoke os (Sys_setsockopt ufd (SO_RCVTIMEO 2 0)) h;
          (_, h3) = invoke os (Sys_setsockopt ufd (SO_SNDTIMEO 2 0)) h2;
          (r4, h4) = invoke os (Sys_inet_pton (u_host u)) h3;
          (rc, h5) = invoke os (Sys_connect ufd (connectAddr u r4) (u_port u)) h4
      in if sr_ret rc = 0
         then (let (sent, h6) = sendAll os ufd (forwardText req) h5
               in if sent then recvResponse os ufd 8192 HttpResponseParser_new h6 else Some (None, h6))
         else Some (None, h5))"

definition proxyRequest ::
    "os \<Rightarrow> UpstreamPool \<Rightarrow> Connection \<Rightarrow> HttpRequest \<Rightarrow> history
     \<Rightarrow> (bool \<times> Connection \<times> UpstreamPool \<times> history) option" where
  "proxyRequest os pool conn req h =
     (case pickNext pool of
        (None, pool1) \<Rightarrow> Some (False, refuseProxy ''{\"error\":\"no healthy upstream\"}'' conn, pool1, h)
      | (Some i, pool1) \<Rightarrow>
          (let (r, h1) = invoke os Sys_socket h; ufd = sr_ret r
           in if ufd < 0
              then Some (False, refuseProxy ''{\"error\":\"upstream connect failed\"}'' conn, pool1, h1)
              else (case upstreamExchange os ufd (up_upstreams pool1 ! i) req h1 of
                      None \<Rightarrow> None
                    | Some (res, h2) \<Rightarrow>
                        (let (_, h3) = invoke os (Sys_close ufd) h2;
                             ok = (res \<noteq> None);
                             resp = (case res of
                                       Some resp \<Rightarrow> resp
                                     | None \<Rightarrow> badGateway ''{\"error\":\"upstream request failed\"}'');
                             resp = resp\<lparr>rs_keepAlive := rq_keepAlive req\<rparr>;
                             c1 = setPendingKeepAlive (rq_keepAlive req) conn;
                             c2 = queueWrite (serialize resp) c1
                         in Some (ok, c2, pool1, h3)))))"

subsection \<open>Serving a client\<close>

text \<open>The path of a complete request: proxy it, then write the answer.\<close>

definition proxyAnswer ::
    "os \<Rightarrow> UpstreamPool \<Rightarrow> Connection \<Rightarrow> history
     \<Rightarrow> (Connection \<times> RearmAction \<times> UpstreamPool \<times> history) option" where
  "proxyAnswer os pool conn h =
     (case proxyRequest os pool conn (p_req (c_parser conn)) h of
        None \<Rightarrow> None
      | Some (_, c1, pool1, h1) \<Rightarrow>
          (let (done, c2, h2) = flushWrite os c1 h1
           in if \<not> done then Some (c2, WaitWritable, pool1, h2)
              else (let c3 = reset_parser c2
                    in Some (c3, (if c_pendingKeepAlive c3 then WaitReadable else Close), pool1, h2))))"

definition serveClient ::
    "os \<Rightarrow> UpstreamPool \<Rightarrow> fd \<Rightarrow> Connection \<Rightarrow> history
     \<Rightarrow> (Connection \<times> RearmAction \<times> UpstreamPool \<times> history) option" where
  "serveClient os pool f conn h =
     (if hasPendingWrite conn
      then (let (c, a, h1) = resumeWrite os conn h in Some (c, a, pool, h1))
      else (let (r, h1) = invoke os (Sys_recv f 8192) h; n = sr_ret r
            in if n = 0 then Some (conn, Close, pool, h1)
               else if n < 0
               then Some (conn, (if would_block (sr_errno r) then WaitReadable else Close), pool, h1)
               else (let (status, p) = consume (c_parser conn) (take (nat n) (sr_data r));
                         c1 = conn\<lparr>c_parser := p\<rparr>
                     in case status of
                          NeedMoreData \<Rightarrow> Some (c1, WaitReadable, pool, h1)
                        | ParseError \<Rightarrow> (let (c, a, h2) = answerBadRequest os c1 h1 in Some (c, a, pool, h2))
                        | ParseComplete \<Rightarrow> proxyAnswer os pool c1 h1)))"

definition handleClientEvent ::
    "os \<Rightarrow> fd \<Rightarrow> ('s, 'm) LoadBalancer_scheme \<Rightarrow> history \<Rightarrow> (('s, 'm) LoadBalancer_scheme \<times> history) option" where
  "handleClientEvent os f s h =
     (case rx_connections s f of
        None \<Rightarrow> Some (s, h)
      | Some conn \<Rightarrow>
          (case serveClient os (lb_upstreamPool s) f conn h of
             None \<Rightarrow> None
           | Some (conn1, action, pool1, h1) \<Rightarrow>
               Some (postRearm f action
                       (s\<lparr>lb_upstreamPool := pool1, rx_connections := (rx_connections s)(f \<mapsto> conn1)\<rparr>), h1)))"

subsection \<open>The reactor of the load balancer\<close>

text \<open>The member functions that repeat those of the server, on this class's state.\<close>

definition lb_postRearm :: "fd \<Rightarrow> RearmAction \<Rightarrow> 's LoadBalancer \<Rightarrow> 's LoadBalancer" where
  "lb_postRearm f action s = postRearm f action s"

definition lb_applyPendingRearms ::
    "os \<Rightarrow> 's EventLoop \<Rightarrow> 's LoadBalancer \<Rightarrow> history \<Rightarrow> 's LoadBalancer \<times> history" where
  "lb_applyPendingRearms os el s h = applyPendingRearms os el s h"

definition lb_handleAccept ::
    "os \<Rightarrow> 's EventLoop \<Rightarrow> 's LoadBalancer \<Rightarrow> history \<Rightarrow> ('s LoadBalancer \<times> history) option" where
  "lb_handleAccept os el s h = handleAccept os el s h"

definition lb_reactorIteration ::
    "os \<Rightarrow> 's EventLoop \<Rightarrow> 's LoadBalancer \<Rightarrow> history \<Rightarrow> ('s LoadBalancer \<times> history) option" where
  "lb_reactorIteration os el s h = reactorIteration os el s h"

definition LoadBalancer_new :: "'s \<Rightarrow> u16 \<Rightarrow> UpstreamPool \<Rightarrow> int \<Rightarrow> 's LoadBalancer" where
  "LoadBalancer_new l port pool healthIntervalMs =
     \<lparr>rx_listenSock = Socket_new, rx_eventLoop = l, rx_queue = [], rx_connections = Map.empty,
      rx_pendingRearms = [], rx_running = False, lb_port = port,
      lb_upstreamPool = UpstreamPool_move pool, lb_healthChecker = HealthChecker_new healthIntervalMs\<rparr>"

definition start_checker :: "'s LoadBalancer \<Rightarrow> 's LoadBalancer option" where
  "start_checker s =
     (case HealthChecker_start (lb_healthChecker s) of
        Inl Terminate \<Rightarrow> None
      | Inr hc \<Rightarrow> Some (s\<lparr>lb_healthChecker := hc\<rparr>))"

definition LoadBalancer_run ::
    "os \<Rightarrow> 's EventLoop \<Rightarrow> (os \<Rightarrow> history \<Rightarrow> 's \<times> history) \<Rightarrow> 's LoadBalancer \<Rightarrow> history
     \<Rightarrow> (run_end \<times> 's LoadBalancer \<times> history) + ('s LoadBalancer \<times> history)" where
  "LoadBalancer_run os el create s h = reactorStart os el create start_checker (lb_port s) s h"

definition LoadBalancer_stop :: "'s LoadBalancer \<Rightarrow> 's LoadBalancer" where
  "LoadBalancer_stop s =
     (let s = s\<lparr>rx_running := False\<rparr> in s\<lparr>lb_healthChecker := HealthChecker_stop (lb_healthChecker s)\<rparr>)"


subsection \<open>The forwarded request\<close>

definition is_connection :: "string \<times> string \<Rightarrow> bool" where
  "is_connection kv \<longleftrightarrow> strcasecmp_eq (fst kv) ''connection''"

text \<open>The request the upstream is meant to read: every \<open>Connection\<close> header says close, and there is
  one.\<close>

definition forwarded :: "HttpRequest \<Rightarrow> HttpRequest" where
  "forwarded req = req\<lparr>rq_headers :=
     map (\<lambda>kv. if is_connection kv then (''Connection'', ''close'') else kv) (rq_headers req)
     @ (if list_ex is_connection (rq_headers req) then [] else [(''Connection'', ''close'')])\<rparr>"

lemma forwardHeaders_eq:
  "forwardHeaders hs out saw =
     (out @ headerText (map (\<lambda>kv. if is_connection kv then (''Connection'', ''close'') else kv) hs),
      saw \<or> list_ex is_connection hs)"
proof (induction hs arbitrary: out saw)
  case Nil
  then show ?case by simp
next
  case (Cons kv hs)
  then show ?case by (cases kv) (auto simp: is_connection_def)
qed

lemma forwardText_eq: "forwardText req = requestText (forwarded req)"
  by (simp add: forwardText_def forwardHeaders_eq requestText_def requestLineText_def forwarded_def Let_def)

lemma c_str_lower: "CHR 0x00 \<notin> set (toLower k) \<Longrightarrow> c_str k = k"
proof -
  have "tolower (CHR 0x00) = CHR 0x00" by code_simp
  then have "CHR 0x00 \<in> set k \<Longrightarrow> CHR 0x00 \<in> set (toLower k)" by (force simp: toLower_def)
  then show "CHR 0x00 \<notin> set (toLower k) \<Longrightarrow> c_str k = k" by (auto intro: c_str_id)
qed

lemma is_connection_eq: "is_connection kv \<longleftrightarrow> toLower (c_str (fst kv)) = ''connection''"
proof -
  have "map tolower (c_str ''connection'') = ''connection''" by code_simp
  then show ?thesis by (simp add: is_connection_def strcasecmp_eq_def toLower_def)
qed

lemma is_connection_lower:
  "toLower (fst kv) = ''connection'' \<Longrightarrow> is_connection kv"
  "is_connection kv \<Longrightarrow> toLower (fst kv) \<noteq> ''content-length''"
  using c_str_lower [of "fst kv"] by (auto simp: is_connection_eq)

lemma forwarded_headers_find:
  defines "f \<equiv> \<lambda>kv. if is_connection kv then (''Connection'', ''close'') else kv"
  shows "findHeader (map f hs) ''Content-Length'' = findHeader hs ''Content-Length''"
    and "findHeader (map f hs) ''Connection'' = (if list_ex is_connection hs then Some ''close'' else None)"
proof -
  show "findHeader (map f hs) ''Content-Length'' = findHeader hs ''Content-Length''"
  proof (induction hs)
    case (Cons kv hs)
    then show ?case using is_connection_lower(2) [of kv]
      by (cases kv) (auto simp: f_def toLower_header_names)
  qed simp
  show "findHeader (map f hs) ''Connection'' = (if list_ex is_connection hs then Some ''close'' else None)"
  proof (induction hs)
    case (Cons kv hs)
    then show ?case using is_connection_lower(1) [of kv]
      by (cases kv) (auto simp: f_def toLower_header_names)
  qed simp
qed

lemma is_connection_close: "is_connection (''Connection'', ''close'')"
  by code_simp

lemma filter_forwarded:
  "filter (\<lambda>kv. \<not> is_connection kv) (map (\<lambda>kv. if is_connection kv then (''Connection'', ''close'') else kv) hs)
     = filter (\<lambda>kv. \<not> is_connection kv) hs"
  using is_connection_close by (induction hs) auto

lemma wf_close_header: "wf_header (''Connection'', ''close'')"
  by code_simp

lemma forwarded_wf: "wf_request req \<Longrightarrow> wf_request (forwarded req)"
  using wf_close_header
  by (auto simp: wf_request_def wf_request_line_def forwarded_def list_all_iff contentLengthFrom_def
      findHeader_append forwarded_headers_find toLower_header_names split: option.splits)

lemma forwarded_close: "\<not> connectionKeepAlive (rq_headers (forwarded req)) v"
proof -
  have "findHeader (rq_headers (forwarded req)) ''Connection'' = Some ''close''"
    by (auto simp: forwarded_def findHeader_append forwarded_headers_find)
  moreover have "toLower ''close'' = ''close''" by code_simp
  ultimately show ?thesis by (simp add: connectionKeepAlive_def)
qed


subsection \<open>Sending everything\<close>

lemma only_sends_Cons:
  "only_sends f ((Sys_send f d, r) # h) h' \<Longrightarrow> only_sends f h h'"
proof -
  assume "only_sends f ((Sys_send f d, r) # h) h'"
  then obtain k where "h' = k @ (Sys_send f d, r) # h" "\<forall>x \<in> set k. \<exists>d. fst x = Sys_send f d"
    by (auto simp: only_sends_def)
  then have "h' = (k @ [(Sys_send f d, r)]) @ h"
    "\<forall>x \<in> set (k @ [(Sys_send f d, r)]). \<exists>d. fst x = Sys_send f d" by auto
  then show ?thesis unfolding only_sends_def by blast
qed

lemma only_sends_refl [simp]: "only_sends f h h" "only_sends f h ((Sys_send f d, r) # h)"
  by (auto simp: only_sends_def)

lemma sendAllLoop_sent:
  assumes "sendAllLoop os f d off h = (ok, h')"
  shows "only_sends f h h' \<and> (os_send_bounded os \<longrightarrow> ok \<longrightarrow> sent_bytes f h' = sent_bytes f h @ drop off d)"
  using assms
proof (induction os f d off h rule: sendAllLoop.induct)
  case (1 os f d off h)
  let ?r = "os h (Sys_send f (drop off d))"
  let ?h1 = "(Sys_send f (drop off d), ?r) # h"
  show ?case
  proof (cases "off < length d \<and> 0 < sr_ret ?r")
    case False
    with "1.prems" show ?thesis
      by (auto simp: sendAllLoop.simps [of os f d off h] Let_def invoke_def split: if_splits)
  next
    case True
    with "1.prems" have "sendAllLoop os f d (off + nat (sr_ret ?r)) ?h1 = (ok, h')"
      by (simp add: sendAllLoop.simps [of os f d off h] Let_def invoke_def)
    with "1.IH" [of "(?r, ?h1)" ?r ?h1 "sr_ret ?r"] True
    have ih: "only_sends f ?h1 h'"
      "os_send_bounded os \<longrightarrow> ok \<longrightarrow> sent_bytes f h' = sent_bytes f ?h1 @ drop (off + nat (sr_ret ?r)) d"
      by (auto simp: invoke_def simp del: sent_bytes.simps)
    have "sent_bytes f ?h1 @ drop (off + nat (sr_ret ?r)) d = sent_bytes f h @ drop off d"
      if "os_send_bounded os"
    proof -
      from that have "sr_ret ?r \<le> int (length (drop off d))" unfolding os_send_bounded_def by blast
      with True show ?thesis by (simp add: send_step_sent)
    qed
    with ih only_sends_Cons show ?thesis by metis
  qed
qed

lemma sendAll_sent:
  assumes "sendAll os f d h = (ok, h')"
  shows "only_sends f h h'" "os_send_bounded os \<Longrightarrow> ok \<Longrightarrow> sent_bytes f h' = sent_bytes f h @ d"
  using sendAllLoop_sent [OF assms [unfolded sendAll_def]] by auto

subsection \<open>The exchange with an upstream\<close>

text \<open>The history from the socket to the first read, when everything before it succeeds.\<close>

definition exchange_ready :: "os \<Rightarrow> fd \<Rightarrow> Upstream \<Rightarrow> HttpRequest \<Rightarrow> history \<Rightarrow> history \<Rightarrow> bool" where
  "exchange_ready os ufd u req h h6 \<longleftrightarrow>
     (\<exists>r2 h2 r3 h3 r4 h4 r5 h5. invoke os (Sys_setsockopt ufd (SO_RCVTIMEO 2 0)) h = (r2, h2)
        \<and> invoke os (Sys_setsockopt ufd (SO_SNDTIMEO 2 0)) h2 = (r3, h3)
        \<and> invoke os (Sys_inet_pton (u_host u)) h3 = (r4, h4)
        \<and> invoke os (Sys_connect ufd (connectAddr u r4) (u_port u)) h4 = (r5, h5) \<and> sr_ret r5 = 0
        \<and> sendAll os ufd (forwardText req) h5 = (True, h6))"

lemma exchange_ready_reads:
  assumes "exchange_ready os ufd u req h h6"
  shows "upstreamExchange os ufd u req h = recvResponse os ufd 8192 HttpResponseParser_new h6"
  using assms unfolding exchange_ready_def upstreamExchange_def by auto

lemma exchange_not_ready:
  assumes "\<nexists>h6. exchange_ready os ufd u req h h6"
  shows "\<exists>h'. upstreamExchange os ufd u req h = Some (None, h')"
proof -
  obtain r2 h2 where 2: "invoke os (Sys_setsockopt ufd (SO_RCVTIMEO 2 0)) h = (r2, h2)" by fastforce
  obtain r3 h3 where 3: "invoke os (Sys_setsockopt ufd (SO_SNDTIMEO 2 0)) h2 = (r3, h3)" by fastforce
  obtain r4 h4 where 4: "invoke os (Sys_inet_pton (u_host u)) h3 = (r4, h4)" by fastforce
  obtain r5 h5 where 5: "invoke os (Sys_connect ufd (connectAddr u r4) (u_port u)) h4 = (r5, h5)" by fastforce
  obtain ok h6 where 6: "sendAll os ufd (forwardText req) h5 = (ok, h6)" by fastforce
  from assms 2 3 4 5 6 have "\<not> (sr_ret r5 = 0 \<and> ok)" unfolding exchange_ready_def by auto
  with 2 3 4 5 6 show ?thesis by (auto simp: upstreamExchange_def)
qed

lemma upstreamExchange_open:
  assumes "upstreamExchange os ufd u req h = Some (res, h')"
  shows "open_fds h' = open_fds h"
proof -
  obtain r2 h2 where 2: "invoke os (Sys_setsockopt ufd (SO_RCVTIMEO 2 0)) h = (r2, h2)" by fastforce
  obtain r3 h3 where 3: "invoke os (Sys_setsockopt ufd (SO_SNDTIMEO 2 0)) h2 = (r3, h3)" by fastforce
  obtain r4 h4 where 4: "invoke os (Sys_inet_pton (u_host u)) h3 = (r4, h4)" by fastforce
  obtain r5 h5 where 5: "invoke os (Sys_connect ufd (connectAddr u r4) (u_port u)) h4 = (r5, h5)" by fastforce
  obtain ok h6 where 6: "sendAll os ufd (forwardText req) h5 = (ok, h6)" by fastforce
  have o5: "open_fds h5 = open_fds h"
    using invoke_open [OF 2] invoke_open [OF 3] invoke_open [OF 4] invoke_open [OF 5] by simp
  have o6: "open_fds h6 = open_fds h5" using sendAll_sent(1) [OF 6] by (rule only_sends_open_fds)
  have rd: "open_fds h7 = open_fds h6" if "recvResponse os ufd 8192 HttpResponseParser_new h6 = Some (res, h7)" for h7
    using recvResponse_read_post [OF that] only_recvs_keeps(1) by (auto simp: read_post_def)
  from assms 2 3 4 5 6 o5 o6 rd show ?thesis by (auto simp: upstreamExchange_def split: if_splits)
qed

text \<open>A response that was read and is printed again is the same text.\<close>

lemma serialize_printed:
  "serialize (r\<lparr>rs_headers := printed_headers r, rs_keepAlive := b\<rparr>) = serialize r"
proof -
  have "findHeader (printed_headers r) ''Content-Length'' \<noteq> None"
    "findHeader (printed_headers r) ''Connection'' \<noteq> None"
    by (auto simp: printed_headers_def findHeader_append toLower_header_names split: option.splits)
  then have "printed_headers (r\<lparr>rs_headers := printed_headers r, rs_keepAlive := b\<rparr>) = printed_headers r"
    by (simp add: printed_headers_def [of "r\<lparr>rs_headers := printed_headers r, rs_keepAlive := b\<rparr>"])
  then show ?thesis by (simp add: serialize_eq)
qed

subsection \<open>One proxied request\<close>

lemma refuseProxy_simps:
  "conn_inv c \<Longrightarrow> conn_inv (refuseProxy j c)" "\<not> c_pendingKeepAlive (refuseProxy j c)"
  "conn_inv c \<Longrightarrow> pending (refuseProxy j c) = pending c @ serialize ((badGateway j)\<lparr>rs_keepAlive := False\<rparr>)"
  "c_sock (refuseProxy j c) = c_sock c" "c_parser (refuseProxy j c) = c_parser c"
  by (simp_all add: refuseProxy_def keeps)
     (simp_all add: queueWrite_def setPendingKeepAlive_def pending_def conn_inv_def)

text \<open>The answer that was queued, and what happened to it.\<close>

definition queued :: "HttpResponse \<Rightarrow> bool \<Rightarrow> Connection \<Rightarrow> Connection \<Rightarrow> bool" where
  "queued resp ka c c' \<longleftrightarrow>
     conn_inv c' \<and> pending c' = pending c @ serialize resp \<and> c_pendingKeepAlive c' = ka
     \<and> c_sock c' = c_sock c \<and> c_parser c' = c_parser c"

lemma queued_refuse:
  "conn_inv c \<Longrightarrow> queued ((badGateway j)\<lparr>rs_keepAlive := False\<rparr>) False c (refuseProxy j c)"
  by (simp add: queued_def refuseProxy_simps)

lemma queued_answer:
  "conn_inv c \<Longrightarrow> queued resp ka c (queueWrite (serialize resp) (setPendingKeepAlive ka c))"
  by (simp add: queued_def keeps, simp add: queueWrite_def setPendingKeepAlive_def pending_def conn_inv_def)

lemma proxyRequest_None:
  "fst (pickNext pool) = None \<Longrightarrow>
     proxyRequest os pool c req h =
       Some (False, refuseProxy ''{\"error\":\"no healthy upstream\"}'' c, snd (pickNext pool), h)"
  by (cases "pickNext pool") (simp add: proxyRequest_def)

lemma proxyRequest_Some:
  assumes "fst (pickNext pool) = Some i" "ufd = sr_ret (os h Sys_socket)"
  shows "proxyRequest os pool c req h =
    (if ufd < 0
     then Some (False, refuseProxy ''{\"error\":\"upstream connect failed\"}'' c, snd (pickNext pool),
                (Sys_socket, os h Sys_socket) # h)
     else (case upstreamExchange os ufd (up_upstreams pool ! i) req ((Sys_socket, os h Sys_socket) # h) of
             None \<Rightarrow> None
           | Some (res, h2) \<Rightarrow>
               Some (res \<noteq> None,
                 queueWrite (serialize ((case res of Some resp \<Rightarrow> resp
                     | None \<Rightarrow> badGateway ''{\"error\":\"upstream request failed\"}'')\<lparr>rs_keepAlive := rq_keepAlive req\<rparr>))
                   (setPendingKeepAlive (rq_keepAlive req) c),
                 snd (pickNext pool), (Sys_close ufd, os h2 (Sys_close ufd)) # h2)))"
proof -
  obtain pool1 where p: "pickNext pool = (Some i, pool1)" using assms(1) by (metis prod.collapse)
  with pickNext_upstreams [of pool] have "up_upstreams pool1 = up_upstreams pool" by simp
  with p assms(2) show ?thesis
    by (auto simp: proxyRequest_def invoke_def Let_def split: option.splits)
qed

lemma proxyRequest_open:
  assumes "os_fresh os" "proxyRequest os pool c req h = Some (ok, c', pool', h')"
  shows "open_fds h' = open_fds h \<and> pool' = snd (pickNext pool)"
proof (cases "fst (pickNext pool)")
  case None
  with assms(2) proxyRequest_None show ?thesis by auto
next
  case (Some i)
  let ?f = "sr_ret (os h Sys_socket)"
  have fr: "0 \<le> ?f \<Longrightarrow> insert ?f (open_fds h) - {?f} = open_fds h" using fresh_socket [OF assms(1)] by blast
  from assms(2) fr upstreamExchange_open show ?thesis
    unfolding proxyRequest_Some [OF Some refl]
    by (auto split: if_splits option.splits dest!: upstreamExchange_open)
qed

lemma proxyRequest_queued:
  assumes "conn_inv c" "proxyRequest os pool c req h = Some (ok, c', pool', h')"
  shows "\<exists>resp. queued resp (c_pendingKeepAlive c') c c' \<and> rs_keepAlive resp = c_pendingKeepAlive c'
    \<and> (ok \<longrightarrow> c_pendingKeepAlive c' = rq_keepAlive req)
    \<and> (\<not> ok \<longrightarrow> rs_status resp = 502 \<and> rs_reason resp = ''Bad Gateway'')"
proof (cases "fst (pickNext pool)")
  case None
  with assms(2) proxyRequest_None [of pool os c req h]
  have "c' = refuseProxy ''{\"error\":\"no healthy upstream\"}'' c" "\<not> ok" by auto
  with queued_refuse [OF assms(1)] show ?thesis
    by (intro exI [of _ "(badGateway ''{\"error\":\"no healthy upstream\"}'')\<lparr>rs_keepAlive := False\<rparr>"])
       (simp add: refuseProxy_simps badGateway_def makeJsonResponse_def)
next
  case (Some i)
  show ?thesis
  proof (cases "sr_ret (os h Sys_socket) < 0")
    case True
    with assms(2) proxyRequest_Some [OF Some refl, of os c req h]
    have "c' = refuseProxy ''{\"error\":\"upstream connect failed\"}'' c" "\<not> ok" by auto
    with queued_refuse [OF assms(1)] show ?thesis
      by (intro exI [of _ "(badGateway ''{\"error\":\"upstream connect failed\"}'')\<lparr>rs_keepAlive := False\<rparr>"])
         (simp add: refuseProxy_simps badGateway_def makeJsonResponse_def)
  next
    case False
    with assms(2) proxyRequest_Some [OF Some refl, of os c req h] obtain res
      where "ok = (res \<noteq> None)"
        "c' = queueWrite (serialize ((case res of Some resp \<Rightarrow> resp
                     | None \<Rightarrow> badGateway ''{\"error\":\"upstream request failed\"}'')\<lparr>rs_keepAlive := rq_keepAlive req\<rparr>))
                   (setPendingKeepAlive (rq_keepAlive req) c)"
      by (auto split: option.splits)
    with queued_answer [OF assms(1)] show ?thesis
      by (intro exI [of _ "(case res of Some resp \<Rightarrow> resp
                     | None \<Rightarrow> badGateway ''{\"error\":\"upstream request failed\"}'')\<lparr>rs_keepAlive := rq_keepAlive req\<rparr>"])
         (auto simp: badGateway_def makeJsonResponse_def queued_def split: option.splits)
  qed
qed

lemma proxyAnswer_fits:
  assumes "os_send_bounded os" "conn_inv c" "proxyAnswer os pool c h = Some (c', act, pool', h')"
  shows "rearm_fits (c', act, h')"
proof -
  from assms(3) obtain ok c1 h1 where p: "proxyRequest os pool c (p_req (c_parser c)) h = Some (ok, c1, pool', h1)"
    by (auto simp: proxyAnswer_def Let_def split: option.splits prod.splits if_splits)
  from proxyRequest_queued [OF assms(2) p] have i: "conn_inv c1" by (auto simp: queued_def)
  obtain fin c2 h2 where f: "flushWrite os c1 h1 = (fin, c2, h2)" by (metis prod_cases3)
  from flushWrite_outcome [OF assms(1) i, of h1] f assms(3) p show ?thesis
    by (auto simp: proxyAnswer_def rearm_fits_def flush_post_def conn_ready_def Let_def keeps split: if_splits)
qed

lemma serveClient_fits:
  assumes "os_send_bounded os" "conn_ready c" "serveClient os pool f c h = Some (c', act, pool', h')"
  shows "rearm_fits (c', act, h')"
proof (cases "hasPendingWrite c")
  case True
  with assms resumeWrite_fits [of os c h] show ?thesis
    by (auto simp: serveClient_def conn_ready_def split: prod.splits)
next
  case False
  let ?r = "os h (Sys_recv f 8192)"
  obtain st p where c: "consume (c_parser c) (take (nat (sr_ret ?r)) (sr_data ?r)) = (st, p)" by fastforce
  have i: "conn_inv (c\<lparr>c_parser := p\<rparr>)" using assms(2) c recv_parser_inv by (simp add: conn_ready_def)
  have nw: "\<not> hasPendingWrite (c\<lparr>c_parser := p\<rparr>)" using False by (simp add: hasPendingWrite_def)
  from consume_reading [of "c_parser c" "take (nat (sr_ret ?r)) (sr_data ?r)"] c
  have "st = NeedMoreData \<Longrightarrow> parser_reading p" by simp
  moreover note bad = answerBadRequest_fits [OF assms(1) i, of "(Sys_recv f 8192, ?r) # h"]
  ultimately show ?thesis
    using False assms(2,3) i nw c proxyAnswer_fits [OF assms(1) i]
    by (cases st)
       (auto simp: serveClient_def rearm_fits_def conn_ready_def Let_def invoke_def
          split: if_splits prod.splits)
qed

subsection \<open>Properties\<close>

text \<open>C9: No request smuggling between the load balancer and its upstreams. Whatever bytes a client
  sent in whatever pieces, once the request is complete, the bytes the load balancer forwards are
  read by the upstream's parser as exactly one request, with nothing left over for the following
  bytes to attach to: same method, target, version and body, the same headers in the same order
  except that every \<open>Connection\<close> header says close, and a connection that is not kept.\<close>

theorem forwarded_unambiguous:
  assumes "parser_done (foldl (\<lambda>q c. snd (consume q c)) HttpParser_new cs)"
    and "req = p_req (foldl (\<lambda>q c. snd (consume q c)) HttpParser_new cs)"
  shows "\<exists>q. consume HttpParser_new (forwardText req @ rest) = (ParseComplete, q) \<and> p_buffer q = rest
    \<and> rq_method (p_req q) = rq_method req \<and> rq_target (p_req q) = rq_target req
    \<and> rq_version (p_req q) = rq_version req \<and> rq_body (p_req q) = rq_body req
    \<and> filter (\<lambda>kv. \<not> is_connection kv) (rq_headers (p_req q)) = filter (\<lambda>kv. \<not> is_connection kv) (rq_headers req)
    \<and> findHeader (rq_headers (p_req q)) ''Connection'' = Some ''close'' \<and> \<not> rq_keepAlive (p_req q)"
proof -
  have w: "wf_request req"
    using feed_all_inv [OF parser_inv_new, of cs] assms
    by (simp add: parser_inv_def parser_done_def wf_request_def)
  note close = is_connection_close
  have f: "filter (\<lambda>kv. \<not> is_connection kv) (rq_headers (forwarded req)) = filter (\<lambda>kv. \<not> is_connection kv) (rq_headers req)"
    using close by (simp add: forwarded_def filter_forwarded)
  have h: "findHeader (rq_headers (forwarded req)) ''Connection'' = Some ''close''"
    by (auto simp: forwarded_def findHeader_append forwarded_headers_find)
  show ?thesis
    unfolding forwardText_eq consume_text [OF forwarded_wf [OF w], of rest]
    using f h forwarded_close [of req] by (simp add: forwarded_def)
qed


theorem forwarded_unambiguous_witness:
  "\<exists>q. consume HttpParser_new (forwardText sample_request @ ''GET '') = (ParseComplete, q) \<and> p_buffer q = ''GET ''
     \<and> rq_body (p_req q) = ''hello''"
proof -
  let ?cs = "[''POST /api/ec'', ''ho HTTP/1.1'' @ CRLF @ ''Host: a:1'' @ CRLF @ ''Content-Length: 5'' @ CRLF,
    ''Connection: close'' @ CRLF @ CRLF @ ''hello'']"
  have d: "parser_done (foldl (\<lambda>q c. snd (consume q c)) HttpParser_new ?cs)"
    and r: "sample_request = p_req (foldl (\<lambda>q c. snd (consume q c)) HttpParser_new ?cs)" by code_simp+
  have "rq_body sample_request = ''hello''" by (simp add: sample_request_def)
  with forwarded_unambiguous [OF d r, of "''GET ''"] show ?thesis by auto
qed

lemma proxy_relays:
  assumes "os_send_bounded os" "conn_inv c" "pickNext pool = (Some i, pool')"
    and "ufd = sr_ret (os h Sys_socket)" "0 \<le> ufd"
    and "exchange_ready os ufd (up_upstreams pool ! i) req ((Sys_socket, os h Sys_socket) # h) h6"
    and "wf_response r" "recv_pos os ufd 8192 k h6"
    and "concat (recv_chunks os ufd 8192 k h6) = serialize r @ rest"
  shows "\<exists>c' h'. proxyRequest os pool c req h = Some (True, c', pool', h')
    \<and> pending c' = pending c @ serialize r \<and> c_pendingKeepAlive c' = rq_keepAlive req
    \<and> sent_bytes ufd h' = sent_bytes ufd h @ forwardText req"
proof -
  let ?r = "r\<lparr>rs_headers := printed_headers r,
      rs_keepAlive := connectionKeepAlive (printed_headers r) ''HTTP/1.1''\<rparr>"
  from recvResponse_text [OF assms(7-9)] obtain h7
    where rd: "recvResponse os ufd 8192 HttpResponseParser_new h6 = Some (Some ?r, h7)" by blast
  with exchange_ready_reads [OF assms(6)]
  have x: "upstreamExchange os ufd (up_upstreams pool ! i) req ((Sys_socket, os h Sys_socket) # h) = Some (Some ?r, h7)"
    by simp
  have f: "fst (pickNext pool) = Some i" "snd (pickNext pool) = pool'" using assms(3) by simp_all
  let ?c = "queueWrite (serialize r) (setPendingKeepAlive (rq_keepAlive req) c)"
  have p: "proxyRequest os pool c req h = Some (True, ?c, pool', (Sys_close ufd, os h7 (Sys_close ufd)) # h7)"
    using proxyRequest_Some [where os = os and h = h and c = c and req = req, OF f(1) assms(4)] assms(5) f(2) x serialize_printed [where r = r] by simp
  have q: "queued r (rq_keepAlive req) c ?c" by (rule queued_answer [OF assms(2)])
  have "sent_bytes ufd h7 = sent_bytes ufd h6"
    using recvResponse_read_post [OF rd] only_recvs_keeps(2) by (auto simp: read_post_def)
  moreover have "sent_bytes ufd h6 = sent_bytes ufd h @ forwardText req"
  proof -
    from assms(6) obtain r2 h2 r3 h3 r4 h4 r5 h5
      where s: "invoke os (Sys_setsockopt ufd (SO_RCVTIMEO 2 0)) ((Sys_socket, os h Sys_socket) # h) = (r2, h2)"
        "invoke os (Sys_setsockopt ufd (SO_SNDTIMEO 2 0)) h2 = (r3, h3)"
        "invoke os (Sys_inet_pton (u_host (up_upstreams pool ! i))) h3 = (r4, h4)"
        "invoke os (Sys_connect ufd (connectAddr (up_upstreams pool ! i) r4) (u_port (up_upstreams pool ! i))) h4 = (r5, h5)"
        "sendAll os ufd (forwardText req) h5 = (True, h6)"
      unfolding exchange_ready_def by blast
    have "sent_bytes ufd h5 = sent_bytes ufd h"
      using invoke_result [OF s(1)] invoke_result [OF s(2)] invoke_result [OF s(3)] invoke_result [OF s(4)] by simp
    with sendAll_sent(2) [OF s(5) assms(1)] show ?thesis by simp
  qed
  ultimately show ?thesis using p q by (auto simp: queued_def)
qed

text \<open>C27: A proxied request is relayed byte for byte. When an upstream is picked, accepts the
  connection and the request, and answers with the text of a well-formed response cut into reads
  in any way, the bytes sent to it are the forwarded request, and the bytes queued for the client
  are exactly that text (bytes that follow it in the reads are dropped); the client connection will be kept open exactly when the
  client's request asked for it.\<close>

theorem proxy_relays_bytes:
  assumes "os_send_bounded os" "conn_inv c" "pickNext pool = (Some i, pool')"
    and "ufd = sr_ret (os h Sys_socket)" "0 \<le> ufd"
    and "exchange_ready os ufd (up_upstreams pool ! i) req ((Sys_socket, os h Sys_socket) # h) h6"
    and "wf_response r" "recv_pos os ufd 8192 k h6"
    and "concat (recv_chunks os ufd 8192 k h6) = serialize r @ rest"
  shows "\<exists>c' h'. proxyRequest os pool c req h = Some (True, c', pool', h')
    \<and> pending c' = pending c @ serialize r \<and> c_pendingKeepAlive c' = rq_keepAlive req
    \<and> sent_bytes ufd h' = sent_bytes ufd h @ forwardText req"
  using assms by (rule proxy_relays)

definition one_upstream :: UpstreamPool where
  "one_upstream = UpstreamPool_new [(''127.0.0.1'', 9001)]"

lemma upstream_os_exchange:
  "\<exists>h6. exchange_ready (upstream_os text) f u req h h6
     \<and> recv_pos (upstream_os text) f 8192 1 h6 = (text \<noteq> [])
     \<and> recv_chunks (upstream_os text) f 8192 1 h6 = [text]"
proof -
  let ?os = "upstream_os text"
  obtain r2 h2 where 2: "invoke ?os (Sys_setsockopt f (SO_RCVTIMEO 2 0)) h = (r2, h2)" by fastforce
  obtain r3 h3 where 3: "invoke ?os (Sys_setsockopt f (SO_SNDTIMEO 2 0)) h2 = (r3, h3)" by fastforce
  obtain r4 h4 where 4: "invoke ?os (Sys_inet_pton (u_host u)) h3 = (r4, h4)" by fastforce
  obtain r5 h5 where 5: "invoke ?os (Sys_connect f (connectAddr u r4) (u_port u)) h4 = (r5, h5)" by fastforce
  have c: "sr_ret r5 = 0" using invoke_result [OF 5] by (simp add: upstream_os_def)
  let ?t = "forwardText req"
  let ?h6 = "(Sys_send f ?t, ?os h5 (Sys_send f ?t)) # h5"
  have n: "0 < length ?t" by (simp add: forwardText_eq requestText_def CRLF_def)
  have r: "sr_ret (?os h5 (Sys_send f ?t)) = int (length ?t)" by (simp add: upstream_os_def)
  have "sendAll ?os f ?t h5 = (True, ?h6)"
    using n r by (simp add: sendAll_def sendAllLoop.simps [of ?os f ?t 0 h5] Let_def invoke_def)
       (simp add: sendAllLoop.simps)
  with 2 3 4 5 c have "exchange_ready ?os f u req h ?h6" unfolding exchange_ready_def by auto
  moreover have "recv_pos ?os f 8192 1 ?h6 = (text \<noteq> [])" "recv_chunks ?os f 8192 1 ?h6 = [text]"
    unfolding One_nat_def by (simp_all add: upstream_os_def)
  ultimately show ?thesis by blast
qed

theorem proxy_relays_bytes_witness:
  "\<exists>c' pool' h'. proxyRequest (upstream_os (serialize ok_response)) one_upstream idle_conn sample_request []
       = Some (True, c', pool', h') \<and> pending c' = serialize ok_response"
proof -
  let ?os = "upstream_os (serialize ok_response)"
  obtain pool' where p: "pickNext one_upstream = (Some 0, pool')"
  proof -
    have "fst (pickNext one_upstream) = Some 0" by code_simp
    then show thesis using that by (metis prod.collapse)
  qed
  have s: "1 = sr_ret (?os [] Sys_socket)" by (simp add: upstream_os_def fresh_fd_def)
  have n: "serialize ok_response \<noteq> []" by code_simp
  obtain h6 where h6: "exchange_ready ?os 1 (up_upstreams one_upstream ! 0) sample_request
      ((Sys_socket, ?os [] Sys_socket) # []) h6"
    "recv_pos ?os 1 8192 1 h6" "concat (recv_chunks ?os 1 8192 1 h6) = serialize ok_response @ []"
    using upstream_os_exchange [of "serialize ok_response"] n by fastforce
  from proxy_relays_bytes [where os = ?os and h = "[]", OF upstream_os_send_bounded idle_conn_simps(1) p s _ h6(1)
      wf_ok_response h6(2,3)]
  show ?thesis by auto
qed

text \<open>C21: Every outcome of a proxied request: exactly one response is queued for the client, marked
  with the persistence the connection will have; failures (no healthy upstream, no socket, the
  exchange failed) queue 502 Bad Gateway; the pool advances by the one pick, the socket and the
  parser of the client are untouched, and every descriptor opened for the upstream is closed.\<close>

theorem proxy_outcome:
  assumes "os_fresh os" "conn_inv c" "proxyRequest os pool c req h = Some (ok, c', pool', h')"
  shows "\<exists>resp. pending c' = pending c @ serialize resp \<and> rs_keepAlive resp = c_pendingKeepAlive c'
    \<and> (ok \<longrightarrow> c_pendingKeepAlive c' = rq_keepAlive req)
    \<and> (\<not> ok \<longrightarrow> rs_status resp = 502 \<and> rs_reason resp = ''Bad Gateway'')
    \<and> (fst (pickNext pool) = None \<longrightarrow> \<not> ok \<and> h' = h)
    \<and> conn_inv c' \<and> c_sock c' = c_sock c \<and> c_parser c' = c_parser c
    \<and> pool' = snd (pickNext pool) \<and> open_fds h' = open_fds h"
proof -
  from proxyRequest_queued [OF assms(2,3)] obtain resp
    where q: "queued resp (c_pendingKeepAlive c') c c'" "rs_keepAlive resp = c_pendingKeepAlive c'"
      "ok \<longrightarrow> c_pendingKeepAlive c' = rq_keepAlive req"
      "\<not> ok \<longrightarrow> rs_status resp = 502 \<and> rs_reason resp = ''Bad Gateway''" by blast
  moreover have "fst (pickNext pool) = None \<longrightarrow> \<not> ok \<and> h' = h"
    using proxyRequest_None [of pool os c req h] assms(3) by auto
  ultimately show ?thesis using proxyRequest_open [OF assms(1,3)] by (auto simp: queued_def)
qed

theorem proxy_outcome_witness:
  "\<exists>c' pool' h' resp. proxyRequest down_os (UpstreamPool_new []) idle_conn sample_request [] = Some (False, c', pool', h')
     \<and> pending c' = serialize resp \<and> rs_status resp = 502 \<and> h' = []"
proof -
  have n: "fst (pickNext (UpstreamPool_new [])) = None" by code_simp
  from proxyRequest_None [OF n, of down_os idle_conn sample_request "[]"] obtain c' pool'
    where p: "proxyRequest down_os (UpstreamPool_new []) idle_conn sample_request [] = Some (False, c', pool', [])" by blast
  from proxy_outcome [OF down_os_fresh idle_conn_simps(1) p] p show ?thesis by auto
qed


text \<open>C29: The load balancer's worker leaves client connections as consistent as the server's: on
  every path of \<open>handleClientEvent\<close> that returns, the action posted waits for writability exactly
  when bytes are owed, and a connection that waits for input has a parser that reads; and the
  exchange returns whenever the upstream socket stops delivering at some point.\<close>

theorem lb_rearm_action_fits:
  assumes "os_send_bounded os" "conn_ready c"
  shows "(serveClient os pool f c h = Some (c', act, pool', h') \<longrightarrow>
      conn_inv c' \<and> (act = WaitWritable \<longleftrightarrow> hasPendingWrite c')
      \<and> (act = WaitReadable \<longrightarrow> parser_reading (c_parser c')) \<and> (act \<noteq> Close \<longrightarrow> conn_ready c'))
    \<and> ((\<forall>ufd h6. \<exists>k. sr_ret (os (recv_after os ufd 8192 k h6) (Sys_recv ufd 8192)) \<le> 0)
       \<longrightarrow> serveClient os pool f c h \<noteq> None)"
proof -
  have "serveClient os pool f c h \<noteq> None"
    if e: "\<forall>ufd h6. \<exists>k. sr_ret (os (recv_after os ufd 8192 k h6) (Sys_recv ufd 8192)) \<le> 0"
  proof -
    have "upstreamExchange os ufd u req g \<noteq> None" for ufd u req g
    proof (cases "\<exists>h6. exchange_ready os ufd u req g h6")
      case True
      then obtain h6 where r: "exchange_ready os ufd u req g h6" by blast
      from e obtain k where "sr_ret (os (recv_after os ufd 8192 k h6) (Sys_recv ufd 8192)) \<le> 0" by blast
      from recvResponse_returns [where os = os and f = ufd and sz = 8192 and k = k and h = h6, OF this] exchange_ready_reads [OF r] show ?thesis by fastforce
    next
      case False
      with exchange_not_ready show ?thesis by fastforce
    qed
    then have x: "\<exists>y. upstreamExchange os ufd u req g = Some y" for ufd u req g by blast
    have "proxyRequest os pool c req g \<noteq> None" for c req g
    proof (cases "fst (pickNext pool)")
      case None
      then show ?thesis by (simp add: proxyRequest_None)
    next
      case (Some i)
      from x obtain y where "upstreamExchange os (sr_ret (os g Sys_socket)) (up_upstreams pool ! i) req
          ((Sys_socket, os g Sys_socket) # g) = Some y" by blast
      then show ?thesis by (auto simp: proxyRequest_Some [OF Some refl] split: prod.splits)
    qed
    then have "proxyAnswer os pool c g \<noteq> None" for c g
      by (auto simp: proxyAnswer_def Let_def split: option.splits prod.splits)
    then show ?thesis
      by (auto simp: serveClient_def Let_def split: prod.splits ParseStatus.splits)
  qed
  moreover have "serveClient os pool f c h = Some (c', act, pool', h') \<Longrightarrow>
      conn_inv c' \<and> (act = WaitWritable \<longleftrightarrow> hasPendingWrite c')
      \<and> (act = WaitReadable \<longrightarrow> parser_reading (c_parser c')) \<and> (act \<noteq> Close \<longrightarrow> conn_ready c')"
    using serveClient_fits [OF assms, of pool f h c' act pool' h']
    by (cases act) (auto simp: rearm_fits_def conn_ready_def)
  ultimately show ?thesis by blast
qed

theorem lb_rearm_action_fits_witness:
  "\<exists>c' act pool' h'. serveClient quiet_os one_upstream 4 idle_conn [] = Some (c', act, pool', h') \<and> conn_inv c'"
proof -
  have b: "os_send_bounded quiet_os" by (simp add: os_send_bounded_def quiet_os_def)
  have e: "\<forall>ufd h6. \<exists>k. sr_ret (quiet_os (recv_after quiet_os ufd 8192 k h6) (Sys_recv ufd 8192)) \<le> 0"
    by (simp add: quiet_os_def)
  from lb_rearm_action_fits [OF b idle_conn_simps(2)] e
  obtain c' act pool' h' where s: "serveClient quiet_os one_upstream 4 idle_conn [] = Some (c', act, pool', h')"
    by (metis option.exhaust prod_cases4)
  with lb_rearm_action_fits [OF b idle_conn_simps(2)] show ?thesis by blast
qed

end
