(* ===== verification/Upstream_Flags.thy ===== *)
theory Upstream_Flags
  imports Load_Balancer "HOL-Library.Sublist"
begin

section \<open>Where the flags of the upstreams come from\<close>

text \<open>
  The health thread exchanges one flag after each probe while workers read them. Whatever the
  interleaving, a flag is the one the upstream had at the start or the verdict of a probe of that
  upstream that is part of the history of the run. This theory has the predicates and their
  preservation; \<open>Pooled_Balancer\<close> and \<open>Conversations\<close> use them for the load balancer with all its
  threads.
\<close>

text \<open>A probe in the history, with its verdict: it started at an earlier point of the history and what
  it left is part of it.\<close>

definition probe_in :: "os \<Rightarrow> history \<Rightarrow> Upstream \<Rightarrow> bool \<Rightarrow> bool" where
  "probe_in os h u ok \<longleftrightarrow> (\<exists>h1 h2. probeOnce os u h1 = Some (ok, h2) \<and> suffix h1 h2 \<and> suffix h2 h)"

definition flags_ok :: "os \<Rightarrow> UpstreamPool \<Rightarrow> UpstreamPool \<Rightarrow> history \<Rightarrow> bool" where
  "flags_ok os p0 p h \<longleftrightarrow> length (up_upstreams p) = length (up_upstreams p0)
     \<and> (\<forall>i < length (up_upstreams p0). up_upstreams p ! i = up_upstreams p0 ! i
           \<or> (\<exists>ok. up_upstreams p ! i = (up_upstreams p0 ! i)\<lparr>u_healthy := ok\<rparr> \<and> probe_in os h (up_upstreams p0 ! i) ok))"

text \<open>The flag that a configured upstream may have.\<close>

definition may_be :: "os \<Rightarrow> UpstreamPool \<Rightarrow> history \<Rightarrow> Upstream \<Rightarrow> bool \<Rightarrow> bool" where
  "may_be os p0 h u ok \<longleftrightarrow> u \<in> set (up_upstreams p0) \<and> (u_healthy u = ok \<or> probe_in os h u ok)"

lemma probe_in_mono: "probe_in os h u ok \<Longrightarrow> suffix h h' \<Longrightarrow> probe_in os h' u ok"
  unfolding probe_in_def by (meson suffix_order.trans)

lemma flags_ok_mono: "flags_ok os p0 p h \<Longrightarrow> suffix h h' \<Longrightarrow> flags_ok os p0 p h'"
  unfolding flags_ok_def using probe_in_mono by blast

lemma flags_ok_refl: "flags_ok os p p h"
  by (simp add: flags_ok_def)

lemma flags_ok_cong: "up_upstreams p' = up_upstreams p \<Longrightarrow> flags_ok os p0 p h \<Longrightarrow> flags_ok os p0 p' h"
  by (simp add: flags_ok_def)

lemma probeOnce_flag: "probeOnce os (u\<lparr>u_healthy := b\<rparr>) h = probeOnce os u h"
proof -
  have "u_host (u\<lparr>u_healthy := b\<rparr>) = u_host u" "u_port (u\<lparr>u_healthy := b\<rparr>) = u_port u" by simp_all
  then show ?thesis by (simp only: probeOnce_def)
qed

lemma upstreamExchange_flag: "upstreamExchange os f (u\<lparr>u_healthy := b\<rparr>) req h = upstreamExchange os f u req h"
proof -
  have "u_host (u\<lparr>u_healthy := b\<rparr>) = u_host u" "u_port (u\<lparr>u_healthy := b\<rparr>) = u_port u" by simp_all
  then show ?thesis by (simp only: upstreamExchange_def connectAddr_def)
qed

lemma flags_ok_same:
  assumes "flags_ok os p0 p h" "i < length (up_upstreams p)"
  shows "up_upstreams p ! i = (up_upstreams p0 ! i)\<lparr>u_healthy := u_healthy (up_upstreams p ! i)\<rparr>
    \<and> may_be os p0 h (up_upstreams p0 ! i) (u_healthy (up_upstreams p ! i))"
proof -
  have l: "i < length (up_upstreams p0)" using assms by (simp add: flags_ok_def)
  with assms(1) consider "up_upstreams p ! i = up_upstreams p0 ! i"
    | ok where "up_upstreams p ! i = (up_upstreams p0 ! i)\<lparr>u_healthy := ok\<rparr>" "probe_in os h (up_upstreams p0 ! i) ok"
    unfolding flags_ok_def by blast
  then show ?thesis by cases (use l in \<open>simp_all add: may_be_def\<close>)
qed

lemma flags_ok_probe:
  assumes "flags_ok os p0 p h" "i < length (up_upstreams p)" "probeOnce os (up_upstreams p ! i) h = Some (ok, h')" "suffix h h'"
  shows "flags_ok os p0 (set_healthy i ok p) h'"
proof -
  have l: "length (up_upstreams p) = length (up_upstreams p0)" using assms(1) by (simp add: flags_ok_def)
  obtain b where b: "up_upstreams p ! i = (up_upstreams p0 ! i)\<lparr>u_healthy := b\<rparr>"
    using flags_ok_same [OF assms(1,2)] by blast
  with assms(3) have "probeOnce os (up_upstreams p0 ! i) h = Some (ok, h')" by (simp add: probeOnce_flag)
  with assms(4) have "probe_in os h' (up_upstreams p0 ! i) ok" unfolding probe_in_def by blast
  then have "up_upstreams (set_healthy i ok p) ! i = (up_upstreams p0 ! i)\<lparr>u_healthy := ok\<rparr>
      \<and> probe_in os h' (up_upstreams p0 ! i) ok" using assms(2) b by simp
  moreover have "up_upstreams (set_healthy i ok p) ! j = up_upstreams p ! j" if "j \<noteq> i" for j using that by simp
  ultimately show ?thesis using flags_ok_mono [OF assms(1,4)] l unfolding flags_ok_def by (metis set_healthy_simps(1))
qed

text \<open>What a pick says of the probes.\<close>

lemma flags_ok_picked:
  assumes "flags_ok os p0 p h" "fst (pickNext p) = Some i"
  shows "may_be os p0 h (up_upstreams p0 ! i) True
    \<and> upstreamExchange os f (up_upstreams p ! i) req h1 = upstreamExchange os f (up_upstreams p0 ! i) req h1"
proof -
  from pickNext_Some [OF assms(2)] have i: "i < length (up_upstreams p)" "u_healthy (up_upstreams p ! i)" by auto
  with flags_ok_same [OF assms(1) i(1)] have u: "up_upstreams p ! i = (up_upstreams p0 ! i)\<lparr>u_healthy := True\<rparr>"
    "may_be os p0 h (up_upstreams p0 ! i) True" by auto
  with upstreamExchange_flag show ?thesis by simp
qed

lemma flags_ok_nobody:
  assumes "flags_ok os p0 p h" "fst (pickNext p) = None" "u \<in> set (up_upstreams p0)"
  shows "may_be os p0 h u False"
proof -
  from assms(3) obtain i where i: "i < length (up_upstreams p0)" "u = up_upstreams p0 ! i" by (auto simp: in_set_conv_nth)
  then have l: "i < length (up_upstreams p)" using assms(1) by (simp add: flags_ok_def)
  with assms(2) pickNext_None_iff have "\<not> u_healthy (up_upstreams p ! i)" by blast
  with flags_ok_same [OF assms(1) l] i(2) show ?thesis by simp
qed

end
