(* ===== verification/Proxy_Session.thy ===== *)
theory Proxy_Session
  imports Session Upstream_Flags
begin

section \<open>A client of the load balancer over its whole life\<close>

text \<open>
  The same question for the load balancer as \<open>Session\<close> answers for the server: what a client gets
  for what it sends. The specification is not a function, since the answer to a request depends on
  the upstreams: each complete request is answered by one response, which is what the exchange
  with an upstream gave that the worker made right after it had read the end of the request, or a
  502 for which the history has the reason. While a worker proxies, its calls go to a socket of its own, which is
  another descriptor than the client's as long as the client's is open.
\<close>

subsection \<open>The specification\<close>

text \<open>The history at the moment when the last of the pieces \<open>seen\<close> since the start \<open>h0\<close> of the connection
  has just been read.\<close>

definition just_read :: "fd \<Rightarrow> history \<Rightarrow> history \<Rightarrow> string list \<Rightarrow> bool" where
  "just_read f h0 hr seen \<longleftrightarrow>
     (\<exists>r h1. hr = (Sys_recv f 8192, r) # h1 \<and> 0 < sr_ret r) \<and> chunks f hr = chunks f h0 @ seen"

text \<open>The exchange for a request in the history \<open>h\<close>: on a socket opened right after the read, with a
  configured upstream that could be taken to be healthy.\<close>

definition exchanged ::
    "os \<Rightarrow> UpstreamPool \<Rightarrow> fd \<Rightarrow> history \<Rightarrow> history \<Rightarrow> string list \<Rightarrow> HttpRequest \<Rightarrow> HttpResponse option \<Rightarrow> bool" where
  "exchanged os p0 f h0 h seen req res \<longleftrightarrow>
     (\<exists>hr u h2. just_read f h0 hr seen \<and> may_be os p0 hr u True \<and> 0 \<le> sr_ret (os hr Sys_socket)
        \<and> upstreamExchange os (sr_ret (os hr Sys_socket)) u req ((Sys_socket, os hr Sys_socket) # hr) = Some (res, h2)
        \<and> suffix h2 h)"

text \<open>What may answer a request: the response of that exchange, a 502 because the exchange failed, or a
  502 because no socket could be opened or no upstream could be taken to be healthy at that moment.\<close>

definition proxy_reply ::
    "os \<Rightarrow> UpstreamPool \<Rightarrow> fd \<Rightarrow> history \<Rightarrow> history \<Rightarrow> string list \<Rightarrow> HttpRequest \<Rightarrow> HttpResponse \<Rightarrow> bool \<Rightarrow> bool" where
  "proxy_reply os p0 f h0 h seen req resp ka \<longleftrightarrow>
     (\<exists>r. exchanged os p0 f h0 h seen req (Some r) \<and> resp = r\<lparr>rs_keepAlive := ka\<rparr> \<and> ka = rq_keepAlive req)
     \<or> exchanged os p0 f h0 h seen req None \<and> ka = rq_keepAlive req
         \<and> resp = (badGateway ''{\"error\":\"upstream request failed\"}'')\<lparr>rs_keepAlive := ka\<rparr>
     \<or> (\<exists>hr. just_read f h0 hr seen \<and> suffix ((Sys_socket, os hr Sys_socket) # hr) h \<and> sr_ret (os hr Sys_socket) < 0 \<and> \<not> ka
         \<and> resp = (badGateway ''{\"error\":\"upstream connect failed\"}'')\<lparr>rs_keepAlive := ka\<rparr>)
     \<or> (\<exists>hr. just_read f h0 hr seen \<and> suffix hr h \<and> (\<forall>u \<in> set (up_upstreams p0). may_be os p0 hr u False) \<and> \<not> ka
         \<and> resp = (badGateway ''{\"error\":\"no healthy upstream\"}'')\<lparr>rs_keepAlive := ka\<rparr>)"

lemma exchanged_mono:
  "exchanged os p0 f h0 h seen req res \<Longrightarrow> suffix h h' \<Longrightarrow> exchanged os p0 f h0 h' seen req res"
  unfolding exchanged_def by (meson suffix_order.trans)

lemma proxy_reply_mono:
  assumes "proxy_reply os p0 f h0 h seen req resp ka" "suffix h h'"
  shows "proxy_reply os p0 f h0 h' seen req resp ka"
proof -
  have t: "suffix x h \<Longrightarrow> suffix x h'" for x using assms(2) by (rule suffix_order.trans [rotated])
  from assms(1) exchanged_mono [OF _ assms(2)] show ?thesis
    unfolding proxy_reply_def by (elim disjE exE conjE) (blast dest: t)+
qed

datatype exchange = Proxied HttpRequest HttpResponse | Rejected

fun exchange_text :: "exchange \<Rightarrow> string" where
  "exchange_text (Proxied req resp) = serialize resp"
| "exchange_text Rejected = serialize badRequest"

fun proxy_reads ::
    "os \<Rightarrow> UpstreamPool \<Rightarrow> fd \<Rightarrow> history \<Rightarrow> history \<Rightarrow> HttpParser \<Rightarrow> string list \<Rightarrow> string list \<Rightarrow> exchange list \<Rightarrow> HttpParser \<Rightarrow> bool" where
  "proxy_reads os p0 f h0 h p seen [] xs q \<longleftrightarrow> xs = [] \<and> q = p"
| "proxy_reads os p0 f h0 h p seen (c # cs) xs q \<longleftrightarrow>
     (case consume p c of
        (NeedMoreData, p1) \<Rightarrow> proxy_reads os p0 f h0 h p1 (seen @ [c]) cs xs q
      | (ParseComplete, p1) \<Rightarrow> (\<exists>resp ka ys. xs = Proxied (p_req p1) resp # ys
            \<and> proxy_reply os p0 f h0 h (seen @ [c]) (p_req p1) resp ka
            \<and> proxy_reads os p0 f h0 h HttpParser_new (seen @ [c]) cs ys q)
      | (ParseError, p1) \<Rightarrow> (\<exists>ys. xs = Rejected # ys \<and> proxy_reads os p0 f h0 h p1 (seen @ [c]) cs ys q))"

definition proxy_session :: "os \<Rightarrow> UpstreamPool \<Rightarrow> session" where
  "proxy_session os p0 f h0 h cs p out \<longleftrightarrow>
     (\<exists>xs. proxy_reads os p0 f h0 h HttpParser_new [] cs xs p \<and> out = concat (map exchange_text xs))"

lemma proxy_reads_mono:
  "proxy_reads os p0 f h0 h p seen cs xs q \<Longrightarrow> suffix h h' \<Longrightarrow> proxy_reads os p0 f h0 h' p seen cs xs q"
proof (induction cs arbitrary: p seen xs)
  case (Cons c cs)
  then show ?case using proxy_reply_mono [OF _ Cons.prems(2)] by (fastforce split: prod.splits ParseStatus.splits)
qed simp

lemma proxy_session_grows: "grows (proxy_session os p0)"
  unfolding grows_def proxy_session_def using proxy_reads_mono by (metis suffix_def)

lemma proxy_reads_snoc:
  "proxy_reads os p0 f h0 h p seen cs xs p1 \<Longrightarrow> proxy_reads os p0 f h0 h p1 (seen @ cs) [c] ys q \<Longrightarrow>
     proxy_reads os p0 f h0 h p seen (cs @ [c]) (xs @ ys) q"
proof (induction cs arbitrary: p seen xs)
  case (Cons d cs)
  then show ?case by (auto split: prod.splits ParseStatus.splits)
qed simp

lemma proxy_session_snoc:
  "proxy_session os p0 f h0 h cs p out \<Longrightarrow> proxy_reads os p0 f h0 h p cs [c] xs q \<Longrightarrow>
     proxy_session os p0 f h0 h (cs @ [c]) q (out @ concat (map exchange_text xs))"
  unfolding proxy_session_def using proxy_reads_snoc [of os p0 f h0 h _ "[]"] by (metis append_Nil concat_append map_append)

subsection \<open>Calls on other descriptors\<close>

definition foreign :: "fd \<Rightarrow> history \<Rightarrow> history \<Rightarrow> bool" where
  "foreign f h h' \<longleftrightarrow> (\<exists>k. h' = k @ h \<and> (\<forall>x \<in> set k. \<not> transfers f (fst x)))"

lemma foreign_keeps:
  assumes "foreign f h h'"
  shows "chunks f h' = chunks f h \<and> sent_bytes f h' = sent_bytes f h \<and> send_errors f h' = send_errors f h"
proof -
  have "\<forall>x \<in> set k. \<not> transfers f (fst x) \<Longrightarrow>
      chunks f (k @ h) = chunks f h \<and> sent_bytes f (k @ h) = sent_bytes f h \<and> send_errors f (k @ h) = send_errors f h" for k
  proof (induction k)
    case (Cons x k)
    then show ?case using other_call [of f "fst x" "snd x" "k @ h"] by simp
  qed simp
  with assms show ?thesis by (auto simp: foreign_def)
qed

lemma foreign_refl [simp]: "foreign f h h"
  by (simp add: foreign_def)

lemma foreign_call: "foreign f h h1 \<Longrightarrow> \<not> transfers f c \<Longrightarrow> foreign f h ((c, r) # h1)"
  unfolding foreign_def by (metis Cons_eq_appendI fst_conv set_ConsD)

lemma foreign_trans: "foreign f h h1 \<Longrightarrow> foreign f h1 h2 \<Longrightarrow> foreign f h h2"
  unfolding foreign_def by (metis UnE append.assoc set_append)

lemma foreign_sends: "only_sends g h h' \<Longrightarrow> g \<noteq> f \<Longrightarrow> foreign f h h'"
  unfolding only_sends_def foreign_def by fastforce

lemma foreign_recvs: "only_recvs g h h' \<Longrightarrow> g \<noteq> f \<Longrightarrow> foreign f h h'"
  unfolding only_recvs_def foreign_def by fastforce

lemma upstreamExchange_foreign:
  assumes "upstreamExchange os ufd u req h = Some (res, h')" "ufd \<noteq> f"
  shows "foreign f h h'"
proof -
  obtain r2 h2 where 2: "invoke os (Sys_setsockopt ufd (SO_RCVTIMEO 2 0)) h = (r2, h2)" by fastforce
  obtain r3 h3 where 3: "invoke os (Sys_setsockopt ufd (SO_SNDTIMEO 2 0)) h2 = (r3, h3)" by fastforce
  obtain r4 h4 where 4: "invoke os (Sys_inet_pton (u_host u)) h3 = (r4, h4)" by fastforce
  obtain r5 h5 where 5: "invoke os (Sys_connect ufd (connectAddr u r4) (u_port u)) h4 = (r5, h5)" by fastforce
  obtain ok h6 where 6: "sendAll os ufd (forwardText req) h5 = (ok, h6)" by fastforce
  have f5: "foreign f h h5"
    using invoke_result [OF 2] invoke_result [OF 3] invoke_result [OF 4] invoke_result [OF 5] by (simp add: foreign_call)
  have f6: "foreign f h h6" using f5 foreign_sends [OF sendAll_sent(1) [OF 6] assms(2)] by (rule foreign_trans)
  have f7: "foreign f h h'" if "recvResponse os ufd 8192 HttpResponseParser_new h6 = Some (res, h')"
  proof -
    have "only_recvs ufd h6 h'" using recvResponse_read_post [OF that] by (auto simp: read_post_def)
    from foreign_trans [OF f6 foreign_recvs [OF this assms(2)]] show ?thesis .
  qed
  have x: "(if sr_ret r5 = 0 then if ok then recvResponse os ufd 8192 HttpResponseParser_new h6 else Some (None, h6)
      else Some (None, h5)) = Some (res, h')"
    using assms(1) unfolding upstreamExchange_def Let_def 2 3 4 5 6 prod.case .
  show ?thesis
  proof (cases "sr_ret r5 = 0 \<and> ok")
    case True
    with x have r: "recvResponse os ufd 8192 HttpResponseParser_new h6 = Some (res, h')" by simp
    from f7 [OF r] show ?thesis .
  next
    case False
    with x have "res = None" "h' = h5 \<or> h' = h6" by (auto split: if_splits)
    with f5 f6 show ?thesis by auto
  qed
qed

lemma proxyRequest_reply:
  assumes "os_fresh os" "f \<in> open_fds hr" "flags_ok os p0 pool hr" "proxyRequest os pool c req hr = Some (ok, c', pool', h')"
  shows "foreign f hr h' \<and> (\<exists>resp ka. c' = queueWrite (serialize resp) (setPendingKeepAlive ka c)
    \<and> (\<forall>h0 seen. just_read f h0 hr seen \<longrightarrow> proxy_reply os p0 f h0 h' seen req resp ka))"
proof (cases "fst (pickNext pool)")
  case None
  have "\<forall>u \<in> set (up_upstreams p0). may_be os p0 hr u False" using flags_ok_nobody [OF assms(3) None] by blast
  with None assms(4) proxyRequest_None [of pool os c req hr] show ?thesis by (auto simp: refuseProxy_def proxy_reply_def)
next
  case (Some i)
  let ?ufd = "sr_ret (os hr Sys_socket)" and ?h1 = "(Sys_socket, os hr Sys_socket) # hr"
  have h1: "foreign f hr ?h1" by (simp add: foreign_call)
  show ?thesis
  proof (cases "?ufd < 0")
    case True
    with assms(4) proxyRequest_Some [OF Some refl, of os c req hr] h1 show ?thesis
      by (auto simp: refuseProxy_def proxy_reply_def)
  next
    case False
    with assms(1,2) have ne: "?ufd \<noteq> f" by (auto simp: os_fresh_def)
    from False assms(4) proxyRequest_Some [OF Some refl, of os c req hr] obtain res h2
      where x: "upstreamExchange os ?ufd (up_upstreams pool ! i) req ?h1 = Some (res, h2)"
        and c': "c' = queueWrite (serialize ((case res of Some resp \<Rightarrow> resp
            | None \<Rightarrow> badGateway ''{\"error\":\"upstream request failed\"}'')\<lparr>rs_keepAlive := rq_keepAlive req\<rparr>))
              (setPendingKeepAlive (rq_keepAlive req) c)"
        and h': "h' = (Sys_close ?ufd, os h2 (Sys_close ?ufd)) # h2" by (auto split: option.splits)
    have "foreign f hr h'" unfolding h'
      by (rule foreign_call [OF foreign_trans [OF h1]]) (use upstreamExchange_foreign [OF x ne] in simp_all)
    moreover have e: "exchanged os p0 f h0 h' seen req res" if "just_read f h0 hr seen" for h0 seen
      using that False flags_ok_picked [OF assms(3) Some] x unfolding exchanged_def h'
      by (intro exI [of _ hr] exI [of _ "up_upstreams p0 ! i"] exI [of _ h2]) (simp add: suffix_ConsI)
    have "proxy_reply os p0 f h0 h' seen req ((case res of Some resp \<Rightarrow> resp
            | None \<Rightarrow> badGateway ''{\"error\":\"upstream request failed\"}'')\<lparr>rs_keepAlive := rq_keepAlive req\<rparr>) (rq_keepAlive req)"
      if "just_read f h0 hr seen" for h0 seen
      using e [OF that] by (cases res) (auto simp: proxy_reply_def)
    ultimately show ?thesis using c' by blast
  qed
qed

subsection \<open>The refinement\<close>

text \<open>The path of a complete request: the proxy's calls are foreign to the client, and then its answer is
  written.\<close>

lemma proxy_rel_answer:
  assumes "os_send_bounded os" "os_fresh os" "f \<in> open_fds h1" "conn_inv c1" "conn_fd c1 = f" "pending c1 = []"
    and "send_errors f h0 \<le> send_errors f h1" "proxyAnswer os pool c1 h1 = Some (c', act, pool', h')" "flags_ok os p0 pool h1"
    and "send_errors f h1 = send_errors f h0 \<Longrightarrow> \<exists>cs out. just_read f h0 h1 cs \<and> sent_bytes f h1 = sent_bytes f h0 @ out
      \<and> (\<forall>h2 resp ka. suffix h1 h2 \<longrightarrow> proxy_reply os p0 f h0 h2 cs (p_req (c_parser c1)) resp ka \<longrightarrow>
           proxy_session os p0 f h0 h2 cs HttpParser_new (out @ serialize resp))"
  shows "session_rel (proxy_session os p0) f h0 c' h' (act \<noteq> Close)"
proof -
  from assms(8) obtain ok c2 h2 where p: "proxyRequest os pool c1 (p_req (c_parser c1)) h1 = Some (ok, c2, pool', h2)"
    by (auto simp: proxyAnswer_def Let_def split: option.splits prod.splits if_splits)
  from proxyRequest_reply [OF assms(2,3,9) p] obtain resp ka
    where w: "foreign f h1 h2" "c2 = queueWrite (serialize resp) (setPendingKeepAlive ka c1)"
      "\<forall>seen. just_read f h0 h1 seen \<longrightarrow> proxy_reply os p0 f h0 h2 seen (p_req (c_parser c1)) resp ka" by blast
  note k = foreign_keeps [OF w(1)]
  have sx: "suffix h1 h2" using w(1) by (auto simp: foreign_def suffix_def)
  obtain fin c3 h3 where f: "flushWrite os c2 h2 = (fin, c3, h3)" by (metis prod_cases3)
  have r: "h' = h3" "c' = (if fin then reset_parser c3 else c3)"
    using assms(8) p f by (auto simp: proxyAnswer_def Let_def split: if_splits)
  then have n: "fin \<Longrightarrow> c_parser c' = HttpParser_new" by (simp add: reset_parser_def parser_reset_new)
  show ?thesis unfolding r(1)
  proof (rule session_rel_write [OF assms(1) proxy_session_grows assms(4-6) _ f [unfolded w(2)], of h0 c'])
    show "send_errors f h0 \<le> send_errors f h2" using k assms(7) by simp
    show "c' = c3 \<or> c' = reset_parser c3" using r(2) by simp
    assume "send_errors f h2 = send_errors f h0"
    with k have "send_errors f h1 = send_errors f h0" by simp
    from assms(10) [OF this] obtain cs out where cs: "just_read f h0 h1 cs" "sent_bytes f h1 = sent_bytes f h0 @ out"
      "proxy_session os p0 f h0 h2 cs HttpParser_new (out @ serialize resp)" using w(3) sx by blast
    with k n show "\<exists>cs p o'. chunks f h2 = chunks f h0 @ cs \<and> proxy_session os p0 f h0 h2 cs p o'
      \<and> sent_bytes f h2 @ serialize resp = sent_bytes f h0 @ o' \<and> (p = HttpParser_new \<or> \<not> ka)
      \<and> (act \<noteq> Close \<and> fin \<longrightarrow> c_parser c' = p)"
      by (intro exI [of _ cs] exI [of _ HttpParser_new] exI [of _ "out @ serialize resp"]) (simp add: just_read_def)
  qed
qed

lemma proxy_rel_read:
  assumes "os_send_bounded os" "os_fresh os" "f \<in> open_fds h" "session_rel (proxy_session os p0) f h0 c h True"
    and "\<not> hasPendingWrite c" "serveClient os pool f c h = Some (c', act, pool', h')" "flags_ok os p0 pool h"
  shows "session_rel (proxy_session os p0) f h0 c' h' (act \<noteq> Close)"
proof -
  let ?r = "os h (Sys_recv f 8192)"
  let ?h1 = "(Sys_recv f 8192, ?r) # h" and ?d = "take (nat (sr_ret ?r)) (sr_data ?r)"
  from assms(4,5) have i: "conn_inv c" "conn_fd c = f" "pending c = []" "send_errors f h0 \<le> send_errors f ?h1"
    using not_hasPendingWrite by (auto simp: session_rel_def)
  show ?thesis
  proof (cases "0 < sr_ret ?r")
    case False
    with assms(5,6) have "c' = c" "h' = ?h1" by (auto simp: serveClient_def invoke_def Let_def split: if_splits)
    with session_rel_nothing [OF proxy_session_grows assms(4) False] show ?thesis by simp
  next
    case True
    obtain st q where q: "consume (c_parser c) ?d = (st, q)" by fastforce
    define c1 where "c1 = c\<lparr>c_parser := q\<rparr>"
    have i1: "conn_inv c1" "conn_fd c1 = f" "pending c1 = []" "c_parser c1 = q"
      using recv_parser_inv [OF i(1) q] i by (simp_all add: c1_def conn_fd_def pending_def)
    have sv: "(case st of NeedMoreData \<Rightarrow> Some (c1, WaitReadable, pool, ?h1)
        | ParseError \<Rightarrow> (let (c, a, h2) = answerBadRequest os c1 ?h1 in Some (c, a, pool, h2))
        | ParseComplete \<Rightarrow> proxyAnswer os pool c1 ?h1) = Some (c', act, pool', h')"
      unfolding c1_def using assms(5,6) True q by (simp add: serveClient_def Let_def invoke_def)
    have spec: "\<exists>cs out. chunks f ?h1 = chunks f h0 @ cs @ [?d] \<and> sent_bytes f ?h1 = sent_bytes f h0 @ out
        \<and> (\<forall>h2 xs p'. suffix ?h1 h2 \<longrightarrow> proxy_reads os p0 f h0 h2 (c_parser c) cs [?d] xs p' \<longrightarrow>
             proxy_session os p0 f h0 h2 (cs @ [?d]) p' (out @ concat (map exchange_text xs)))"
      if e: "send_errors f ?h1 = send_errors f h0"
    proof -
      from session_rel_piece [OF proxy_session_grows assms(4) i(3) True e] obtain cs out
        where cs: "proxy_session os p0 f h0 ?h1 cs (c_parser c) out" "sent_bytes f ?h1 = sent_bytes f h0 @ out"
          "chunks f ?h1 = chunks f h0 @ cs @ [?d]" by blast
      have "proxy_session os p0 f h0 h2 cs (c_parser c) out" if "suffix ?h1 h2" for h2
        using proxy_session_grows [of os p0] cs(1) that unfolding grows_def suffix_def by blast
      with cs(2,3) proxy_session_snoc show ?thesis by blast
    qed
    show ?thesis
    proof (cases st)
      case NeedMoreData
      with sv have e: "c' = c1" "h' = ?h1" by simp_all
      have "proxy_reads os p0 f h0 ?h1 (c_parser c) cs [?d] [] q" for cs using q NeedMoreData by simp
      with spec i1(4) show ?thesis unfolding e by (intro session_rel_wait [OF i1(1-3) i(4)]) fastforce
    next
      case ParseError
      obtain ok c2 h2 where f: "flushWrite os (queueWrite (serialize badRequest) (setPendingKeepAlive False c1)) ?h1 = (ok, c2, h2)"
        by (metis prod_cases3)
      with sv ParseError have r: "h' = h2" "c' = c2" "act = (if ok then Close else WaitWritable)"
        by (auto simp: answerBadRequest_def Let_def)
      have pr: "proxy_reads os p0 f h0 ?h1 (c_parser c) cs [?d] [Rejected] q" for cs using q ParseError by simp
      have "\<exists>cs p o'. chunks f ?h1 = chunks f h0 @ cs \<and> proxy_session os p0 f h0 ?h1 cs p o'
          \<and> sent_bytes f ?h1 @ serialize badRequest = sent_bytes f h0 @ o'" if "send_errors f ?h1 = send_errors f h0"
      proof -
        from spec [OF that] pr obtain cs out where cs: "chunks f ?h1 = chunks f h0 @ cs @ [?d]"
          "sent_bytes f ?h1 = sent_bytes f h0 @ out"
          "proxy_session os p0 f h0 ?h1 (cs @ [?d]) q (out @ concat (map exchange_text [Rejected]))" by blast
        then show ?thesis by (intro exI [of _ "cs @ [?d]"] exI [of _ q] exI [of _ "out @ serialize badRequest"]) simp
      qed
      with r show ?thesis
        by (intro session_rel_write [OF assms(1) proxy_session_grows i1(1-3) i(4) f, of c', folded r(1)]) auto
    next
      case ParseComplete
      with sv have a: "proxyAnswer os pool c1 ?h1 = Some (c', act, pool', h')" by simp
      have o: "f \<in> open_fds ?h1" using assms(3) by simp
      have fl: "flags_ok os p0 pool ?h1" using assms(7) by (rule flags_ok_mono) (simp add: suffix_ConsI)
      show ?thesis
      proof (rule proxy_rel_answer [OF assms(1,2) o i1(1-3) i(4) a fl])
        assume e: "send_errors f ?h1 = send_errors f h0"
        from spec [OF e] obtain cs out where cs: "chunks f ?h1 = chunks f h0 @ cs @ [?d]" "sent_bytes f ?h1 = sent_bytes f h0 @ out"
          and sp: "\<forall>h2 xs p'. suffix ?h1 h2 \<longrightarrow> proxy_reads os p0 f h0 h2 (c_parser c) cs [?d] xs p' \<longrightarrow>
             proxy_session os p0 f h0 h2 (cs @ [?d]) p' (out @ concat (map exchange_text xs))" by blast
        have "just_read f h0 ?h1 (cs @ [?d])" using cs(1) True unfolding just_read_def by blast
        moreover have "proxy_session os p0 f h0 h2 (cs @ [?d]) HttpParser_new (out @ serialize resp)"
          if "suffix ?h1 h2" "proxy_reply os p0 f h0 h2 (cs @ [?d]) (p_req (c_parser c1)) resp ka" for h2 resp ka
        proof -
          have "proxy_reads os p0 f h0 h2 (c_parser c) cs [?d] [Proxied (p_req q) resp] HttpParser_new"
            using that(2) q ParseComplete i1(4) by auto
          with sp that(1) have "proxy_session os p0 f h0 h2 (cs @ [?d]) HttpParser_new
              (out @ concat (map exchange_text [Proxied (p_req q) resp]))" by blast
          then show ?thesis by simp
        qed
        ultimately show "\<exists>cs out. just_read f h0 ?h1 cs \<and> sent_bytes f ?h1 = sent_bytes f h0 @ out
          \<and> (\<forall>h2 resp ka. suffix ?h1 h2 \<longrightarrow> proxy_reply os p0 f h0 h2 cs (p_req (c_parser c1)) resp ka \<longrightarrow>
               proxy_session os p0 f h0 h2 cs HttpParser_new (out @ serialize resp))" using cs(2) by blast
      qed
    qed
  qed
qed

text \<open>A worker of the load balancer serves an event of an open connection, with a pool whose flags the
  history accounts for.\<close>

definition lb_serves :: "os \<Rightarrow> UpstreamPool \<Rightarrow> fd \<Rightarrow> worker_fun" where
  "lb_serves os p0 f c h c' act h' \<longleftrightarrow>
     f \<in> open_fds h \<and> (\<exists>pool pool'. flags_ok os p0 pool h \<and> serveClient os pool f c h = Some (c', act, pool', h'))"

lemma proxy_rel_serve:
  assumes "os_send_bounded os" "os_fresh os" "session_rel (proxy_session os p0) f h0 c h True"
    and "lb_serves os p0 f c h c' act h'"
  shows "session_rel (proxy_session os p0) f h0 c' h' (act \<noteq> Close)"
proof -
  from assms(4) obtain pool pool' where s: "f \<in> open_fds h" "serveClient os pool f c h = Some (c', act, pool', h')"
    "flags_ok os p0 pool h" by (auto simp: lb_serves_def)
  show ?thesis
  proof (cases "hasPendingWrite c")
    case True
    with s(2) have "resumeWrite os c h = (c', act, h')" by (auto simp: serveClient_def split: prod.splits)
    with session_rel_resume [OF assms(1) proxy_session_grows assms(3) True] show ?thesis .
  qed (rule proxy_rel_read [OF assms(1,2) s(1) assms(3) _ s(2,3)])
qed

interpretation lb_sessions: session_system os "lb_serves os p0 f" f "proxy_session os p0"
    "os_send_bounded os \<and> os_fresh os" for os p0 f
  by unfold_locales (auto simp: proxy_session_def proxy_session_grows intro: proxy_rel_serve)

subsection \<open>Requests in pieces\<close>

lemma proxy_pieces:
  assumes "consume p (concat cs) = (ParseComplete, q)" "p_buffer q = []" "[] \<notin> set cs" "cs \<noteq> []"
    and "proxy_reads os p0 f h0 h p seen (cs @ ds) xs p'"
  shows "\<exists>resp ka ys. xs = Proxied (p_req q) resp # ys \<and> proxy_reply os p0 f h0 h (seen @ cs) (p_req q) resp ka
    \<and> proxy_reads os p0 f h0 h HttpParser_new (seen @ cs) ds ys p'"
  using assms
proof (induction cs arbitrary: p seen)
  case (Cons c cs)
  show ?case
  proof (cases "cs = []")
    case True
    with Cons.prems show ?thesis by simp
  next
    case False
    with Cons.prems have "concat cs \<noteq> []" by (cases cs) auto
    with consume_prefix [of p c "concat cs" q] Cons.prems obtain p1 where n: "consume p c = (NeedMoreData, p1)"
      "consume p1 (concat cs) = (ParseComplete, q)" by (metis concat.simps(2) prod.collapse)
    with Cons.IH [OF n(2), of "seen @ [c]"] Cons.prems False show ?thesis by simp
  qed
qed simp

text \<open>One response per request, each for the pieces up to the end of its request.\<close>

definition replies ::
    "os \<Rightarrow> UpstreamPool \<Rightarrow> fd \<Rightarrow> history \<Rightarrow> history \<Rightarrow> string list list \<Rightarrow> HttpRequest list \<Rightarrow> HttpResponse list \<Rightarrow> bool" where
  "replies os p0 f h0 h css reqs resps \<longleftrightarrow> length resps = length reqs
     \<and> (\<forall>i < length reqs. \<exists>ka. proxy_reply os p0 f h0 h (concat (take (Suc i) css)) (keep_flag (reqs ! i)) (resps ! i) ka)"

lemma proxy_requests:
  "list_all2 arrives css reqs \<Longrightarrow> proxy_reads os p0 f h0 h HttpParser_new seen (concat css) xs p \<Longrightarrow>
     \<exists>resps. map exchange_text xs = map serialize resps \<and> length resps = length reqs
       \<and> (\<forall>i < length reqs. \<exists>ka. proxy_reply os p0 f h0 h (seen @ concat (take (Suc i) css)) (keep_flag (reqs ! i)) (resps ! i) ka)"
proof (induction css reqs arbitrary: seen xs rule: list_all2_induct)
  case (Cons cs css req reqs)
  then obtain q where q: "consume HttpParser_new (concat cs) = (ParseComplete, q)" "p_buffer q = []" "p_req q = keep_flag req"
    "cs \<noteq> []" "[] \<notin> set cs" by (blast elim: arrives_consume)
  have "proxy_reads os p0 f h0 h HttpParser_new seen (cs @ concat css) xs p" using Cons.prems by simp
  from proxy_pieces [OF q(1,2,5,4) this] q(3) obtain resp ka ys
    where y: "xs = Proxied (keep_flag req) resp # ys" "proxy_reply os p0 f h0 h (seen @ cs) (keep_flag req) resp ka"
      "proxy_reads os p0 f h0 h HttpParser_new (seen @ cs) (concat css) ys p" by auto
  from Cons.IH [OF y(3)] obtain resps where rs: "map exchange_text ys = map serialize resps" "length resps = length reqs"
    "\<forall>i < length reqs. \<exists>ka. proxy_reply os p0 f h0 h ((seen @ cs) @ concat (take (Suc i) css)) (keep_flag (reqs ! i)) (resps ! i) ka"
    by blast
  have "\<exists>ka. proxy_reply os p0 f h0 h (seen @ concat (take (Suc i) (cs # css))) (keep_flag ((req # reqs) ! i)) ((resp # resps) ! i) ka"
    if "i < length (req # reqs)" for i
    using that y(2) rs(3) by (cases i) auto
  with y(1) rs(1,2) show ?case by (intro exI [of _ "resp # resps"]) simp
qed simp

lemma proxied_requests:
  assumes "proxy_session os p0 f h0 h (concat css) p out" "list_all2 arrives css reqs"
  shows "\<exists>resps. replies os p0 f h0 h css reqs resps \<and> out = concat (map serialize resps)"
proof -
  from assms(1) obtain xs where x: "proxy_reads os p0 f h0 h HttpParser_new [] (concat css) xs p" "out = concat (map exchange_text xs)"
    by (auto simp: proxy_session_def)
  from proxy_requests [OF assms(2) x(1)] x(2) show ?thesis by (auto simp: replies_def)
qed

subsection \<open>A conversation\<close>

text \<open>When the pieces read on a client's connection are those of a list of well-formed requests, each cut
  in any way, then over any sequence of events, with partial writes, resumed flushes, pools that
  change between events and calls of other threads in between, and as long as no send to the
  client failed, the client is sent (or owed) exactly one serialised response per request, in the
  order of the requests, each the outcome of the exchange made for that request.\<close>

theorem lb_session_replies:
  assumes "os_send_bounded os" "os_fresh os"
    and "conn_run os (lb_serves os p0 f) f (Connection_new (Socket_of f), h0, True) (c, h, live)"
    and "send_errors f h = send_errors f h0"
    and "chunks f h = chunks f h0 @ concat css" "list_all2 arrives css reqs"
  shows "\<exists>resps. replies os p0 f h0 h css reqs resps \<and> sent_bytes f h @ pending c = sent_bytes f h0 @ concat (map serialize resps)"
proof -
  from lb_sessions.run_refines [OF _ assms(3,4)] assms(1,2,5) obtain p out
    where x: "proxy_session os p0 f h0 h (concat css) p out" "sent_bytes f h @ pending c = sent_bytes f h0 @ out" by auto
  from proxied_requests [OF x(1) assms(6)] x(2) show ?thesis by metis
qed

text \<open>A short request.\<close>

definition short_text :: string where "short_text = ''GET / HTTP/1.1'' @ CRLF @ CRLF"

lemma short_text_arrives: "arrives [short_text] short_request"
  by code_simp

end
