(* ===== verification/Reactor_Safety.thy ===== *)
theory Reactor_Safety
  imports Reactor "HOL-Library.Multiset"
begin

section \<open>The reactor and its workers, interleaved\<close>

text \<open>
  One reactor thread and any number of workers over the same state. The reactor's steps are
  the poll at the top of an iteration and the handling of one event of the batch; a worker's
  steps are taking a task (the lookup of the connection under the mutex) and finishing it (the
  work on the connection and the re-arm request it posts). Between the two steps of a worker
  everything else may happen: that is where a connection could be destroyed or dispatched a
  second time. Calls to the kernel inside one step are not interleaved with other threads'.

  The locale \<open>reactor_system\<close> proves the discipline for every event loop that is silent about
  descriptors without interest and every worker function that keeps to its own connection.
\<close>

text \<open>The state, the history, the events of the batch not handled yet, and the descriptors whose
  connections workers hold.\<close>

type_synonym ('s, 'm) config = "('s, 'm) Reactor_scheme \<times> history \<times> IoEvent list \<times> fd list"

type_synonym ('s, 'm) handler =
  "fd \<Rightarrow> ('s, 'm) Reactor_scheme \<Rightarrow> history \<Rightarrow> (('s, 'm) Reactor_scheme \<times> history) option"

inductive thread_step :: "os \<Rightarrow> 's EventLoop \<Rightarrow> ('s, 'm) handler \<Rightarrow> ('s, 'm) config \<Rightarrow> ('s, 'm) config \<Rightarrow> bool"
  for os el handle where
  poll: "rx_running s \<Longrightarrow> reactorPoll os el s h = (evs, s', h') \<Longrightarrow>
     thread_step os el handle (s, h, [], busy) (s', h', evs, busy)"
| event: "handleEvent os el ev s h = Some (s', h') \<Longrightarrow>
     thread_step os el handle (s, h, ev # evs, busy) (s', h', evs, busy)"
| take_task: "rx_queue s = f # q \<Longrightarrow> rx_connections s f \<noteq> None \<Longrightarrow>
     thread_step os el handle (s, h, evs, busy) (s\<lparr>rx_queue := q\<rparr>, h, evs, f # busy)"
| drop_task: "rx_queue s = f # q \<Longrightarrow> rx_connections s f = None \<Longrightarrow>
     thread_step os el handle (s, h, evs, busy) (s\<lparr>rx_queue := q\<rparr>, h, evs, busy)"
| finish_task: "f \<in> set busy \<Longrightarrow> handle f s h = Some (s', h') \<Longrightarrow>
     thread_step os el handle (s, h, evs, busy) (s', h', evs, remove1 f busy)"

text \<open>The steps of the program's own threads, and a stop request from outside.\<close>

inductive sys_step :: "os \<Rightarrow> 's EventLoop \<Rightarrow> ('s, 'm) handler \<Rightarrow> ('s, 'm) config \<Rightarrow> ('s, 'm) config \<Rightarrow> bool"
  for os el handle where
  thread: "thread_step os el handle c c' \<Longrightarrow> sys_step os el handle c c'"
| stop_request: "sys_step os el handle (s, h, evs, busy) (reactor_stop s, h, evs, busy)"

inductive_cases thread_stepE: "thread_step os el handle c c'"

lemmas sys_step_intros =
  sys_step.thread [OF thread_step.poll] sys_step.thread [OF thread_step.event]
  sys_step.thread [OF thread_step.take_task]

inductive sys_reach :: "os \<Rightarrow> 's EventLoop \<Rightarrow> ('s, 'm) handler \<Rightarrow> ('s, 'm) config \<Rightarrow> ('s, 'm) config \<Rightarrow> bool"
  for os el handle c0 where
  init: "sys_reach os el handle c0 c0"
| step: "sys_reach os el handle c0 c \<Longrightarrow> sys_step os el handle c c' \<Longrightarrow> sys_reach os el handle c0 c'"

lemma reach_events:
  assumes "sys_reach os el handle c0 (s, h, evs, busy)" "handleEvents os el evs s h = Some (s', h')"
  shows "sys_reach os el handle c0 (s', h', [], busy)"
  using assms
proof (induction evs arbitrary: s h)
  case (Cons ev evs)
  then obtain s1 h1 where e: "handleEvent os el ev s h = Some (s1, h1)"
    and r: "handleEvents os el evs s1 h1 = Some (s', h')" by (auto split: option.splits)
  from sys_reach.step [OF Cons.prems(1) sys_step_intros(2) [OF e]] r show ?case by (rule Cons.IH)
qed simp

lemma reach_iteration:
  assumes "sys_reach os el handle c0 (s, h, [], busy)" "rx_running s" "reactorIteration os el s h = Some (s', h')"
  shows "sys_reach os el handle c0 (s', h', [], busy)"
proof -
  obtain evs s1 h1 where p: "reactorPoll os el s h = (evs, s1, h1)" by (metis prod_cases3)
  from sys_reach.step [OF assms(1) sys_step_intros(1) [OF assms(2) p]] have "sys_reach os el handle c0 (s1, h1, evs, busy)" .
  then show ?thesis by (rule reach_events) (use assms(3) p in \<open>simp add: reactorIteration_def\<close>)
qed

subsection \<open>Calls that leave the registrations and the open descriptors alone\<close>

definition quiet_calls :: "fd set \<Rightarrow> history \<Rightarrow> bool" where
  "quiet_calls S k \<longleftrightarrow> (\<forall>x \<in> set k. neutral (fst x) \<or> (\<exists>g. fst x = Sys_close g \<and> g \<notin> S))"

definition quiet_run :: "history \<Rightarrow> history \<Rightarrow> bool" where
  "quiet_run h h' \<longleftrightarrow> open_fds h' = open_fds h \<and> (\<exists>k. h' = k @ h \<and> quiet_calls (open_fds h) k)"

lemma quiet_calls_append [simp]: "quiet_calls S (k @ k') \<longleftrightarrow> quiet_calls S k \<and> quiet_calls S k'"
  by (auto simp: quiet_calls_def)

lemma quiet_calls_Cons [simp]:
  "quiet_calls S (x # k) \<longleftrightarrow> (neutral (fst x) \<or> (\<exists>g. fst x = Sys_close g \<and> g \<notin> S)) \<and> quiet_calls S k"
  "quiet_calls S []"
  by (auto simp: quiet_calls_def)

lemma quiet_run_refl [simp]: "quiet_run h h"
  by (simp add: quiet_run_def)

lemma quiet_run_trans:
  assumes "quiet_run h h1" "quiet_run h1 h2" shows "quiet_run h h2"
proof -
  from assms obtain k1 k2 where "h1 = k1 @ h" "quiet_calls (open_fds h) k1" "h2 = k2 @ h1" "quiet_calls (open_fds h) k2"
    by (auto simp: quiet_run_def)
  then have "h2 = (k2 @ k1) @ h" "quiet_calls (open_fds h) (k2 @ k1)" by auto
  with assms show ?thesis unfolding quiet_run_def by auto
qed

lemma quiet_run_sends: "only_sends f h h' \<Longrightarrow> quiet_run h h'"
  by (frule only_sends_open_fds) (fastforce simp: quiet_run_def only_sends_def quiet_calls_def)

lemma quiet_run_recv: "quiet_run h ((Sys_recv f n, r) # h)"
  by (auto simp: quiet_run_def intro!: exI [of _ "[(Sys_recv f n, r)]"])

text \<open>Accepting a connection: either a new descriptor is opened, or nothing remains of the attempt.\<close>

lemma acceptNonBlocking_calls:
  assumes "os_fresh os" "acceptNonBlocking os lf h = (res, h')"
  shows "\<exists>k. h' = k @ h \<and> quiet_calls (open_fds h) k"
proof -
  let ?r = "os h (Sys_accept lf)"
  let ?f = "sr_ret ?r"
  obtain ok h2 where nb: "setNonBlocking os ?f ((Sys_accept lf, ?r) # h) = (ok, h2)" by fastforce
  then obtain k2 where k2: "h2 = k2 @ (Sys_accept lf, ?r) # h" "quiet_calls (open_fds h) k2"
    by (auto simp: setNonBlocking_def invoke_def Let_def split: if_splits)
  have fr: "0 \<le> ?f \<Longrightarrow> ?f \<notin> open_fds h" using assms(1) by (simp add: os_fresh_def)
  show ?thesis
  proof (cases "?f < 0")
    case True
    with assms(2) show ?thesis
      by (auto simp: acceptNonBlocking_def invoke_def Let_def intro!: exI [of _ "[(Sys_accept lf, ?r)]"])
  next
    case False
    with assms(2) nb have "h' = (if ok then h2 else (Sys_close ?f, os h2 (Sys_close ?f)) # h2)"
      by (auto simp: acceptNonBlocking_def invoke_def Let_def split: if_splits)
    with k2 fr False show ?thesis
      by (intro exI [of _ "(if ok then [] else [(Sys_close ?f, os h2 (Sys_close ?f))]) @ k2 @ [(Sys_accept lf, ?r)]"]) auto
  qed
qed

lemma acceptNonBlocking_new:
  assumes "os_fresh os" "acceptNonBlocking os lf h = (res, h')" "Socket_valid (ar_sock res)"
  shows "s_fd (ar_sock res) \<notin> open_fds h \<and> 0 \<le> s_fd (ar_sock res)
    \<and> open_fds h' = insert (s_fd (ar_sock res)) (open_fds h)"
proof -
  have "s_fd (ar_sock res) = sr_ret (os h (Sys_accept lf))"
    using assms(2,3)
    by (auto simp: acceptNonBlocking_def invoke_def Let_def AcceptResult_new_def Socket_new_def Socket_of_def
        Socket_valid_def split: if_splits prod.splits)
  with assms acceptNonBlocking_opens [OF assms(1), of lf h] show ?thesis
    by (auto simp: os_fresh_def opens_only_def Socket_valid_def)
qed

lemma acceptNonBlocking_none:
  assumes "os_fresh os" "acceptNonBlocking os lf h = (res, h')" "\<not> Socket_valid (ar_sock res)"
  shows "quiet_run h h'"
  using acceptNonBlocking_calls [OF assms(1,2)] acceptNonBlocking_opens [OF assms(1), of lf h] assms(2,3)
  by (auto simp: quiet_run_def opens_only_def)

subsection \<open>Tokens\<close>

text \<open>How often a descriptor is on its way: queued, held by a worker, or waiting to be re-armed.\<close>

definition in_flight :: "('s, 'm) Reactor_scheme \<Rightarrow> fd list \<Rightarrow> fd \<Rightarrow> nat" where
  "in_flight s busy f =
     count (mset (rx_queue s)) f + count (mset busy) f + count (mset (map fst (rx_pendingRearms s))) f"

lemma in_flight_pos:
  "0 < in_flight s busy f \<longleftrightarrow> f \<in> set (rx_queue s) \<or> f \<in> set busy \<or> f \<in> fst ` set (rx_pendingRearms s)"
  by (auto simp: in_flight_def count_greater_zero_iff)

text \<open>What a worker function may do: it leaves everything but its own connection, which keeps its
  socket, posts one re-arm request, and its calls to the kernel are quiet.\<close>

definition handled :: "fd \<Rightarrow> ('s, 'm) Reactor_scheme \<Rightarrow> history \<Rightarrow> ('s, 'm) Reactor_scheme \<Rightarrow> history \<Rightarrow> bool" where
  "handled f s h s' h' \<longleftrightarrow> (\<exists>c c' act. rx_connections s f = Some c
     \<and> rx_connections s' = (rx_connections s)(f \<mapsto> c') \<and> c_sock c' = c_sock c
     \<and> rx_pendingRearms s' = rx_pendingRearms s @ [(f, act)] \<and> rx_queue s' = rx_queue s
     \<and> rx_eventLoop s' = rx_eventLoop s \<and> rx_listenSock s' = rx_listenSock s \<and> quiet_run h h')"

locale reactor_system = gated_event_loop "el_add el" "el_modify el" "el_remove el" "el_wait el"
    interest known inv sound
  for el :: "'s EventLoop" and interest known inv sound +
  fixes os :: os and handle :: "('s, 'm) handler"
  assumes all_known: "known l h f"
    and handle_ok: "os_fresh os \<Longrightarrow> rx_connections s f = Some c \<Longrightarrow> s_fd (c_sock c) = f \<Longrightarrow>
          handle f s h = Some (s', h') \<Longrightarrow> handled f s h s' h'"
begin

text \<open>
  The invariant of the reactor's tables, over the loop's state, the listening descriptor, the
  connections and the number of times a descriptor is in flight: connections are filed under
  their own open descriptor, only they and the listening socket are watched, and a
  descriptor in flight has a connection, is not watched and is in flight once.
\<close>

definition tables_of ::
    "'s \<Rightarrow> fd \<Rightarrow> (fd \<rightharpoonup> Connection) \<Rightarrow> (fd \<Rightarrow> nat) \<Rightarrow> history \<Rightarrow> bool" where
  "tables_of l lf conns flight h \<longleftrightarrow>
     inv l h \<and> lf \<in> open_fds h \<and> conns lf = None
     \<and> (\<forall>f c. conns f = Some c \<longrightarrow> s_fd (c_sock c) = f \<and> 0 \<le> f \<and> f \<in> open_fds h)
     \<and> (\<forall>f. interest l h f \<noteq> 0 \<longrightarrow> conns f \<noteq> None \<or> f = lf)
     \<and> (\<forall>f. 0 < flight f \<longrightarrow> conns f \<noteq> None \<and> interest l h f = 0 \<and> flight f = 1)"

definition tables :: "('s, 'm) Reactor_scheme \<Rightarrow> history \<Rightarrow> fd list \<Rightarrow> bool" where
  "tables s h busy \<longleftrightarrow>
     tables_of (rx_eventLoop s) (s_fd (rx_listenSock s)) (rx_connections s) (in_flight s busy) h"

definition batch_ok :: "'s \<Rightarrow> history \<Rightarrow> IoEvent list \<Rightarrow> bool" where
  "batch_ok l h evs \<longleftrightarrow> distinct (map ev_fd evs) \<and> (\<forall>ev \<in> set evs. interest l h (ev_fd ev) \<noteq> 0)"

fun sys_inv :: "('s, 'm) config \<Rightarrow> bool" where
  "sys_inv (s, h, evs, busy) \<longleftrightarrow> tables s h busy \<and> batch_ok (rx_eventLoop s) h evs"

lemma tables_conn:
  "tables_of l lf conns flight h \<Longrightarrow> conns f = Some c \<Longrightarrow> s_fd (c_sock c) = f \<and> 0 \<le> f \<and> f \<in> open_fds h \<and> f \<noteq> lf"
  by (auto simp: tables_of_def)

lemma tables_flight:
  "tables_of l lf conns flight h \<Longrightarrow> 0 < flight f \<Longrightarrow>
     flight f = 1 \<and> interest l h f = 0 \<and> (\<exists>c. conns f = Some c \<and> s_fd (c_sock c) = f \<and> 0 \<le> f)"
  unfolding tables_of_def by (metis option.exhaust)

lemma tables_closed: "tables_of l lf conns flight h \<Longrightarrow> g \<notin> open_fds h \<Longrightarrow>
    interest l h g = 0 \<and> conns g = None \<and> flight g = 0"
  unfolding tables_of_def by (metis gr0I option.exhaust)

lemma tables_inv: "tables_of l lf conns flight h \<Longrightarrow> inv l h"
  by (simp add: tables_of_def)

text \<open>The transitions of the tables.\<close>

lemma tables_rearm:
  assumes "tables_of l lf conns flight h" "conns f \<noteq> None" "inv l' h'" "open_fds h' = open_fds h"
    and "\<And>g. g \<noteq> f \<Longrightarrow> interest l' h' g = interest l h g"
  shows "tables_of l' lf conns (flight(f := 0)) h'"
  using assms unfolding tables_of_def by auto metis

lemma tables_dispatch:
  assumes "tables_of l lf conns flight h" "conns f \<noteq> None" "inv l' h'" "open_fds h' = open_fds h"
    and "\<And>g. g \<noteq> f \<Longrightarrow> interest l' h' g = interest l h g" "interest l' h' f = 0"
  shows "tables_of l' lf conns (flight(f := 1)) h'"
  using assms unfolding tables_of_def by auto metis

lemma tables_drop:
  assumes "tables_of l lf conns flight h" "conns f \<noteq> None" "inv l' h'" "open_fds h' = open_fds h - {f}"
    and "\<And>g. g \<noteq> f \<Longrightarrow> interest l' h' g = interest l h g" "interest l' h' f = 0"
  shows "tables_of l' lf (conns(f := None)) (flight(f := 0)) h'"
  using assms unfolding tables_of_def by auto

lemma tables_accept:
  assumes "tables_of l lf conns flight h" "f \<notin> open_fds h" "0 \<le> f" "s_fd (c_sock c) = f"
    and "inv l' h'" "open_fds h' = insert f (open_fds h)"
    and "\<And>g. g \<noteq> f \<Longrightarrow> interest l' h' g = interest l h g"
  shows "tables_of l' lf (conns(f \<mapsto> c)) flight h'"
proof -
  from tables_closed [OF assms(1,2)] have "flight f = 0" "lf \<noteq> f" "conns f = None"
    using assms(1,2) by (auto simp: tables_of_def)
  with assms show ?thesis unfolding tables_of_def by auto
qed

lemma tables_work:
  assumes "tables_of l lf conns flight h" "conns f = Some c" "c_sock c' = c_sock c"
    and "inv l h'" "open_fds h' = open_fds h" "\<And>g. interest l h' g = interest l h g"
  shows "tables_of l lf (conns(f \<mapsto> c')) flight h'"
  using assms unfolding tables_of_def by auto

lemma calls_loop:
  assumes "quiet_calls (open_fds h) k" "inv l h" "\<And>g. g \<notin> open_fds h \<Longrightarrow> interest l h g = 0"
  shows "inv l (k @ h) \<and> (\<forall>g. interest l (k @ h) g = interest l h g)"
  using assms(1)
proof (induction k)
  case Nil
  with assms(2) show ?case by simp
next
  case (Cons x k)
  obtain c r where x: "x = (c, r)" by (cases x)
  from Cons have ih: "inv l (k @ h)" "\<And>g. interest l (k @ h) g = interest l h g"
    by (auto simp: quiet_calls_def)
  from Cons.prems x consider "neutral c" | g where "c = Sys_close g" "g \<notin> open_fds h" by (auto simp: quiet_calls_def)
  then show ?case
  proof cases
    case 1
    with ih x neutral_inv neutral_frame show ?thesis by simp
  next
    case (2 g)
    with assms(3) ih have z: "interest l (k @ h) g = 0" by simp
    have "interest l ((Sys_close g, r) # k @ h) g' = interest l h g'" for g'
      using close_frame [OF ih(1), of g' g] close_clears [OF z] z ih(2) by (cases "g' = g") auto
    with close_inv [OF ih(1) z] x 2 show ?thesis by simp
  qed
qed

lemma quiet_run_loop:
  assumes "quiet_run h h'" "inv l h" "\<And>g. g \<notin> open_fds h \<Longrightarrow> interest l h g = 0"
  shows "inv l h' \<and> (\<forall>g. interest l h' g = interest l h g)"
  using assms(1) calls_loop [OF _ assms(2,3)] unfolding quiet_run_def by blast

text \<open>What the three operations of the event loop do to the reactor's state.\<close>

lemma loop_modify_effect:
  assumes "sound" "inv (rx_eventLoop s) h" "loop_modify el f m s h = (s', h')"
  obtains l where "s' = s\<lparr>rx_eventLoop := l\<rparr>" "inv l h'" "open_fds h' = open_fds h"
    "\<And>g. interest l h' g = (if g = f then mask_bits m else interest (rx_eventLoop s) h g)"
proof -
  obtain b l where m: "el_modify el f m (rx_eventLoop s) h = (b, l, h')" and s: "s' = s\<lparr>rx_eventLoop := l\<rparr>"
    using assms(3) by (auto simp: loop_modify_def split: prod.splits)
  from modify_inv [OF assms(1,2) m] modify_frame [OF assms(1,2) m] modify_sets [OF assms(1,2) m all_known]
    modify_open [OF m] s that show thesis by simp
qed

lemma loop_remove_effect:
  assumes "sound" "inv (rx_eventLoop s) h" "loop_remove el f s h = (s', h')"
  obtains l where "s' = s\<lparr>rx_eventLoop := l\<rparr>" "inv l h'" "open_fds h' = open_fds h"
    "\<And>g. interest l h' g = (if g = f then 0 else interest (rx_eventLoop s) h g)"
proof -
  obtain b l where m: "el_remove el f (rx_eventLoop s) h = (b, l, h')" and s: "s' = s\<lparr>rx_eventLoop := l\<rparr>"
    using assms(3) by (auto simp: loop_remove_def split: prod.splits)
  from remove_inv [OF assms(1,2) m] remove_frame [OF assms(1,2) m] remove_clears [OF assms(1,2) m all_known]
    remove_open [OF m] s that show thesis by simp
qed

lemma loop_add_effect:
  assumes "sound" "inv (rx_eventLoop s) h" "loop_add el f m s h = (s', h')"
  obtains l where "s' = s\<lparr>rx_eventLoop := l\<rparr>" "inv l h'" "open_fds h' = open_fds h"
    "\<And>g. g \<noteq> f \<Longrightarrow> interest l h' g = interest (rx_eventLoop s) h g"
proof -
  obtain b l where m: "el_add el f m (rx_eventLoop s) h = (b, l, h')" and s: "s' = s\<lparr>rx_eventLoop := l\<rparr>"
    using assms(3) by (auto simp: loop_add_def split: prod.splits)
  from add_inv [OF assms(1,2) m] add_frame [OF assms(1,2) m] add_open [OF m] s that show thesis by simp
qed

text \<open>Removing a descriptor from the loop and destroying its connection.\<close>

lemma drop_connection_effect:
  assumes "sound" "inv (rx_eventLoop s) h" "rx_connections s f = Some c" "s_fd (c_sock c) = f" "0 \<le> f"
    and "loop_remove el f s h = (s1, h1)" "erase_connection os f s1 h1 = (s', h')"
  obtains l where "s' = s\<lparr>rx_eventLoop := l, rx_connections := (rx_connections s)(f := None)\<rparr>" "inv l h'"
    "open_fds h' = open_fds h - {f}"
    "\<And>g. interest l h' g = (if g = f then 0 else interest (rx_eventLoop s) h g)"
proof -
  obtain l where r: "s1 = s\<lparr>rx_eventLoop := l\<rparr>" "inv l h1" "open_fds h1 = open_fds h"
    "\<And>g. interest l h1 g = (if g = f then 0 else interest (rx_eventLoop s) h g)"
    using loop_remove_effect [OF assms(1,2,6)] by blast
  have z: "interest l h1 f = 0" using r(4) by simp
  from assms(3-5,7) r(1) have s': "s' = s\<lparr>rx_eventLoop := l, rx_connections := (rx_connections s)(f := None)\<rparr>"
    and h': "h' = (Sys_close f, os h1 (Sys_close f)) # h1"
    by (auto simp: erase_connection_def Socket_destroy_def Socket_close_def)
  have "interest l h' g = interest l h1 g" for g
    unfolding h' using close_frame [OF r(2), of g f] close_clears [OF z] z by (cases "g = f") auto
  moreover have "inv l h'" unfolding h' by (rule close_inv [OF r(2) z])
  ultimately show thesis using that r(3,4) s' by (simp add: h')
qed

subsubsection \<open>Re-arming\<close>

lemma in_flight_rearm:
  "in_flight (s\<lparr>rx_pendingRearms := (f, act) # rs\<rparr>) busy
     = (\<lambda>g. in_flight (s\<lparr>rx_pendingRearms := rs\<rparr>) busy g + (if g = f then 1 else 0))"
  by (rule ext) (simp add: in_flight_def)

lemma in_flight_cong:
  "rx_queue s = rx_queue s' \<Longrightarrow> rx_pendingRearms s = rx_pendingRearms s' \<Longrightarrow> in_flight s busy = in_flight s' busy"
  by (rule ext) (simp add: in_flight_def)

lemma applyRearm_tables:
  assumes "sound" "tables (s\<lparr>rx_pendingRearms := (f, act) # rs\<rparr>) h busy"
    and "applyRearm os el (f, act) (s, h) = (s', h')"
  shows "tables (s'\<lparr>rx_pendingRearms := rs\<rparr>) h' busy \<and> rx_pendingRearms s' = rx_pendingRearms s"
proof -
  let ?l = "rx_eventLoop s" and ?lf = "s_fd (rx_listenSock s)" and ?cs = "rx_connections s"
  let ?fl = "in_flight (s\<lparr>rx_pendingRearms := (f, act) # rs\<rparr>) busy"
  let ?fl' = "in_flight (s\<lparr>rx_pendingRearms := rs\<rparr>) busy"
  have T: "tables_of ?l ?lf ?cs ?fl h" using assms(2) by (simp add: tables_def)
  have pos: "0 < ?fl f" by (simp add: in_flight_rearm)
  from tables_flight [OF T pos] obtain c where c: "?cs f = Some c" "s_fd (c_sock c) = f" "0 \<le> f"
    and one: "?fl f = 1" by blast
  have fl: "?fl' = ?fl(f := 0)" using one by (auto simp: in_flight_rearm)
  note i = tables_inv [OF T]
  have modify: ?thesis if "loop_modify el f m s h = (s', h')" for m
  proof -
    from loop_modify_effect [OF assms(1) i that] obtain l where l: "s' = s\<lparr>rx_eventLoop := l\<rparr>" "inv l h'"
      "open_fds h' = open_fds h" "\<And>g. g \<noteq> f \<Longrightarrow> interest l h' g = interest ?l h g" by (metis (full_types))
    have "tables_of l ?lf ?cs ?fl' h'" unfolding fl using tables_rearm [OF T _ l(2-4)] c(1) by simp
    moreover have "in_flight (s'\<lparr>rx_pendingRearms := rs\<rparr>) busy = ?fl'"
      by (rule in_flight_cong) (simp_all add: l(1))
    ultimately show ?thesis using l(1) by (simp add: tables_def)
  qed
  show ?thesis
  proof (cases act)
    case WaitReadable
    with assms(3) c(1) modify show ?thesis by (simp add: applyRearm_def)
  next
    case WaitWritable
    with assms(3) c(1) modify show ?thesis by (simp add: applyRearm_def)
  next
    case Close
    obtain s1 h1 where r: "loop_remove el f s h = (s1, h1)" by fastforce
    with Close assms(3) c(1) have e: "erase_connection os f s1 h1 = (s', h')" by (simp add: applyRearm_def)
    from drop_connection_effect [OF assms(1) i c r e] obtain l
      where l: "s' = s\<lparr>rx_eventLoop := l, rx_connections := ?cs(f := None)\<rparr>" "inv l h'" "open_fds h' = open_fds h - {f}"
        "\<And>g. interest l h' g = (if g = f then 0 else interest ?l h g)" by blast
    have "tables_of l ?lf (?cs(f := None)) ?fl' h'" unfolding fl using tables_drop [OF T _ l(2,3)] l(4) c(1) by simp
    moreover have "in_flight (s'\<lparr>rx_pendingRearms := rs\<rparr>) busy = ?fl'"
      by (rule in_flight_cong) (simp_all add: l(1))
    ultimately show ?thesis using l(1) by (simp add: tables_def)
  qed
qed

lemma applyRearms_tables:
  assumes "sound" "tables (s\<lparr>rx_pendingRearms := rs\<rparr>) h busy" "rx_pendingRearms s = []"
    and "fold (applyRearm os el) rs (s, h) = (s', h')"
  shows "tables s' h' busy"
  using assms(2-4)
proof (induction rs arbitrary: s h)
  case Nil
  then show ?case by (metis Reactor.surjective Reactor.update_convs(5) fold_simps(1) prod.inject)
next
  case (Cons r rs)
  obtain f act where r: "r = (f, act)" by (cases r)
  obtain s1 h1 where s1: "applyRearm os el (f, act) (s, h) = (s1, h1)" by fastforce
  from applyRearm_tables [OF assms(1) Cons.prems(1) [unfolded r] s1]
  have "tables (s1\<lparr>rx_pendingRearms := rs\<rparr>) h1 busy" "rx_pendingRearms s1 = []" using Cons.prems(2) by auto
  from Cons.IH [OF this] Cons.prems(3) r s1 show ?case by simp
qed


subsubsection \<open>Accepting\<close>

lemma batch_ok_frame:
  "batch_ok l h evs \<Longrightarrow> (\<And>ev. ev \<in> set evs \<Longrightarrow> interest l' h' (ev_fd ev) = interest l h (ev_fd ev)) \<Longrightarrow> batch_ok l' h' evs"
  by (simp add: batch_ok_def)

lemma tables_quiet:
  assumes "tables s h busy" "batch_ok (rx_eventLoop s) h evs" "quiet_run h h'"
  shows "tables s h' busy \<and> batch_ok (rx_eventLoop s) h' evs"
proof -
  have T: "tables_of (rx_eventLoop s) (s_fd (rx_listenSock s)) (rx_connections s) (in_flight s busy) h"
    using assms(1) by (simp add: tables_def)
  have q: "inv (rx_eventLoop s) h'" "\<And>g. interest (rx_eventLoop s) h' g = interest (rx_eventLoop s) h g"
    using quiet_run_loop [OF assms(3) tables_inv [OF T]] tables_closed [OF T] by auto
  moreover have "open_fds h' = open_fds h" using assms(3) by (simp add: quiet_run_def)
  ultimately show ?thesis using assms(1,2) batch_ok_frame [of "rx_eventLoop s" h evs "rx_eventLoop s" h']
    by (auto simp: tables_def tables_of_def)
qed

lemma acceptOne_tables:
  assumes "sound" "os_fresh os" "tables s h busy" "batch_ok (rx_eventLoop s) h evs"
    and "acceptOne os el s h = (again, s', h')"
  shows "tables s' h' busy \<and> batch_ok (rx_eventLoop s') h' evs \<and> rx_listenSock s' = rx_listenSock s"
proof -
  let ?lf = "s_fd (rx_listenSock s)" and ?l = "rx_eventLoop s"
  obtain res h1 where a: "acceptNonBlocking os ?lf h = (res, h1)" by fastforce
  have T: "tables_of ?l ?lf (rx_connections s) (in_flight s busy) h" using assms(3) by (simp add: tables_def)
  show ?thesis
  proof (cases "ar_wouldBlock res \<or> \<not> Socket_valid (ar_sock res)")
    case True
    with assms(5) a have "s' = s" "h' = h1" by (auto simp: acceptOne_def split: if_splits)
    moreover have "\<not> Socket_valid (ar_sock res)" using True acceptNonBlocking_wouldBlock [of os ?lf h] a by auto
    ultimately show ?thesis
      using tables_quiet [OF assms(3,4) acceptNonBlocking_none [OF assms(2) a]] by auto
  next
    case False
    let ?f = "s_fd (ar_sock res)" and ?c = "Connection_new (ar_sock res)"
    obtain b h2 where d: "setTcpNoDelay os ?f h1 = (b, h2)" by fastforce
    from acceptNonBlocking_new [OF assms(2) a] False
    have f: "?f \<notin> open_fds h" "0 \<le> ?f" "open_fds h1 = insert ?f (open_fds h)" by auto
    note cl = tables_closed [OF T f(1)]
    let ?s1 = "s\<lparr>rx_connections := (rx_connections s)(?f \<mapsto> ?c)\<rparr>"
    have st: "store_connection os ?f ?c s h2 = (?s1, h2)" using cl by (simp add: store_connection_def)
    obtain s2 h4 where ad: "loop_add el ?f Readable ?s1 h2 = (s2, h4)" by fastforce
    from assms(5) a d st ad False have e: "s' = s2" "h' = h4" by (auto simp: acceptOne_def Let_def)
    from acceptNonBlocking_calls [OF assms(2) a] obtain k where k: "h1 = k @ h" "quiet_calls (open_fds h) k" by blast
    from d have h2: "h2 = (Sys_setsockopt ?f TCP_NODELAY, os h1 (Sys_setsockopt ?f TCP_NODELAY)) # h1"
      by (auto simp: setTcpNoDelay_def invoke_def)
    have q: "inv ?l h2" "\<And>g. interest ?l h2 g = interest ?l h g"
      using calls_loop [OF k(2) tables_inv [OF T]] tables_closed [OF T] k(1)
        neutral_inv [of "Sys_setsockopt ?f TCP_NODELAY"] neutral_frame [of "Sys_setsockopt ?f TCP_NODELAY"]
      unfolding h2 by auto
    have i1: "inv (rx_eventLoop ?s1) h2" using q by simp
    from loop_add_effect [OF assms(1) i1 ad] obtain l where l: "s2 = ?s1\<lparr>rx_eventLoop := l\<rparr>" "inv l h4"
      "open_fds h4 = open_fds h2" "\<And>g. g \<noteq> ?f \<Longrightarrow> interest l h4 g = interest ?l h2 g" by auto
    have o: "open_fds h4 = insert ?f (open_fds h)" using l(3) h2 f(3) by simp
    have fr: "\<And>g. g \<noteq> ?f \<Longrightarrow> interest l h4 g = interest ?l h g" using l(4) q(2) by simp
    have "tables_of l ?lf ((rx_connections s)(?f \<mapsto> ?c)) (in_flight s busy) h4"
      by (rule tables_accept [OF T f(1,2) _ l(2) o fr]) simp_all
    moreover have "in_flight s2 busy = in_flight s busy" by (rule in_flight_cong) (simp_all add: l(1))
    moreover have "batch_ok l h4 evs"
    proof (rule batch_ok_frame [OF assms(4)])
      fix ev assume "ev \<in> set evs"
      with assms(4) have "interest ?l h (ev_fd ev) \<noteq> 0" by (simp add: batch_ok_def)
      with cl have "ev_fd ev \<noteq> ?f" by auto
      then show "interest l h4 (ev_fd ev) = interest ?l h (ev_fd ev)" by (rule fr)
    qed
    ultimately show ?thesis unfolding e using l(1) by (simp add: tables_def)
  qed
qed

lemma handleAccept_tables:
  assumes "sound" "os_fresh os" "tables s h busy" "batch_ok (rx_eventLoop s) h evs"
    and "handleAccept os el s h = Some y"
  shows "tables (fst y) (snd y) busy \<and> batch_ok (rx_eventLoop (fst y)) (snd y) evs"
proof -
  have "os' = os \<Longrightarrow> el' = el \<Longrightarrow> tables s h busy \<Longrightarrow> batch_ok (rx_eventLoop s) h evs \<Longrightarrow>
      tables (fst y) (snd y) busy \<and> batch_ok (rx_eventLoop (fst y)) (snd y) evs"
    if "handleAccept os' el' s h = Some y" for os' el' and s :: "('s, 'm) Reactor_scheme" and h y
  proof (rule handleAccept.raw_induct [OF _ that, of "\<lambda>os' el' s h y. os' = os \<longrightarrow> el' = el \<longrightarrow> tables s h busy \<longrightarrow>
        batch_ok (rx_eventLoop s) h evs \<longrightarrow> tables (fst y) (snd y) busy \<and> batch_ok (rx_eventLoop (fst y)) (snd y) evs",
        THEN mp, THEN mp, THEN mp, THEN mp], goal_cases)
    case (1 rec os' el' s h y)
    show ?case
    proof (intro impI)
      assume a: "os' = os" "el' = el" "tables s h busy" "batch_ok (rx_eventLoop s) h evs"
      obtain again s1 h1 where o: "acceptOne os el s h = (again, s1, h1)" by (metis prod_cases3)
      from acceptOne_tables [OF assms(1,2) a(3,4) o] 1 a o
      show "tables (fst y) (snd y) busy \<and> batch_ok (rx_eventLoop (fst y)) (snd y) evs"
        by (cases again) auto
    qed
  qed
  with assms show ?thesis by blast
qed


subsubsection \<open>One step of the system\<close>

lemma poll_inv:
  assumes "sound" "tables s h busy" "reactorPoll os el s h = (evs, s', h')"
  shows "sys_inv (s', h', evs, busy)"
proof -
  obtain s1 h1 where a: "applyPendingRearms os el s h = (s1, h1)" by fastforce
  obtain n es l h2 where w: "el_wait el 100 (rx_eventLoop s1) h1 = (n, es, l, h2)" by (metis prod_cases4)
  have "tables (s\<lparr>rx_pendingRearms := [], rx_pendingRearms := rx_pendingRearms s\<rparr>) h busy" using assms(2) by simp
  from applyRearms_tables [OF assms(1) this] a have T1: "tables s1 h1 busy" by (simp add: applyPendingRearms_def)
  then have i: "inv (rx_eventLoop s1) h1" by (simp add: tables_def tables_of_def)
  from wait_keeps [OF w] obtain c r where k: "l = rx_eventLoop s1" "h2 = (c, r) # h1" "neutral c" by blast
  have op: "open_fds h2 = open_fds h1 \<or> (\<exists>g. open_fds h2 = insert g (open_fds h1))"
    using k by (cases c) (auto split: if_splits)
  from assms(3) a w k have e: "s' = s1" "h' = h2" "evs = es \<or> evs = []"
    by (auto simp: reactorPoll_def Let_def split: if_splits)
  have fr: "interest (rx_eventLoop s1) h2 g = interest (rx_eventLoop s1) h1 g" for g
    using wait_frame [OF w] k(1) by simp
  have "tables s1 h2 busy"
    using T1 op fr neutral_inv [OF k(3)] unfolding k(2) by (auto simp: tables_def tables_of_def)
  moreover have "batch_ok (rx_eventLoop s1) h2 es"
    using wait_events [OF assms(1) i w] wait_gated [OF assms(1) i w] fr by (auto simp: batch_ok_def)
  ultimately show ?thesis using e by (auto simp: batch_ok_def)
qed

lemma event_inv:
  assumes "sound" "os_fresh os" "sys_inv (s, h, ev # evs, busy)" "handleEvent os el ev s h = Some (s', h')"
  shows "sys_inv (s', h', evs, busy)"
proof -
  let ?f = "ev_fd ev" and ?lf = "s_fd (rx_listenSock s)" and ?l = "rx_eventLoop s" and ?cs = "rx_connections s"
  let ?fl = "in_flight s busy"
  from assms(3) have tb: "tables s h busy" and b: "batch_ok ?l h evs" and w: "interest ?l h ?f \<noteq> 0"
    and d: "\<And>e. e \<in> set evs \<Longrightarrow> ev_fd e \<noteq> ?f" by (auto simp: batch_ok_def) (metis imageI)
  have T: "tables_of ?l ?lf ?cs ?fl h" using tb by (simp add: tables_def)
  have z: "?fl ?f = 0" using tables_flight [OF T, of ?f] w by auto
  consider "?f = ?lf" | "?f \<noteq> ?lf" "?cs ?f = None" | c where "?f \<noteq> ?lf" "?cs ?f = Some c" by blast
  then show ?thesis
  proof cases
    case 1
    with assms(4) have "handleAccept os el s h = Some (s', h')" by (simp add: handleEvent_def)
    from handleAccept_tables [OF assms(1,2) tb b this] show ?thesis by simp
  next
    case 2
    with assms(4) tb b show ?thesis by (simp add: handleEvent_def)
  next
    case (3 c)
    note c = 3(2) conjunct1 [OF tables_conn [OF T 3(2)]] conjunct1 [OF conjunct2 [OF tables_conn [OF T 3(2)]]]
    show ?thesis
    proof (cases "ev_error ev")
      case True
      obtain s1 h1 where r: "loop_remove el ?f s h = (s1, h1)" by fastforce
      with True 3 assms(4) have e: "erase_connection os ?f s1 h1 = (s', h')" by (simp add: handleEvent_def)
      from drop_connection_effect [OF assms(1) tables_inv [OF T] c r e] obtain l
        where l: "s' = s\<lparr>rx_eventLoop := l, rx_connections := ?cs(?f := None)\<rparr>" "inv l h'"
          "open_fds h' = open_fds h - {?f}" "\<And>g. interest l h' g = (if g = ?f then 0 else interest ?l h g)" by blast
      have "tables_of l ?lf (?cs(?f := None)) (?fl(?f := 0)) h'" using tables_drop [OF T _ l(2,3)] l(4) c(1) by simp
      moreover have "?fl(?f := 0) = in_flight s' busy" using z in_flight_cong [of s s' busy] l(1) by auto
      moreover have "batch_ok l h' evs" by (rule batch_ok_frame [OF b]) (simp add: l(4) d)
      ultimately show ?thesis using l(1) by (simp add: tables_def)
    next
      case False
      obtain s1 where m: "loop_modify el ?f 0 s h = (s1, h')" and s': "s' = enqueue_task ?f s1"
        using False 3 assms(4) by (auto simp: handleEvent_def split: prod.splits)
      from loop_modify_effect [OF assms(1) tables_inv [OF T] m] obtain l
        where l: "s1 = s\<lparr>rx_eventLoop := l\<rparr>" "inv l h'" "open_fds h' = open_fds h"
          "\<And>g. interest l h' g = (if g = ?f then mask_bits 0 else interest ?l h g)" by blast
      have "tables_of l ?lf ?cs (?fl(?f := 1)) h'" using tables_dispatch [OF T _ l(2,3)] l(4) c(1) by simp
      moreover have "?fl(?f := 1) = in_flight s' busy"
        using z by (auto simp: s' l(1) enqueue_task_def in_flight_def)
      moreover have "batch_ok l h' evs" by (rule batch_ok_frame [OF b]) (simp add: l(4) d)
      ultimately show ?thesis using l(1) s' by (simp add: tables_def enqueue_task_def)
    qed
  qed
qed

lemma take_inv:
  assumes "sys_inv (s, h, evs, busy)" "rx_queue s = f # q"
  shows "sys_inv (s\<lparr>rx_queue := q\<rparr>, h, evs, f # busy)"
proof -
  have "in_flight (s\<lparr>rx_queue := q\<rparr>) (f # busy) = in_flight s busy"
    using assms(2) by (auto simp: in_flight_def)
  with assms(1) show ?thesis by (simp add: tables_def)
qed

lemma drop_never:
  assumes "sys_inv (s, h, evs, busy)" "rx_queue s = f # q" shows "rx_connections s f \<noteq> None"
  using assms tables_flight [of "rx_eventLoop s" "s_fd (rx_listenSock s)" "rx_connections s" "in_flight s busy" h f]
  by (auto simp: tables_def in_flight_pos)

lemma busy_connected:
  assumes "sys_inv (s, h, evs, busy)" "f \<in> set busy"
  obtains c where "rx_connections s f = Some c" "s_fd (c_sock c) = f"
  using assms tables_flight [of "rx_eventLoop s" "s_fd (rx_listenSock s)" "rx_connections s" "in_flight s busy" h f]
  by (auto simp: tables_def in_flight_pos)

lemma finish_inv:
  assumes "os_fresh os" "sys_inv (s, h, evs, busy)" "f \<in> set busy" "handle f s h = Some (s', h')"
  shows "sys_inv (s', h', evs, remove1 f busy)"
proof -
  from busy_connected [OF assms(2,3)] obtain c where c: "rx_connections s f = Some c" "s_fd (c_sock c) = f" by blast
  from handle_ok [OF assms(1) c assms(4)] c(1) obtain c' act
    where k: "rx_connections s' = (rx_connections s)(f \<mapsto> c')" "c_sock c' = c_sock c"
      "rx_pendingRearms s' = rx_pendingRearms s @ [(f, act)]" "rx_queue s' = rx_queue s"
      "rx_eventLoop s' = rx_eventLoop s" "rx_listenSock s' = rx_listenSock s" "quiet_run h h'"
    by (auto simp: handled_def)
  from assms(2) have "tables s h busy" "batch_ok (rx_eventLoop s) h evs" by auto
  from tables_quiet [OF this k(7)]
  have q: "tables_of (rx_eventLoop s) (s_fd (rx_listenSock s)) (rx_connections s) (in_flight s busy) h'"
    "batch_ok (rx_eventLoop s) h' evs" by (auto simp: tables_def)
  from tables_work [OF q(1) c(1) k(2) tables_inv [OF q(1)] refl refl]
  have "tables_of (rx_eventLoop s) (s_fd (rx_listenSock s)) ((rx_connections s)(f \<mapsto> c')) (in_flight s busy) h'" .
  moreover have "in_flight s' (remove1 f busy) = in_flight s busy"
  proof
    fix g
    have "count (mset busy) f > 0" using assms(3) by simp
    then show "in_flight s' (remove1 f busy) g = in_flight s busy g"
      by (cases "g = f") (simp_all add: in_flight_def k)
  qed
  ultimately show ?thesis using q(2) k by (simp add: tables_def)
qed

lemma thread_inv:
  assumes "sound" "os_fresh os" "sys_inv c" "thread_step os el handle c c'"
  shows "sys_inv c'"
  using assms(4)
proof (cases rule: thread_step.cases)
  case (poll s h evs s' h' busy)
  with assms(3) poll_inv [OF assms(1)] show ?thesis by auto
next
  case (event ev s h s' h' evs busy)
  with assms event_inv show ?thesis by blast
next
  case (take_task s f q h evs busy)
  with assms(3) take_inv show ?thesis by blast
next
  case (drop_task s f q h evs busy)
  with assms(3) drop_never show ?thesis by blast
next
  case (finish_task f busy s h s' h' evs)
  with assms finish_inv show ?thesis by blast
qed

lemma step_inv:
  assumes "sound" "os_fresh os" "sys_inv c" "sys_step os el handle c c'"
  shows "sys_inv c'"
  using assms(4)
proof (cases rule: sys_step.cases)
  case thread
  with assms thread_inv show ?thesis by blast
next
  case (stop_request s h evs busy)
  moreover have "in_flight (reactor_stop s) busy = in_flight s busy" by (rule in_flight_cong) (simp_all add: reactor_stop_def)
  ultimately show ?thesis using assms(3) by (simp add: reactor_stop_def tables_def)
qed

lemma reach_inv:
  assumes "sound" "os_fresh os" "sys_inv c0" "sys_reach os el handle c0 c"
  shows "sys_inv c"
  using assms(4,3) by (induction rule: sys_reach.induct) (use step_inv [OF assms(1,2)] in blast)+

lemma init_inv:
  assumes "inv (rx_eventLoop s) h" "s_fd (rx_listenSock s) \<in> open_fds h" "rx_connections s = Map.empty"
    and "rx_queue s = []" "rx_pendingRearms s = []"
    and "\<And>f. interest (rx_eventLoop s) h f \<noteq> 0 \<Longrightarrow> f = s_fd (rx_listenSock s)"
  shows "sys_inv (s, h, [], [])"
  using assms by (auto simp: tables_def tables_of_def batch_ok_def in_flight_def)

text \<open>The discipline: dispatched once, held only while it exists, filed under its own descriptor.\<close>

lemma discipline:
  assumes "sys_inv (s, h, evs, busy)"
  shows "in_flight s busy f \<le> 1
    \<and> (f \<in> set busy \<longrightarrow> rx_connections s f \<noteq> None)
    \<and> (0 < in_flight s busy f \<longrightarrow> interest (rx_eventLoop s) h f = 0 \<and> f \<notin> ev_fd ` set evs)
    \<and> (\<forall>c. rx_connections s f = Some c \<longrightarrow> s_fd (c_sock c) = f \<and> f \<in> open_fds h)"
proof -
  have T: "tables_of (rx_eventLoop s) (s_fd (rx_listenSock s)) (rx_connections s) (in_flight s busy) h"
    and b: "batch_ok (rx_eventLoop s) h evs" using assms by (auto simp: tables_def)
  have "f \<in> set busy \<Longrightarrow> 0 < in_flight s busy f" by (simp add: in_flight_pos)
  with tables_flight [OF T, of f] tables_conn [OF T, of f] b show ?thesis
    by (cases "0 < in_flight s busy f") (auto simp: batch_ok_def)
qed

end

end
