(* ===== verification/Kqueue_Reactor.thy ===== *)
theory Kqueue_Reactor
  imports Event_Loop "HOL-Library.Multiset"
begin

unbundle bit_operations_syntax

section \<open>The kqueue backend\<close>

text \<open>
  \<open>net::KqueueReactor\<close> of \<open>src/net/kqueue_reactor.cpp\<close>. kqueue registers read and write
  interest as separate filters, so the class mirrors the masks it asked for in
  \<open>interestByFd_\<close> and sends only the differences; the invariant is that the mirror agrees
  with the kernel's filters, which are read off the history. The order in which
  \<open>wait\<close> walks its \<open>unordered_map\<close> is not specified: it is the argument \<open>order\<close>.
\<close>

definition EV_ERROR :: u16 where "EV_ERROR = 0x4000"
definition EV_EOF :: u16 where "EV_EOF = 0x8000"

record KqueueReactor =
  kq :: fd
  interestByFd :: "fd \<rightharpoonup> u8"

definition KqueueReactor_new :: "os \<Rightarrow> history \<Rightarrow> KqueueReactor \<times> history" where
  "KqueueReactor_new os h =
     (let (r, h1) = invoke os Sys_kqueue h in (\<lparr>kq = sr_ret r, interestByFd = Map.empty\<rparr>, h1))"

definition KqueueReactor_destroy :: "os \<Rightarrow> KqueueReactor \<Rightarrow> history \<Rightarrow> history" where
  "KqueueReactor_destroy os k h = (if 0 \<le> kq k then snd (invoke os (Sys_close (kq k)) h) else h)"

text \<open>The mask last asked for.\<close>

definition prev_mask :: "KqueueReactor \<Rightarrow> fd \<Rightarrow> u8" where
  "prev_mask k f = (case interestByFd k f of None \<Rightarrow> 0 | Some m \<Rightarrow> m)"

definition EV_SET :: "fd \<Rightarrow> kfilter \<Rightarrow> kaction \<Rightarrow> kchange" where
  "EV_SET f filt act = \<lparr>kc_ident = f, kc_filter = filt, kc_flags = act\<rparr>"

text \<open>The change list of \<open>modify\<close>.\<close>

definition kq_changes :: "fd \<Rightarrow> u8 \<Rightarrow> u8 \<Rightarrow> kchange list" where
  "kq_changes f prev interestMask =
     (let wantRead = (interestMask AND Readable \<noteq> 0); hadRead = (prev AND Readable \<noteq> 0);
          wantWrite = (interestMask AND Writable \<noteq> 0); hadWrite = (prev AND Writable \<noteq> 0)
      in (if wantRead \<noteq> hadRead then [EV_SET f EVFILT_READ (if wantRead then EV_ADD else EV_DELETE)] else [])
         @ (if wantWrite \<noteq> hadWrite then [EV_SET f EVFILT_WRITE (if wantWrite then EV_ADD else EV_DELETE)] else []))"

definition kq_modify ::
    "os \<Rightarrow> fd \<Rightarrow> u8 \<Rightarrow> KqueueReactor \<Rightarrow> history \<Rightarrow> bool \<times> KqueueReactor \<times> history" where
  "kq_modify os f interestMask k h =
     (let changes = kq_changes f (prev_mask k f) interestMask;
          (ret, h1) = (if changes \<noteq> []
                       then (let (r, h1) = invoke os (Sys_kevent_change (kq k) changes) h in (sr_ret r, h1))
                       else (0, h))
      in if changes \<noteq> [] \<and> ret \<noteq> 0 then (False, k, h1)
         else if interestMask = 0 then (True, k\<lparr>interestByFd := (interestByFd k)(f := None)\<rparr>, h1)
         else (True, k\<lparr>interestByFd := (interestByFd k)(f \<mapsto> interestMask)\<rparr>, h1))"

definition kq_add ::
    "os \<Rightarrow> fd \<Rightarrow> u8 \<Rightarrow> KqueueReactor \<Rightarrow> history \<Rightarrow> bool \<times> KqueueReactor \<times> history" where
  "kq_add os f interestMask k h = kq_modify os f interestMask k h"

definition kq_remove ::
    "os \<Rightarrow> fd \<Rightarrow> KqueueReactor \<Rightarrow> history \<Rightarrow> bool \<times> KqueueReactor \<times> history" where
  "kq_remove os f k h =
     (let prev = prev_mask k f;
          changes = (if prev AND Readable \<noteq> 0 then [EV_SET f EVFILT_READ EV_DELETE] else [])
                  @ (if prev AND Writable \<noteq> 0 then [EV_SET f EVFILT_WRITE EV_DELETE] else []);
          h1 = (if changes \<noteq> [] then snd (invoke os (Sys_kevent_change (kq k) changes) h) else h)
      in (True, k\<lparr>interestByFd := (interestByFd k)(f := None)\<rparr>, h1))"

subsection \<open>Merging the events of one wait\<close>

definition merge_one :: "IoEvent \<Rightarrow> fd \<times> kfilter \<times> u16 \<Rightarrow> IoEvent" where
  "merge_one ev x = (case x of (f, filt, flags) \<Rightarrow>
     (let ev = ev\<lparr>ev_fd := f\<rparr>;
          ev = (if filt = EVFILT_READ then ev\<lparr>ev_mask := ev_mask ev OR Readable\<rparr> else ev);
          ev = (if filt = EVFILT_WRITE then ev\<lparr>ev_mask := ev_mask ev OR Writable\<rparr> else ev)
      in (if flags AND (EV_ERROR OR EV_EOF) \<noteq> 0 then ev\<lparr>ev_error := True\<rparr> else ev)))"

text \<open>The map \<open>merged\<close> with its keys in the order of their first insertion.\<close>

type_synonym merged = "fd list \<times> (fd \<rightharpoonup> IoEvent)"

definition merge_step :: "merged \<Rightarrow> fd \<times> kfilter \<times> u16 \<Rightarrow> merged" where
  "merge_step km x = (case km of (ks, m) \<Rightarrow>
     (let f = fst x; ev = (case m f of None \<Rightarrow> IoEvent_new | Some ev \<Rightarrow> ev)
      in (if m f = None then ks @ [f] else ks, m(f \<mapsto> merge_one ev x))))"

definition kq_merge :: "(fd list \<Rightarrow> fd list) \<Rightarrow> (fd \<times> kfilter \<times> u16) list \<Rightarrow> IoEvent list" where
  "kq_merge order evs =
     (let (ks, m) = foldl merge_step ([], Map.empty) evs in map (\<lambda>f. the (m f)) (order ks))"

definition kq_timespec :: "int \<Rightarrow> (int \<times> int) option" where
  "kq_timespec timeoutMs =
     (if 0 \<le> timeoutMs then Some (timeoutMs div 1000, timeoutMs mod 1000 * 1000000) else None)"

definition kq_wait ::
    "(fd list \<Rightarrow> fd list) \<Rightarrow> os \<Rightarrow> int \<Rightarrow> KqueueReactor \<Rightarrow> history
     \<Rightarrow> int \<times> IoEvent list \<times> KqueueReactor \<times> history" where
  "kq_wait order os timeoutMs k h =
     (let (r, h1) = invoke os (Sys_kevent_wait (kq k) 256 (kq_timespec timeoutMs)) h; n = sr_ret r
      in if n \<le> 0 then ((if n < 0 then 0 else n), [], k, h1)
         else (let out = kq_merge order (take (nat n) (sr_kevents r))
               in (int (length out), out, k, h1)))"

subsection \<open>The kernel's filters\<close>

fun apply_change :: "(fd \<times> kfilter) set \<Rightarrow> kchange \<Rightarrow> (fd \<times> kfilter) set" where
  "apply_change S c =
     (if kc_flags c = EV_ADD then insert (kc_ident c, kc_filter c) S else S - {(kc_ident c, kc_filter c)})"

fun kq_filters :: "fd \<Rightarrow> history \<Rightarrow> (fd \<times> kfilter) set" where
  "kq_filters q [] = {}"
| "kq_filters q ((Sys_kevent_change q' cs, r) # h) =
     (if q' = q then foldl apply_change (kq_filters q h) (if sr_ret r = 0 then cs else take (sr_applied r) cs)
      else kq_filters q h)"
| "kq_filters q ((Sys_close g, r) # h) = kq_filters q h - {g} \<times> UNIV"
| "kq_filters q (x # h) = kq_filters q h"

definition kq_interest :: "KqueueReactor \<Rightarrow> history \<Rightarrow> fd \<Rightarrow> u8" where
  "kq_interest k h f =
     (if (f, EVFILT_READ) \<in> kq_filters (kq k) h then Readable else 0)
     OR (if (f, EVFILT_WRITE) \<in> kq_filters (kq k) h then Writable else 0)"

text \<open>The mirror agrees with the kernel.\<close>

definition kq_inv :: "KqueueReactor \<Rightarrow> history \<Rightarrow> bool" where
  "kq_inv k h \<longleftrightarrow> (\<forall>f. ((f, EVFILT_READ) \<in> kq_filters (kq k) h \<longleftrightarrow> bit (prev_mask k f) 0)
                     \<and> ((f, EVFILT_WRITE) \<in> kq_filters (kq k) h \<longleftrightarrow> bit (prev_mask k f) 1))"

text \<open>
  Documented behaviour of kqueue: a change list that deletes only registered filters is
  applied, and a wait reports registered filters only. The walk over the map visits every
  key once. This leaves out the failures of an addition that the manual page also lists (a bad
  descriptor, no memory).
\<close>

definition os_kqueue :: "(fd list \<Rightarrow> fd list) \<Rightarrow> os \<Rightarrow> bool" where
  "os_kqueue order os \<longleftrightarrow>
     (\<forall>h q cs. (\<forall>c \<in> set cs. kc_flags c = EV_DELETE \<longrightarrow> (kc_ident c, kc_filter c) \<in> kq_filters q h)
        \<longrightarrow> sr_ret (os h (Sys_kevent_change q cs)) = 0)
     \<and> (\<forall>h q n t. \<forall>(f, filt, flags) \<in> set (sr_kevents (os h (Sys_kevent_wait q n t))).
          (f, filt) \<in> kq_filters q h)
     \<and> (\<forall>ks. mset (order ks) = mset ks)"

subsection \<open>Merging\<close>

text \<open>What the merged event of a descriptor collects.\<close>

definition merged_of :: "(fd \<times> kfilter \<times> u16) list \<Rightarrow> fd \<Rightarrow> IoEvent" where
  "merged_of evs f =
     \<lparr>ev_fd = f,
      ev_mask = (if \<exists>fl. (f, EVFILT_READ, fl) \<in> set evs then Readable else 0)
                OR (if \<exists>fl. (f, EVFILT_WRITE, fl) \<in> set evs then Writable else 0),
      ev_error = (\<exists>filt fl. (f, filt, fl) \<in> set evs \<and> fl AND (EV_ERROR OR EV_EOF) \<noteq> 0)\<rparr>"

lemma merge_foldl:
  "foldl merge_step ([], Map.empty) evs = (ks, m) \<Longrightarrow>
     distinct ks \<and> set ks = fst ` set evs \<and> dom m = set ks \<and> (\<forall>f \<in> set ks. m f = Some (merged_of evs f))"
proof (induction evs arbitrary: ks m rule: rev_induct)
  case Nil
  then show ?case by auto
next
  case (snoc x evs)
  obtain ks0 m0 where p: "foldl merge_step ([], Map.empty) evs = (ks0, m0)" by fastforce
  obtain f filt flags where x: "x = (f, filt, flags)" by (cases x)
  from snoc.IH [OF p] have ih: "distinct ks0" "set ks0 = fst ` set evs" "dom m0 = set ks0"
    "\<And>g. g \<in> set ks0 \<Longrightarrow> m0 g = Some (merged_of evs g)" by auto
  let ?e = "case m0 f of None \<Rightarrow> IoEvent_new | Some ev \<Rightarrow> ev"
  from snoc.prems p have "merge_step (ks0, m0) x = (ks, m)" by simp
  with x have ks: "ks = (if m0 f = None then ks0 @ [f] else ks0)"
    and m: "m = m0(f \<mapsto> merge_one ?e (f, filt, flags))"
    by (auto simp: merge_step_def Let_def)
  have new: "merge_one ?e (f, filt, flags) = merged_of (evs @ [x]) f"
  proof (cases "m0 f")
    case None
    then have "f \<notin> fst ` set evs" using ih by blast
    then have "\<And>a b. (f, a, b) \<notin> set evs" by force
    with None x show ?thesis
      by (cases filt) (auto simp: merge_one_def merged_of_def IoEvent_new_def Let_def)
  next
    case (Some ev)
    then have "ev = merged_of evs f" using ih by (metis domI option.inject)
    with Some x show ?thesis
      by (cases filt) (auto simp: merge_one_def merged_of_def Let_def ac_simps)
  qed
  have other: "merged_of (evs @ [x]) g = merged_of evs g" if "g \<noteq> f" for g
    using that x by (simp add: merged_of_def)
  have k: "m0 f = None \<longleftrightarrow> f \<notin> set ks0" using ih by blast
  have "\<forall>g \<in> set ks. m g = Some (merged_of (evs @ [x]) g)"
    using ih(4) other by (auto simp: ks m new)
  moreover have "distinct ks" using ih(1) k by (simp add: ks)
  moreover have s: "set ks = insert f (set ks0)" using k by (auto simp: ks)
  moreover have "dom m = insert f (set ks0)" using ih(3) by (simp add: m)
  ultimately show ?case using ih(2) x by simp
qed


lemma kq_merge_events:
  assumes "\<And>ks. mset (order ks) = mset ks"
  shows "distinct (map ev_fd (kq_merge order evs))"
    and "set (kq_merge order evs) = merged_of evs ` fst ` set evs"
proof -
  obtain ks m where p: "foldl merge_step ([], Map.empty) evs = (ks, m)" by fastforce
  from merge_foldl [OF p] have ks: "distinct ks" "set ks = fst ` set evs"
    "\<And>f. f \<in> set ks \<Longrightarrow> m f = Some (merged_of evs f)" by auto
  have o: "set (order ks) = set ks" "distinct (order ks)"
    using assms [of ks] ks(1) by (metis mset_eq_setD, metis mset_eq_imp_distinct_iff)
  have e: "kq_merge order evs = map (\<lambda>f. the (m f)) (order ks)" by (simp add: kq_merge_def p)
  have "map ev_fd (map (\<lambda>f. the (m f)) (order ks)) = order ks"
    unfolding map_map by (rule map_idI) (simp add: o ks(3) merged_of_def)
  with e o show "distinct (map ev_fd (kq_merge order evs))" by simp
  show "set (kq_merge order evs) = merged_of evs ` fst ` set evs"
    unfolding e using o ks by (auto simp: image_iff)
qed

subsection \<open>The backend keeps the contract\<close>

lemma kq_filters_neutral: "neutral c \<Longrightarrow> kq_filters q ((c, r) # h) = kq_filters q h"
  by (cases c) auto

lemma kq_interest_neutral:
  "neutral c \<Longrightarrow> kq_interest k ((c, r) # h) f = kq_interest k h f"
  "neutral c \<Longrightarrow> kq_inv k ((c, r) # h) = kq_inv k h"
  by (simp_all add: kq_interest_def kq_inv_def kq_filters_neutral)

text \<open>The differences, applied to a kernel that agrees with the old mask, give the new mask.\<close>

lemma kq_changes_applied:
  assumes "(f, EVFILT_READ) \<in> S \<longleftrightarrow> bit p 0" "(f, EVFILT_WRITE) \<in> S \<longleftrightarrow> bit p 1"
  shows "(g, EVFILT_READ) \<in> foldl apply_change S (kq_changes f p m)
      \<longleftrightarrow> (if g = f then bit m 0 else (g, EVFILT_READ) \<in> S)"
    and "(g, EVFILT_WRITE) \<in> foldl apply_change S (kq_changes f p m)
      \<longleftrightarrow> (if g = f then bit m 1 else (g, EVFILT_WRITE) \<in> S)"
  using assms
  by (auto simp: kq_changes_def Let_def EV_SET_def and_Readable and_Writable)

lemma kq_changes_deletes:
  assumes "(f, EVFILT_READ) \<in> S \<longleftrightarrow> bit p 0" "(f, EVFILT_WRITE) \<in> S \<longleftrightarrow> bit p 1"
  shows "\<forall>c \<in> set (kq_changes f p m). kc_flags c = EV_DELETE \<longrightarrow> (kc_ident c, kc_filter c) \<in> S"
  using assms by (auto simp: kq_changes_def Let_def EV_SET_def and_Readable and_Writable)

lemma kq_remove_changes:
  "(if p AND Readable \<noteq> 0 then [EV_SET f EVFILT_READ EV_DELETE] else [])
     @ (if p AND Writable \<noteq> 0 then [EV_SET f EVFILT_WRITE EV_DELETE] else []) = kq_changes f p 0"
  by (simp add: kq_changes_def Let_def)

text \<open>The effect of an operation that brings a descriptor to a mask.\<close>

definition kq_set_post :: "fd \<Rightarrow> u8 \<Rightarrow> KqueueReactor \<Rightarrow> history \<Rightarrow> KqueueReactor \<Rightarrow> history \<Rightarrow> bool" where
  "kq_set_post f m k h k' h' \<longleftrightarrow> kq k' = kq k \<and> kq_inv k' h' \<and> open_fds h' = open_fds h
     \<and> (\<forall>g. prev_mask k' g = (if g = f then m else prev_mask k g))"

lemma kq_modify_post:
  assumes "os_kqueue order os" "kq_inv k h" "kq_modify os f m k h = (b, k', h')"
  shows "b \<and> kq_set_post f m k h k' h'"
proof -
  let ?cs = "kq_changes f (prev_mask k f) m"
  from assms(2) have a: "(f, EVFILT_READ) \<in> kq_filters (kq k) h \<longleftrightarrow> bit (prev_mask k f) 0"
    "(f, EVFILT_WRITE) \<in> kq_filters (kq k) h \<longleftrightarrow> bit (prev_mask k f) 1" by (auto simp: kq_inv_def)
  from assms(1) kq_changes_deletes [OF a, of m]
  have ok: "sr_ret (os h (Sys_kevent_change (kq k) ?cs)) = 0" by (simp add: os_kqueue_def)
  with assms(3) have b: "b" and kq: "kq k' = kq k"
    and pm: "\<forall>g. prev_mask k' g = (if g = f then m else prev_mask k g)"
    and o: "open_fds h' = open_fds h"
    and fl: "kq_filters (kq k) h' = foldl apply_change (kq_filters (kq k) h) ?cs"
    by (auto simp: kq_modify_def Let_def invoke_def prev_mask_def split: if_splits)
  have "kq_inv k' h'"
    unfolding kq_inv_def kq fl using kq_changes_applied [OF a, of _ m] pm assms(2)
    by (auto simp: kq_inv_def)
  with b kq pm o show ?thesis by (simp add: kq_set_post_def)
qed

lemma kq_remove_post:
  assumes "os_kqueue order os" "kq_inv k h" "kq_remove os f k h = (b, k', h')"
  shows "kq_set_post f 0 k h k' h'"
proof -
  from assms(3) have "k' = k\<lparr>interestByFd := (interestByFd k)(f := None)\<rparr>"
    and "h' = (if kq_changes f (prev_mask k f) 0 \<noteq> []
        then snd (invoke os (Sys_kevent_change (kq k) (kq_changes f (prev_mask k f) 0)) h) else h)"
    unfolding kq_remove_def Let_def kq_remove_changes by auto
  moreover obtain b2 k2 h2 where m: "kq_modify os f 0 k h = (b2, k2, h2)"
    by (cases "kq_modify os f 0 k h") auto
  moreover from kq_modify_post [OF assms(1,2) m] have "b2" "kq_set_post f 0 k h k2 h2" by auto
  ultimately have "k' = k2 \<and> h' = h2"
    by (auto simp: kq_modify_def Let_def invoke_def split: if_splits)
  with \<open>kq_set_post f 0 k h k2 h2\<close> show ?thesis by simp
qed

lemma kq_interest_mask: "kq_inv k h \<Longrightarrow> kq_interest k h f = mask_bits (prev_mask k f)"
  by (simp add: kq_interest_def kq_inv_def mask_bits_eq Readable_def Writable_def)

lemma kq_set_post_interest:
  assumes "kq_inv k h" "kq_set_post f m k h k' h'"
  shows "kq_interest k' h' g = (if g = f then mask_bits m else kq_interest k h g)"
  using assms by (simp add: kq_set_post_def kq_interest_mask)

lemma kq_change_open:
  "kq_modify os f m k h = (b, k', h') \<Longrightarrow> open_fds h' = open_fds h"
  "kq_remove os f k h = (b, k', h') \<Longrightarrow> open_fds h' = open_fds h"
  by (auto simp: kq_modify_def kq_remove_def Let_def invoke_def split: if_splits)


lemma kq_modify_laws:
  assumes "os_kqueue order os" "kq_inv k h" "kq_modify os f m k h = (b, k', h')"
  shows "b \<and> kq_inv k' h' \<and> (\<forall>g. kq_interest k' h' g = (if g = f then mask_bits m else kq_interest k h g))"
proof -
  from kq_modify_post [OF assms] have p: "kq_set_post f m k h k' h'" and b by auto
  with kq_set_post_interest [OF assms(2) p] show ?thesis by (simp add: kq_set_post_def)
qed

lemma kq_remove_laws:
  assumes "os_kqueue order os" "kq_inv k h" "kq_remove os f k h = (b, k', h')"
  shows "kq_inv k' h' \<and> (\<forall>g. kq_interest k' h' g = (if g = f then 0 else kq_interest k h g))"
proof -
  from kq_remove_post [OF assms] have p: "kq_set_post f 0 k h k' h'" .
  with kq_set_post_interest [OF assms(2) p] show ?thesis by (simp add: kq_set_post_def)
qed

interpretation kqueue: gated_event_loop "kq_add os" "kq_modify os" "kq_remove os" "kq_wait order os"
  kq_interest "\<lambda>k h f. True" kq_inv "os_kqueue order os" for order os
proof unfold_locales
  fix f g :: fd and m :: u8 and b :: bool and s s' :: KqueueReactor and h h' :: history
  assume so: "os_kqueue order os" and i: "kq_inv s h"
  { assume a: "kq_modify os f m s h = (b, s', h')"
    show "kq_inv s' h'" "b \<and> kq_interest s' h' f = mask_bits m \<and> True"
      "g \<noteq> f \<Longrightarrow> kq_interest s' h' g = kq_interest s h g \<and> True = True"
      using kq_modify_laws [OF so i a] by auto }
  { assume "kq_add os f m s h = (b, s', h')"
    then have a: "kq_modify os f m s h = (b, s', h')" by (simp add: kq_add_def)
    show "kq_inv s' h'" "g \<noteq> f \<Longrightarrow> kq_interest s' h' g = kq_interest s h g \<and> True = True"
      using kq_modify_laws [OF so i a] by auto }
  { assume "kq_add os f m s h = (True, s', h')"
    then have a: "kq_modify os f m s h = (True, s', h')" by (simp add: kq_add_def)
    show "kq_interest s' h' f = mask_bits m \<and> True"
      using kq_modify_laws [OF so i a] by auto }
  { assume a: "kq_remove os f s h = (b, s', h')"
    show "kq_inv s' h'" "kq_interest s' h' f = 0"
      "g \<noteq> f \<Longrightarrow> kq_interest s' h' g = kq_interest s h g \<and> True = True"
      using kq_remove_laws [OF so i a] by auto }
next
  fix t n :: int and evs :: "IoEvent list" and s s' :: KqueueReactor and h h' :: history and ev
  assume w: "kq_wait order os t s h = (n, evs, s', h')"
  then show "s' = s \<and> (\<exists>c r. h' = (c, r) # h \<and> neutral c)"
    by (auto simp: kq_wait_def Let_def invoke_def split: if_splits)
  let ?r = "os h (Sys_kevent_wait (kq s) 256 (kq_timespec t))"
  let ?es = "take (nat (sr_ret ?r)) (sr_kevents ?r)"
  assume so: "os_kqueue order os"
  then have o: "\<And>ks. mset (order ks) = mset ks" by (simp add: os_kqueue_def)
  from w have n: "n = int (length evs)" and evs: "evs = [] \<or> evs = kq_merge order ?es"
    by (auto simp: kq_wait_def Let_def invoke_def split: if_splits)
  have reg: "(f, filt) \<in> kq_filters (kq s) h" if "(f, filt, fl) \<in> set ?es" for f filt fl
  proof -
    from that have "(f, filt, fl) \<in> set (sr_kevents ?r)" by (rule in_set_takeD)
    moreover from so have "\<forall>(f, filt, flags) \<in> set (sr_kevents ?r). (f, filt) \<in> kq_filters (kq s) h"
      unfolding os_kqueue_def by blast
    ultimately show ?thesis by (auto dest: bspec)
  qed
  have within: "ev_mask (merged_of ?es f) AND NOT (kq_interest s h f) = 0" for f
    using reg by (auto simp: merged_of_def kq_interest_def Readable_def Writable_def)
  have pos: "kq_interest s h f \<noteq> 0" if "f \<in> fst ` set ?es" for f
  proof -
    from that obtain filt fl where "(f, filt, fl) \<in> set ?es" by force
    from reg [OF this] show ?thesis
      by (cases filt) (auto simp: kq_interest_def Readable_def Writable_def)
  qed
  from evs kq_merge_events [OF o, of ?es] have d: "distinct (map ev_fd evs)"
    and m: "\<And>ev. ev \<in> set evs \<Longrightarrow> \<exists>f \<in> fst ` set ?es. ev = merged_of ?es f" by auto
  have fd: "ev_fd (merged_of ?es f) = f" for f by (simp add: merged_of_def)
  show "distinct (map ev_fd evs) \<and> n = int (length evs)
      \<and> (\<forall>ev \<in> set evs. True \<and> ev_mask ev AND NOT (kq_interest s h (ev_fd ev)) = 0)"
    using d n m within fd by (metis (full_types))
  { assume "ev \<in> set evs" with m pos fd show "kq_interest s h (ev_fd ev) \<noteq> 0" by metis }
next
  fix f g :: fd and r :: sysres and s :: KqueueReactor and h :: history
  assume i: "kq_inv s h"
  show "g \<noteq> f \<Longrightarrow> kq_interest s ((Sys_close f, r) # h) g = kq_interest s h g \<and> True = True"
    by (simp add: kq_interest_def)
  assume z: "kq_interest s h f = 0"
  then have "(f, EVFILT_READ) \<notin> kq_filters (kq s) h" "(f, EVFILT_WRITE) \<notin> kq_filters (kq s) h"
    by (auto simp: kq_interest_def Readable_def Writable_def split: if_splits)
  with i show "kq_inv s ((Sys_close f, r) # h)" by (auto simp: kq_inv_def)
qed (auto simp: kq_add_def kq_change_open kq_interest_neutral kq_interest_def kq_filters_neutral)


subsection \<open>Properties\<close>

text \<open>C24: Silencing a descriptor works on the kqueue backend: after \<open>modify(fd, 0)\<close>, whatever
  is added, modified or removed for other descriptors, the next \<open>wait\<close> reports no event for it, not
  even an error; and that wait reports a descriptor at most once, with the union of its filters.\<close>

theorem kqueue_silences:
  assumes "os_kqueue order os" "kq_inv k h" "kq_modify os f 0 k h = (b, k1, h1)"
    and "fold (loop_op_run (kq_add os) (kq_modify os) (kq_remove os)) xs (k1, h1) = (k2, h2)"
    and "f \<notin> op_fd ` set xs"
    and "kq_wait order os t k2 h2 = (n, evs, k3, h3)"
  shows "f \<notin> ev_fd ` set evs \<and> distinct (map ev_fd evs)
    \<and> (\<forall>ev \<in> set evs. ev_mask ev AND NOT (kq_interest k2 h2 (ev_fd ev)) = 0)"
  using kqueue.silenced [OF assms(1,2) _ assms(3-6)]
    kqueue.wait_events [OF assms(1) _ assms(6)] kqueue.off_until_named [OF assms(1,2) _ assms(3-5)]
  by auto

text \<open>A kernel with two readable descriptors, 4 with both filters, that reports what is registered.\<close>

definition kq_demo_os :: os where
  "kq_demo_os h c = (case c of
      Sys_kevent_wait q n t \<Rightarrow>
        (let evs = [x \<leftarrow> [(4, EVFILT_READ, 0), (5, EVFILT_READ, 0), (4, EVFILT_WRITE, 0x8000)].
              (fst x, fst (snd x)) \<in> kq_filters q h]
         in (sys_result (int (length evs)))\<lparr>sr_kevents := evs\<rparr>)
    | _ \<Rightarrow> sys_result 0)"

lemma kq_demo_os_sound: "os_kqueue rev kq_demo_os"
  by (auto simp: os_kqueue_def kq_demo_os_def Let_def)

definition kq_demo :: "KqueueReactor \<times> history" where
  "kq_demo = snd (kq_add kq_demo_os 4 (Readable OR Writable) \<lparr>kq = 3, interestByFd = Map.empty\<rparr> [])"

theorem kqueue_silences_witness:
  "kq_interest (fst kq_demo) (snd kq_demo) 4 = Readable OR Writable
   \<and> (case kq_modify kq_demo_os 4 0 (fst kq_demo) (snd kq_demo) of (b, k1, h1) \<Rightarrow>
       case fold (loop_op_run (kq_add kq_demo_os) (kq_modify kq_demo_os) (kq_remove kq_demo_os))
              [Add 5 Readable] (k1, h1) of (k2, h2) \<Rightarrow>
       case kq_wait rev kq_demo_os 100 k2 h2 of (n, evs, k3, h3) \<Rightarrow> 4 \<notin> ev_fd ` set evs)"
proof -
  let ?k = "\<lparr>kq = 3, interestByFd = Map.empty\<rparr> :: KqueueReactor"
  obtain b0 where a: "kq_add kq_demo_os 4 (Readable OR Writable) ?k [] = (b0, fst kq_demo, snd kq_demo)"
    unfolding kq_demo_def by (metis prod.collapse)
  have i0: "kq_inv ?k []" by (simp add: kq_inv_def prev_mask_def)
  have i: "kq_inv (fst kq_demo) (snd kq_demo)" by (rule kqueue.add_inv [OF kq_demo_os_sound i0 a])
  have s: "kq_interest (fst kq_demo) (snd kq_demo) 4 = Readable OR Writable" by code_simp
  obtain b k1 h1 where m: "kq_modify kq_demo_os 4 0 (fst kq_demo) (snd kq_demo) = (b, k1, h1)"
    by (metis prod_cases3)
  obtain k2 h2 where f: "fold (loop_op_run (kq_add kq_demo_os) (kq_modify kq_demo_os) (kq_remove kq_demo_os))
      [Add 5 Readable] (k1, h1) = (k2, h2)" by fastforce
  obtain n evs k3 h3 where w: "kq_wait rev kq_demo_os 100 k2 h2 = (n, evs, k3, h3)" by (metis prod_cases4)
  have "4 \<notin> op_fd ` set [Add 5 Readable]" by simp
  from kqueue_silences [OF kq_demo_os_sound i m f this w] show ?thesis unfolding m prod.case f w
    using s by simp
qed

end
