(* ===== verification/Epoll_Reactor.thy ===== *)
theory Epoll_Reactor
  imports Event_Loop
begin

unbundle bit_operations_syntax

section \<open>The epoll backend\<close>

text \<open>
  \<open>net::EpollReactor\<close> of \<open>src/net/epoll_reactor.cpp\<close>. The kernel's table of registrations
  is read off the history of successful \<open>epoll_ctl\<close> calls (and of \<open>close\<close>, which drops
  what it closes); the hypotheses on the kernel are \<open>os_epoll\<close>.
\<close>

definition EPOLLIN :: u32 where "EPOLLIN = 0x001"
definition EPOLLOUT :: u32 where "EPOLLOUT = 0x004"
definition EPOLLERR :: u32 where "EPOLLERR = 0x008"
definition EPOLLHUP :: u32 where "EPOLLHUP = 0x010"

lemmas epoll_bits = EPOLLIN_def EPOLLOUT_def EPOLLERR_def EPOLLHUP_def

definition toEpollEvents :: "u8 \<Rightarrow> u32" where
  "toEpollEvents interestMask =
     (let events = 0;
          events = (if interestMask AND Readable \<noteq> 0 then events OR EPOLLIN else events)
      in (if interestMask AND Writable \<noteq> 0 then events OR EPOLLOUT else events))"

definition fromEpollEvents :: "u32 \<Rightarrow> u8" where
  "fromEpollEvents events =
     (let m = 0;
          m = (if events AND EPOLLIN \<noteq> 0 then m OR Readable else m)
      in (if events AND EPOLLOUT \<noteq> 0 then m OR Writable else m))"

record EpollReactor =
  epollFd :: fd

definition EpollReactor_new :: "os \<Rightarrow> history \<Rightarrow> EpollReactor \<times> history" where
  "EpollReactor_new os h =
     (let (r, h1) = invoke os Sys_epoll_create h in (\<lparr>epollFd = sr_ret r\<rparr>, h1))"

definition EpollReactor_destroy :: "os \<Rightarrow> EpollReactor \<Rightarrow> history \<Rightarrow> history" where
  "EpollReactor_destroy os e h =
     (if 0 \<le> epollFd e then snd (invoke os (Sys_close (epollFd e)) h) else h)"

definition epoll_add ::
    "os \<Rightarrow> fd \<Rightarrow> u8 \<Rightarrow> EpollReactor \<Rightarrow> history \<Rightarrow> bool \<times> EpollReactor \<times> history" where
  "epoll_add os f interestMask e h =
     (let ev = toEpollEvents interestMask;
          (r, h1) = invoke os (Sys_epoll_ctl (epollFd e) EPOLL_CTL_ADD f ev) h
      in if sr_ret r = 0 then (True, e, h1)
         else (let (r2, h2) = invoke os (Sys_epoll_ctl (epollFd e) EPOLL_CTL_MOD f ev) h1
               in (sr_ret r2 = 0, e, h2)))"

definition epoll_modify ::
    "os \<Rightarrow> fd \<Rightarrow> u8 \<Rightarrow> EpollReactor \<Rightarrow> history \<Rightarrow> bool \<times> EpollReactor \<times> history" where
  "epoll_modify os f interestMask e h =
     (let ev = toEpollEvents interestMask;
          (r, h1) = invoke os (Sys_epoll_ctl (epollFd e) EPOLL_CTL_MOD f ev) h
      in (sr_ret r = 0, e, h1))"

definition epoll_remove ::
    "os \<Rightarrow> fd \<Rightarrow> EpollReactor \<Rightarrow> history \<Rightarrow> bool \<times> EpollReactor \<times> history" where
  "epoll_remove os f e h =
     (let (r, h1) = invoke os (Sys_epoll_ctl (epollFd e) EPOLL_CTL_DEL f 0) h
      in (sr_ret r = 0, e, h1))"

text \<open>One entry of the kernel's answer as an \<open>IoEvent\<close>.\<close>

definition epoll_event :: "fd \<times> u32 \<Rightarrow> IoEvent" where
  "epoll_event x = (case x of (f, events) \<Rightarrow>
     \<lparr>ev_fd = f, ev_mask = fromEpollEvents events,
      ev_error = (events AND (EPOLLERR OR EPOLLHUP) \<noteq> 0)\<rparr>)"

definition epoll_wait ::
    "os \<Rightarrow> int \<Rightarrow> EpollReactor \<Rightarrow> history \<Rightarrow> int \<times> IoEvent list \<times> EpollReactor \<times> history" where
  "epoll_wait os timeoutMs e h =
     (let (r, h1) = invoke os (Sys_epoll_wait (epollFd e) 256 timeoutMs) h; n = sr_ret r
      in if n \<le> 0 then ((if n < 0 then 0 else n), [], e, h1)
         else (let out = map epoll_event (take (nat n) (sr_epoll r))
               in (int (length out), out, e, h1)))"

subsection \<open>The kernel's table\<close>

fun epoll_reg :: "fd \<Rightarrow> history \<Rightarrow> fd \<Rightarrow> u32 option" where
  "epoll_reg ep [] f = None"
| "epoll_reg ep ((Sys_epoll_ctl ep' op g ev, r) # h) f =
     (if ep' = ep \<and> g = f \<and> sr_ret r = 0 then (if op = EPOLL_CTL_DEL then None else Some ev)
      else epoll_reg ep h f)"
| "epoll_reg ep ((Sys_close g, r) # h) f = (if g = f then None else epoll_reg ep h f)"
| "epoll_reg ep (x # h) f = epoll_reg ep h f"

definition epoll_interest :: "EpollReactor \<Rightarrow> history \<Rightarrow> fd \<Rightarrow> u8" where
  "epoll_interest e h f =
     (case epoll_reg (epollFd e) h f of None \<Rightarrow> 0 | Some ev \<Rightarrow> fromEpollEvents ev)"

definition epoll_known :: "EpollReactor \<Rightarrow> history \<Rightarrow> fd \<Rightarrow> bool" where
  "epoll_known e h f \<longleftrightarrow> epoll_reg (epollFd e) h f \<noteq> None"

text \<open>
  Documented behaviour of epoll: a registered descriptor can be modified and removed; a wait
  reports each registered descriptor at most once, with conditions that were asked for or
  with \<open>EPOLLERR\<close> and \<open>EPOLLHUP\<close>, which are always reported.
\<close>

definition os_epoll :: "os \<Rightarrow> bool" where
  "os_epoll os \<longleftrightarrow>
     (\<forall>h ep f ev. epoll_reg ep h f \<noteq> None \<longrightarrow>
        sr_ret (os h (Sys_epoll_ctl ep EPOLL_CTL_MOD f ev)) = 0
        \<and> sr_ret (os h (Sys_epoll_ctl ep EPOLL_CTL_DEL f ev)) = 0)
     \<and> (\<forall>h ep n t. let evs = sr_epoll (os h (Sys_epoll_wait ep n t)) in
          distinct (map fst evs)
          \<and> (\<forall>(f, ev) \<in> set evs. \<exists>m. epoll_reg ep h f = Some m
                \<and> ev AND NOT (m OR EPOLLERR OR EPOLLHUP) = 0))"

subsection \<open>Masks\<close>

lemma and_EPOLLIN: "e AND EPOLLIN \<noteq> 0 \<longleftrightarrow> bit e 0"
  by (simp add: EPOLLIN_def and_one_eq odd_iff_mod_2_eq_one [symmetric] bit_0)

lemma bit_4_iff: "bit (4 :: int) n \<longleftrightarrow> n = 2"
  by (cases n; cases "n - 1"; cases "n - 2") (simp_all add: bit_numeral_rec bit_1_iff)

lemma and_EPOLLOUT: "e AND EPOLLOUT \<noteq> 0 \<longleftrightarrow> bit e 2"
  unfolding EPOLLOUT_def
  by (rule iffI) (auto simp: bit_eq_iff [of "e AND 4" 0] bit_and_iff bit_4_iff)

lemma bit_fromEpollEvents:
  "bit (fromEpollEvents e) n \<longleftrightarrow> n = 0 \<and> bit e 0 \<or> n = 1 \<and> bit e 2"
  by (auto simp: fromEpollEvents_def Let_def and_EPOLLIN and_EPOLLOUT Readable_def Writable_def
      bit_or_iff bit_1_iff bit_2_iff bit_3_iff)

lemma bit_toEpollEvents:
  "bit (toEpollEvents m) 0 \<longleftrightarrow> bit m 0" "bit (toEpollEvents m) 2 \<longleftrightarrow> bit m 1"
  by (auto simp: toEpollEvents_def Let_def and_Readable and_Writable epoll_bits
      bit_or_iff bit_1_iff bit_4_iff bit_numeral_rec)

lemma mask_roundtrip: "fromEpollEvents (toEpollEvents m) = mask_bits m"
  by (auto simp: fromEpollEvents_def Let_def and_EPOLLIN and_EPOLLOUT bit_toEpollEvents
      mask_bits_eq Readable_def Writable_def)


text \<open>A mask that a registration allows stays within the interest it stands for.\<close>

lemma fromEpollEvents_within:
  assumes "ev AND NOT (m OR EPOLLERR OR EPOLLHUP) = 0"
  shows "fromEpollEvents ev AND NOT (fromEpollEvents m) = 0"
proof (rule bit_eqI)
  fix n assume "possible_bit TYPE(8 word) n"
  have b: "\<not> bit (ev AND NOT (m OR EPOLLERR OR EPOLLHUP)) k" for k using assms by simp
  have "bit ev 0 \<Longrightarrow> bit m 0" "bit ev 2 \<Longrightarrow> bit m 2"
    using b [of 0] b [of 2]
    by (auto simp: bit_and_iff bit_not_iff bit_or_iff epoll_bits bit_numeral_rec)
  then show "bit (fromEpollEvents ev AND NOT (fromEpollEvents m)) n = bit (0 :: u8) n"
    by (simp only: bit_and_iff bit_not_iff bit_fromEpollEvents bit_0_eq) blast
qed

subsection \<open>The backend keeps the contract\<close>

lemma epoll_reg_neutral: "neutral c \<Longrightarrow> epoll_reg ep ((c, r) # h) f = epoll_reg ep h f"
  by (cases c) auto

lemmas epoll_ops = epoll_add_def epoll_modify_def epoll_remove_def Let_def invoke_def

interpretation epoll: event_loop "epoll_add os" "epoll_modify os" "epoll_remove os" "epoll_wait os"
  epoll_interest epoll_known "\<lambda>e h. True" "os_epoll os" for os
proof unfold_locales
  fix f g :: fd and m :: u8 and b :: bool and s s' :: EpollReactor and h h' :: history
  { assume "epoll_add os f m s h = (b, s', h')" "g \<noteq> f"
    then show "epoll_interest s' h' g = epoll_interest s h g \<and> epoll_known s' h' g = epoll_known s h g"
      by (auto simp: epoll_ops epoll_interest_def epoll_known_def split: if_splits) }
  { assume "epoll_add os f m s h = (True, s', h')"
    then show "epoll_interest s' h' f = mask_bits m \<and> epoll_known s' h' f"
      by (auto simp: epoll_ops epoll_interest_def epoll_known_def mask_roundtrip split: if_splits) }
  { assume "epoll_modify os f m s h = (b, s', h')" "g \<noteq> f"
    then show "epoll_interest s' h' g = epoll_interest s h g \<and> epoll_known s' h' g = epoll_known s h g"
      by (auto simp: epoll_ops epoll_interest_def epoll_known_def split: if_splits) }
  { assume "os_epoll os" "epoll_modify os f m s h = (b, s', h')" "epoll_known s h f"
    then show "b \<and> epoll_interest s' h' f = mask_bits m \<and> epoll_known s' h' f"
      by (auto simp: epoll_ops epoll_interest_def epoll_known_def mask_roundtrip os_epoll_def) }
  { assume "epoll_remove os f s h = (b, s', h')" "g \<noteq> f"
    then show "epoll_interest s' h' g = epoll_interest s h g \<and> epoll_known s' h' g = epoll_known s h g"
      by (auto simp: epoll_ops epoll_interest_def epoll_known_def split: if_splits) }
  { assume "os_epoll os" "epoll_remove os f s h = (b, s', h')" "epoll_known s h f"
    then show "epoll_interest s' h' f = 0"
      by (auto simp: epoll_ops epoll_interest_def epoll_known_def os_epoll_def) }
  { assume "epoll_add os f m s h = (b, s', h')" then show "open_fds h' = open_fds h"
      by (auto simp: epoll_ops split: if_splits) }
  { assume "epoll_modify os f m s h = (b, s', h')" then show "open_fds h' = open_fds h"
      by (auto simp: epoll_ops split: if_splits) }
  { assume "epoll_remove os f s h = (b, s', h')" then show "open_fds h' = open_fds h"
      by (auto simp: epoll_ops split: if_splits) }
next
  fix t n :: int and evs :: "IoEvent list" and s s' :: EpollReactor and h h' :: history
  assume w: "epoll_wait os t s h = (n, evs, s', h')"
  then show "s' = s \<and> (\<exists>c r. h' = (c, r) # h \<and> neutral c)"
    by (auto simp: epoll_wait_def Let_def invoke_def split: if_splits)
  let ?r = "os h (Sys_epoll_wait (epollFd s) 256 t)"
  assume so: "os_epoll os"
  from w have n: "n = int (length evs)" and evs: "evs = [] \<or> evs = map epoll_event (take (nat (sr_ret ?r)) (sr_epoll ?r))"
    by (auto simp: epoll_wait_def Let_def invoke_def split: if_splits)
  have ok: "epoll_known s h (ev_fd (epoll_event x))
      \<and> ev_mask (epoll_event x) AND NOT (epoll_interest s h (ev_fd (epoll_event x))) = 0"
    if "x \<in> set (sr_epoll ?r)" for x
  proof -
    obtain f ev where x: "x = (f, ev)" by (cases x)
    from so have "\<forall>(f, ev) \<in> set (sr_epoll ?r). \<exists>m. epoll_reg (epollFd s) h f = Some m
        \<and> ev AND NOT (m OR EPOLLERR OR EPOLLHUP) = 0"
      unfolding os_epoll_def Let_def by blast
    with that x obtain m where m: "epoll_reg (epollFd s) h f = Some m"
      "ev AND NOT (m OR EPOLLERR OR EPOLLHUP) = 0"
      by (auto dest: bspec)
    with x fromEpollEvents_within [OF m(2)] show ?thesis
      by (simp add: epoll_event_def epoll_known_def epoll_interest_def)
  qed
  have "map ev_fd (map epoll_event xs) = map fst xs" for xs
    by (induction xs) (auto simp: epoll_event_def)
  moreover from so have "distinct (map fst (sr_epoll ?r))" by (simp add: os_epoll_def Let_def)
  ultimately have "distinct (map ev_fd (map epoll_event (take (nat (sr_ret ?r)) (sr_epoll ?r))))"
    by (metis distinct_take take_map)
  with evs have d: "distinct (map ev_fd evs)" by auto
  have "\<forall>ev \<in> set evs. epoll_known s h (ev_fd ev) \<and> ev_mask ev AND NOT (epoll_interest s h (ev_fd ev)) = 0"
    using evs ok by (auto dest!: in_set_takeD)
  with d n show "distinct (map ev_fd evs) \<and> n = int (length evs)
      \<and> (\<forall>ev \<in> set evs. epoll_known s h (ev_fd ev) \<and> ev_mask ev AND NOT (epoll_interest s h (ev_fd ev)) = 0)"
    by blast
next
  fix c :: syscall and r :: sysres and s :: EpollReactor and h :: history and g :: fd
  assume "neutral c"
  then show "epoll_interest s ((c, r) # h) g = epoll_interest s h g \<and> epoll_known s ((c, r) # h) g = epoll_known s h g"
    by (simp add: epoll_interest_def epoll_known_def epoll_reg_neutral)
qed (auto simp: epoll_interest_def epoll_known_def)


subsection \<open>Properties\<close>

text \<open>\<open>EpollReactor::add\<close> is the add-or-modify that the interface promises: on a descriptor
  the kernel already has, it succeeds and replaces the mask (also when \<open>EPOLL_CTL_ADD\<close> is refused
  and the fallback to \<open>EPOLL_CTL_MOD\<close> does it); whenever it succeeds, the kernel watches the
  descriptor with exactly the mask's two bits; and other descriptors keep their registration.\<close>

theorem epoll_add_or_modify:
  assumes "os_epoll os" "epoll_add os f m e h = (b, e', h')"
  shows "(epoll_known e h f \<longrightarrow> b) \<and> (b \<longrightarrow> epoll_interest e' h' f = mask_bits m)
    \<and> (\<forall>g. g \<noteq> f \<longrightarrow> epoll_interest e' h' g = epoll_interest e h g)"
proof -
  have "epoll_known e h f \<Longrightarrow> b"
    using assms by (auto simp: epoll_ops epoll_known_def os_epoll_def split: if_splits)
  moreover have "b \<Longrightarrow> epoll_interest e' h' f = mask_bits m"
    using epoll.add_sets [OF assms(1)] assms(2) by auto
  moreover have "g \<noteq> f \<Longrightarrow> epoll_interest e' h' g = epoll_interest e h g" for g
    using epoll.add_frame [OF assms(1) _ assms(2)] by auto
  ultimately show ?thesis by blast
qed

text \<open>A kernel that refuses to add what is there already and reports every registered
  descriptor 4 as hung up.\<close>

definition hup_os :: os where
  "hup_os h c = (case c of
      Sys_epoll_ctl ep op f ev \<Rightarrow>
        (if op = EPOLL_CTL_ADD \<longleftrightarrow> epoll_reg ep h f = None then sys_result 0 else sys_error (EOTHER 17))
    | Sys_epoll_wait ep n t \<Rightarrow>
        (if epoll_reg ep h 4 = None then sys_result 0
         else (sys_result 1)\<lparr>sr_epoll := [(4, EPOLLHUP)]\<rparr>)
    | _ \<Rightarrow> sys_result 0)"

lemma hup_os_sound: "os_epoll hup_os"
proof -
  have "(16 :: u32) AND NOT y AND - 25 = 0" for y
    by (subst and.left_commute) simp
  then show ?thesis by (auto simp: os_epoll_def hup_os_def Let_def epoll_bits)
qed

definition hup_loop :: "EpollReactor \<times> history" where
  "hup_loop = snd (epoll_add hup_os 4 Readable \<lparr>epollFd = 3\<rparr> [])"

theorem epoll_add_or_modify_witness:
  "case epoll_add hup_os 4 Writable (fst hup_loop) (snd hup_loop) of (b, e', h') \<Rightarrow>
     b \<and> epoll_interest e' h' 4 = Writable \<and> length h' = 3"
proof -
  obtain b e h where a: "epoll_add hup_os 4 Writable (fst hup_loop) (snd hup_loop) = (b, e, h)"
    by (metis prod_cases3)
  have k: "epoll_known (fst hup_loop) (snd hup_loop) 4"
    and l: "length (snd (snd (epoll_add hup_os 4 Writable (fst hup_loop) (snd hup_loop)))) = 3"
    by code_simp+
  from epoll_add_or_modify [OF hup_os_sound a] k l show ?thesis by (simp add: a)
qed

text \<open>On the epoll backend a mask of 0 does not silence a descriptor: a documented kernel
  exists under which \<open>modify(fd, 0)\<close> succeeds, the kernel's mask is 0, and the next
  \<open>wait\<close> reports the descriptor with \<open>error\<close> set. The backends are thus not
  interchangeable, and the reactor's \<open>modify(ev.fd, 0)\<close> does not stop error events.\<close>

theorem epoll_error_when_off:
  "\<exists>os e h e1 h1. os_epoll os \<and> epoll_modify os 4 0 e h = (True, e1, h1)
     \<and> epoll_interest e1 h1 4 = 0
     \<and> fst (snd (epoll_wait os 100 e1 h1)) = [\<lparr>ev_fd = 4, ev_mask = 0, ev_error = True\<rparr>]"
proof -
  let ?m = "epoll_modify hup_os 4 0 (fst hup_loop) (snd hup_loop)"
  have "epoll_modify hup_os 4 0 (fst hup_loop) (snd hup_loop) = (True, fst (snd ?m), snd (snd ?m))"
    "epoll_interest (fst (snd ?m)) (snd (snd ?m)) 4 = 0"
    "fst (snd (epoll_wait hup_os 100 (fst (snd ?m)) (snd (snd ?m))))
       = [\<lparr>ev_fd = 4, ev_mask = 0, ev_error = True\<rparr>]" by code_simp+
  with hup_os_sound show ?thesis by blast
qed

end
