(* ===== verification/Concurrency.thy ===== *)
theory Concurrency
  imports Reactor_Safety Load_Balancer Kqueue_Reactor Epoll_Reactor
begin

section \<open>Both programs on both backends\<close>

text \<open>
  The reactor discipline of \<open>Reactor_Safety\<close> for the server and the load balancer on the kqueue
  backend, where a mask of 0 silences a descriptor, and the run on the epoll backend that
  breaks it: an error event for a descriptor whose mask is 0 destroys a connection a worker
  holds.
\<close>

text \<open>The two classes that \<open>EventLoop::create\<close> chooses from, as operations.\<close>

definition kqueue_loop :: "(fd list \<Rightarrow> fd list) \<Rightarrow> os \<Rightarrow> KqueueReactor EventLoop" where
  "kqueue_loop order os = \<lparr>el_add = kq_add os, el_modify = kq_modify os, el_remove = kq_remove os,
     el_wait = kq_wait order os\<rparr>"

definition epoll_loop :: "os \<Rightarrow> EpollReactor EventLoop" where
  "epoll_loop os = \<lparr>el_add = epoll_add os, el_modify = epoll_modify os, el_remove = epoll_remove os,
     el_wait = epoll_wait os\<rparr>"

text \<open>\<open>EventLoop::create\<close>: the backend of the platform the program is compiled for.\<close>

datatype platform = Linux | BSD

datatype Backend = Epoll EpollReactor | Kqueue KqueueReactor

definition EventLoop_create :: "platform \<Rightarrow> os \<Rightarrow> history \<Rightarrow> Backend \<times> history" where
  "EventLoop_create p os h =
     (case p of
        Linux \<Rightarrow> (let (e, h1) = EpollReactor_new os h in (Epoll e, h1))
      | BSD \<Rightarrow> (let (k, h1) = KqueueReactor_new os h in (Kqueue k, h1)))"

text \<open>The tasks of the two programs.\<close>

definition server_task :: "os \<Rightarrow> fd \<Rightarrow> 's HttpServer \<Rightarrow> history \<Rightarrow> ('s HttpServer \<times> history) option" where
  "server_task os f s h = Some (handleConnectionEvent os f s h)"

definition lb_task :: "os \<Rightarrow> fd \<Rightarrow> 's LoadBalancer \<Rightarrow> history \<Rightarrow> ('s LoadBalancer \<times> history) option" where
  "lb_task os f s h = handleClientEvent os f s h"

subsection \<open>Workers are quiet\<close>

lemma flushWrite_quiet: "flushWrite os c h = (ok, c', h') \<Longrightarrow> c_sock c' = c_sock c \<and> quiet_run h h'"
  using flushWrite_keeps(1,4) [of os c h ok c' h'] quiet_run_sends by blast

lemma queue_sock [simp]:
  "c_sock (queueWrite d c) = c_sock c" "c_sock (setPendingKeepAlive b c) = c_sock c"
  by (simp_all add: queueWrite_def setPendingKeepAlive_def)

lemma resumeWrite_quiet: "resumeWrite os c h = (c', act, h') \<Longrightarrow> c_sock c' = c_sock c \<and> quiet_run h h'"
  by (auto simp: resumeWrite_def Let_def split: prod.splits if_splits dest!: flushWrite_quiet)

lemma answerBadRequest_quiet: "answerBadRequest os c h = (c', act, h') \<Longrightarrow> c_sock c' = c_sock c \<and> quiet_run h h'"
  by (auto simp: answerBadRequest_def Let_def split: prod.splits if_splits dest!: flushWrite_quiet)

lemma answerRequest_quiet: "answerRequest os router c h = (c', act, h') \<Longrightarrow> c_sock c' = c_sock c \<and> quiet_run h h'"
  by (auto simp: answerRequest_def Let_def split: prod.splits if_splits dest!: flushWrite_quiet)

lemma serveConnection_quiet:
  assumes "serveConnection os router f c h = (c', act, h')"
  shows "c_sock c' = c_sock c \<and> quiet_run h h'"
proof (cases "hasPendingWrite c")
  case True
  with assms resumeWrite_quiet show ?thesis by (auto simp: serveConnection_def)
next
  case False
  let ?r = "os h (Sys_recv f 8192)"
  let ?h = "(Sys_recv f 8192, ?r) # h"
  have q: "quiet_run h ?h" by (rule quiet_run_recv)
  obtain st p where p: "consume (c_parser c) (take (nat (sr_ret ?r)) (sr_data ?r)) = (st, p)" by fastforce
  show ?thesis
  proof (cases "0 < sr_ret ?r")
    case True
    from serveConnection_read [where os = os and h = h and f = f, OF False True p, of router] assms
    have "(case st of NeedMoreData \<Rightarrow> (c\<lparr>c_parser := p\<rparr>, WaitReadable, ?h)
        | ParseComplete \<Rightarrow> answerRequest os router (c\<lparr>c_parser := p\<rparr>) ?h
        | ParseError \<Rightarrow> answerBadRequest os (c\<lparr>c_parser := p\<rparr>) ?h) = (c', act, h')" by simp
    with q show ?thesis
      by (cases st) (auto dest!: answerBadRequest_quiet answerRequest_quiet intro: quiet_run_trans)
  next
    case pos: False
    with False assms q show ?thesis by (auto simp: serveConnection_def Let_def invoke_def split: if_splits)
  qed
qed

lemma server_task_handled:
  assumes "rx_connections s f = Some c" "server_task os f s h = Some (s', h')"
  shows "handled f s h s' h'"
proof -
  obtain c' act h1 where v: "serveConnection os (hs_router s) f c h = (c', act, h1)" by (metis prod_cases3)
  with assms have "s' = postRearm f act (s\<lparr>rx_connections := (rx_connections s)(f \<mapsto> c')\<rparr>)" "h' = h1"
    by (auto simp: server_task_def handleConnectionEvent_def)
  with serveConnection_quiet [OF v] assms(1) show ?thesis by (auto simp: handled_def postRearm_def)
qed

interpretation kqueue_server: reactor_system "kqueue_loop order os" kq_interest "\<lambda>k h f. True" kq_inv
  "os_kqueue order os" os "server_task os" for order os
proof (intro reactor_system.intro reactor_system_axioms.intro)
  show "gated_event_loop (el_add (kqueue_loop order os)) (el_modify (kqueue_loop order os))
     (el_remove (kqueue_loop order os)) (el_wait (kqueue_loop order os)) kq_interest (\<lambda>k h f. True) kq_inv
     (os_kqueue order os)"
    using kqueue.gated_event_loop_axioms by (simp add: kqueue_loop_def)
qed (auto intro: server_task_handled)


lemma neutral_calls_sends: "only_sends f h h' \<Longrightarrow> \<exists>k. h' = k @ h \<and> quiet_calls S k"
  by (fastforce simp: only_sends_def quiet_calls_def)

lemma neutral_calls_recvs: "only_recvs f h h' \<Longrightarrow> \<exists>k. h' = k @ h \<and> quiet_calls S k"
  by (fastforce simp: only_recvs_def quiet_calls_def)

lemma upstreamExchange_calls:
  assumes "upstreamExchange os ufd u req h = Some (res, h')"
  shows "\<exists>k. h' = k @ h \<and> quiet_calls S k"
proof -
  obtain r2 h2 where 2: "invoke os (Sys_setsockopt ufd (SO_RCVTIMEO 2 0)) h = (r2, h2)" by fastforce
  obtain r3 h3 where 3: "invoke os (Sys_setsockopt ufd (SO_SNDTIMEO 2 0)) h2 = (r3, h3)" by fastforce
  obtain r4 h4 where 4: "invoke os (Sys_inet_pton (u_host u)) h3 = (r4, h4)" by fastforce
  obtain r5 h5 where 5: "invoke os (Sys_connect ufd (connectAddr u r4) (u_port u)) h4 = (r5, h5)" by fastforce
  obtain ok h6 where 6: "sendAll os ufd (forwardText req) h5 = (ok, h6)" by fastforce
  have "\<exists>k. h5 = k @ h \<and> quiet_calls S k"
    using invoke_result [OF 2] invoke_result [OF 3] invoke_result [OF 4] invoke_result [OF 5]
    by (intro exI [of _ "[(Sys_connect ufd (connectAddr u r4) (u_port u), r5), (Sys_inet_pton (u_host u), r4),
          (Sys_setsockopt ufd (SO_SNDTIMEO 2 0), r3), (Sys_setsockopt ufd (SO_RCVTIMEO 2 0), r2)]"]) simp
  moreover have "\<exists>k. h6 = k @ h5 \<and> quiet_calls S k"
    using sendAll_sent(1) [OF 6] by (rule neutral_calls_sends)
  moreover have "\<exists>k. h7 = k @ h6 \<and> quiet_calls S k"
    if "recvResponse os ufd 8192 HttpResponseParser_new h6 = Some (res, h7)" for h7
    using recvResponse_read_post [OF that] neutral_calls_recvs by (auto simp: read_post_def)
  moreover have "h' = h5 \<or> h' = h6 \<or> recvResponse os ufd 8192 HttpResponseParser_new h6 = Some (res, h')"
    using assms 2 3 4 5 6 by (auto simp: upstreamExchange_def split: if_splits)
  ultimately obtain k5 k6 k7 where "h5 = k5 @ h" "quiet_calls S k5" "h6 = k6 @ h5" "quiet_calls S k6"
    "h' = h5 \<or> h' = h6 \<or> h' = k7 @ h6 \<and> quiet_calls S k7" by blast
  then have "h' = k5 @ h \<or> h' = (k6 @ k5) @ h \<or> h' = (k7 @ k6 @ k5) @ h \<and> quiet_calls S k7"
    "quiet_calls S k5" "quiet_calls S (k6 @ k5)" by auto
  then show ?thesis by (metis quiet_calls_append)
qed

lemma proxyRequest_quiet:
  assumes "os_fresh os" "proxyRequest os pool c req h = Some (ok, c', pool', h')"
  shows "quiet_run h h'"
proof (cases "fst (pickNext pool)")
  case None
  with assms(2) proxyRequest_None [of pool os c req h] show ?thesis by simp
next
  case (Some i)
  let ?f = "sr_ret (os h Sys_socket)" and ?h = "(Sys_socket, os h Sys_socket) # h"
  have o: "open_fds h' = open_fds h" using proxyRequest_open [OF assms] by simp
  show ?thesis
  proof (cases "?f < 0")
    case True
    with assms(2) proxyRequest_Some [OF Some refl, of os c req h] have "h' = [(Sys_socket, os h Sys_socket)] @ h" by simp
    with o show ?thesis unfolding quiet_run_def by (metis neutral.simps(4) fst_conv quiet_calls_Cons)
  next
    case False
    with assms(1) have fr: "?f \<notin> open_fds h" by (simp add: os_fresh_def)
    from False assms(2) proxyRequest_Some [OF Some refl, of os c req h] obtain res h2
      where x: "upstreamExchange os ?f (up_upstreams pool ! i) req ?h = Some (res, h2)"
        and h': "h' = (Sys_close ?f, os h2 (Sys_close ?f)) # h2" by (auto split: option.splits)
    from upstreamExchange_calls [OF x] obtain k where "h2 = k @ ?h" "quiet_calls (open_fds h) k" by blast
    with h' fr have "h' = ((Sys_close ?f, os h2 (Sys_close ?f)) # k @ [(Sys_socket, os h Sys_socket)]) @ h"
      "quiet_calls (open_fds h) ((Sys_close ?f, os h2 (Sys_close ?f)) # k @ [(Sys_socket, os h Sys_socket)])" by auto
    with o show ?thesis unfolding quiet_run_def by blast
  qed
qed

lemma proxyRequest_sock:
  assumes "proxyRequest os pool c req h = Some (ok, c', pool', h')" shows "c_sock c' = c_sock c"
proof (cases "fst (pickNext pool)")
  case None
  with assms proxyRequest_None [of pool os c req h] show ?thesis by (auto simp: refuseProxy_simps)
next
  case (Some i)
  with assms show ?thesis unfolding proxyRequest_Some [OF Some refl]
    by (auto simp: refuseProxy_simps split: if_splits option.splits)
qed

lemma proxyAnswer_quiet:
  assumes "os_fresh os" "proxyAnswer os pool c h = Some (c', act, pool', h')"
  shows "c_sock c' = c_sock c \<and> quiet_run h h'"
proof -
  from assms(2) obtain ok c1 h1 where p: "proxyRequest os pool c (p_req (c_parser c)) h = Some (ok, c1, pool', h1)"
    by (auto simp: proxyAnswer_def Let_def split: option.splits prod.splits if_splits)
  have "c_sock c1 = c_sock c" by (rule proxyRequest_sock [OF p])
  moreover obtain fin c2 h2 where f: "flushWrite os c1 h1 = (fin, c2, h2)" by (metis prod_cases3)
  moreover have "h' = h2" "c_sock c' = c_sock c2"
    using assms(2) p f by (auto simp: proxyAnswer_def Let_def split: if_splits)
  ultimately show ?thesis using flushWrite_quiet [OF f] proxyRequest_quiet [OF assms(1) p] quiet_run_trans by metis
qed


lemma serveClient_quiet:
  assumes "os_fresh os" "serveClient os pool f c h = Some (c', act, pool', h')"
  shows "c_sock c' = c_sock c \<and> quiet_run h h'"
proof (cases "hasPendingWrite c")
  case True
  with assms(2) resumeWrite_quiet show ?thesis by (auto simp: serveClient_def split: prod.splits)
next
  case False
  let ?r = "os h (Sys_recv f 8192)"
  let ?h = "(Sys_recv f 8192, ?r) # h"
  have q: "quiet_run h ?h" by (rule quiet_run_recv)
  obtain st p where p: "consume (c_parser c) (take (nat (sr_ret ?r)) (sr_data ?r)) = (st, p)" by fastforce
  obtain cb ab hb where b: "answerBadRequest os (c\<lparr>c_parser := p\<rparr>) ?h = (cb, ab, hb)" by (metis prod_cases3)
  have pa: "proxyAnswer os pool (c\<lparr>c_parser := p\<rparr>) ?h = Some (c', act, pool', h') \<Longrightarrow> ?thesis"
    using proxyAnswer_quiet [OF assms(1)] q quiet_run_trans by fastforce
  from answerBadRequest_quiet [OF b] q have "c_sock cb = c_sock c" "quiet_run h hb" using quiet_run_trans by auto
  with False assms(2) p q b pa show ?thesis
    by (cases st) (auto simp: serveClient_def Let_def invoke_def split: if_splits)
qed

lemma lb_task_handled:
  assumes "os_fresh os" "rx_connections s f = Some c" "lb_task os f s h = Some (s', h')"
  shows "handled f s h s' h'"
proof -
  from assms(2,3) obtain c' act pool' where v: "serveClient os (lb_upstreamPool s) f c h = Some (c', act, pool', h')"
    and s': "s' = postRearm f act (s\<lparr>lb_upstreamPool := pool', rx_connections := (rx_connections s)(f \<mapsto> c')\<rparr>)"
    by (auto simp: lb_task_def handleClientEvent_def split: option.splits)
  with serveClient_quiet [OF assms(1) v] assms(2) show ?thesis by (auto simp: handled_def postRearm_def)
qed

interpretation kqueue_lb: reactor_system "kqueue_loop order os" kq_interest "\<lambda>k h f. True" kq_inv
  "os_kqueue order os" os "lb_task os" for order os
proof (intro reactor_system.intro reactor_system_axioms.intro)
  show "gated_event_loop (el_add (kqueue_loop order os)) (el_modify (kqueue_loop order os))
     (el_remove (kqueue_loop order os)) (el_wait (kqueue_loop order os)) kq_interest (\<lambda>k h f. True) kq_inv
     (os_kqueue order os)"
    using kqueue.gated_event_loop_axioms by (simp add: kqueue_loop_def)
qed (auto intro: lb_task_handled)

subsection \<open>The start of a run\<close>

text \<open>No registration was ever made before the event loop exists.\<close>

definition no_changes :: "history \<Rightarrow> bool" where
  "no_changes h \<longleftrightarrow> (\<forall>x \<in> set h. neutral (fst x) \<or> (\<exists>g. fst x = Sys_close g))"

lemma no_changes_filters: "no_changes h \<Longrightarrow> kq_filters q h = {}"
proof (induction h)
  case Nil
  then show ?case by simp
next
  case (Cons x h)
  obtain c r where x: "x = (c, r)" by (cases x)
  from Cons x consider "neutral c" | g where "c = Sys_close g" by (auto simp: no_changes_def)
  then show ?case using Cons x by cases (auto simp: no_changes_def kq_filters_neutral)
qed

lemma no_changes_Cons [simp]:
  "no_changes (x # h) \<longleftrightarrow> (neutral (fst x) \<or> (\<exists>g. fst x = Sys_close g)) \<and> no_changes h" "no_changes []"
  by (auto simp: no_changes_def)

lemma setNonBlocking_no_changes: "no_changes h \<Longrightarrow> no_changes (snd (setNonBlocking os f h))"
  by (simp add: setNonBlocking_def invoke_def Let_def)

lemma createListenSocket_no_changes: "no_changes h \<Longrightarrow> no_changes (snd (createListenSocket os port b h))"
proof -
  assume h: "no_changes h"
  let ?h2 = "(Sys_setsockopt (sr_ret (os h Sys_socket)) SO_REUSEADDR,
      os ((Sys_socket, os h Sys_socket) # h) (Sys_setsockopt (sr_ret (os h Sys_socket)) SO_REUSEADDR))
      # (Sys_socket, os h Sys_socket) # h"
  obtain ok h3 where nb: "setNonBlocking os (sr_ret (os h Sys_socket)) ?h2 = (ok, h3)" by fastforce
  have "no_changes h3" using setNonBlocking_no_changes [of ?h2 os "sr_ret (os h Sys_socket)"] nb h by simp
  with h nb show ?thesis by (simp add: createListenSocket_def invoke_def Let_def)
qed


text \<open>The descriptors an event loop of this backend holds.\<close>

definition kq_fds :: "KqueueReactor \<Rightarrow> fd set" where
  "kq_fds k = (if 0 \<le> kq k then {kq k} else {})"

lemma kq_modify_fds: "kq_modify os f m k h = (b, k', h') \<Longrightarrow> kq_fds k' = kq_fds k"
  by (auto simp: kq_modify_def kq_fds_def Let_def split: if_splits prod.splits)

lemma reactorStart_kqueue:
  assumes "os_kqueue order os" "os_fresh os"
    and "reactorStart os (kqueue_loop order os) KqueueReactor_new also port s [] = Inr (s', h')"
    and "rx_listenSock s = Socket_new" "rx_connections s = Map.empty" "rx_queue s = []" "rx_pendingRearms s = []"
    and "\<And>a b. also a = Some b \<Longrightarrow> rx_listenSock b = rx_listenSock a \<and> rx_eventLoop b = rx_eventLoop a
          \<and> rx_connections b = rx_connections a \<and> rx_queue b = rx_queue a \<and> rx_pendingRearms b = rx_pendingRearms a"
  shows "kq_inv (rx_eventLoop s') h' \<and> s_fd (rx_listenSock s') \<in> open_fds h' \<and> rx_connections s' = Map.empty
    \<and> rx_queue s' = [] \<and> rx_pendingRearms s' = []
    \<and> (\<forall>f. kq_interest (rx_eventLoop s') h' f \<noteq> 0 \<longrightarrow> f = s_fd (rx_listenSock s')) \<and> rx_running s'
    \<and> open_fds h' = insert (s_fd (rx_listenSock s')) (kq_fds (rx_eventLoop s')) \<and> 0 \<le> s_fd (rx_listenSock s')"
proof -
  obtain sock h1 where c: "createListenSocket os port 1024 [] = (sock, h1)" by fastforce
  have as: "Socket_assign os False (rx_listenSock s) sock h1 = ((\<lparr>s_fd = s_fd sock\<rparr>, sock\<lparr>s_fd := - 1\<rparr>), h1)"
    using assms(4) by (simp add: Socket_assign_def Socket_close_def Socket_new_def)
  let ?ls = "\<lparr>s_fd = s_fd sock\<rparr>"
  have v: "Socket_valid ?ls" using assms(3) c as by (auto simp: reactorStart_def Let_def split: if_splits)
  obtain l h3 where k: "KqueueReactor_new os h1 = (l, h3)" by fastforce
  let ?s2 = "s\<lparr>rx_listenSock := ?ls, rx_eventLoop := l\<rparr>"
  obtain b l4 h4 where ad: "kq_add os (s_fd sock) Readable l h3 = (b, l4, h4)" by (metis prod_cases3)
  have la: "loop_add (kqueue_loop order os) (s_fd sock) Readable ?s2 h3 = (?s2\<lparr>rx_eventLoop := l4\<rparr>, h4)"
    using ad by (simp add: loop_add_def kqueue_loop_def)
  from assms(3) c as v k la obtain s4 where s4: "also (?s2\<lparr>rx_eventLoop := l4\<rparr>) = Some s4"
    and s': "s' = s4\<lparr>rx_running := True\<rparr>" and h': "h' = h4"
    by (auto simp: reactorStart_def Let_def split: option.splits)
  have l: "l = \<lparr>kq = sr_ret (os h1 Sys_kqueue), interestByFd = Map.empty\<rparr>" "h3 = (Sys_kqueue, os h1 Sys_kqueue) # h1"
    using k by (auto simp: KqueueReactor_new_def invoke_def)
  have "no_changes h1" using createListenSocket_no_changes [of "[]" os port 1024] c by simp
  then have f3: "kq_filters q h3 = {}" for q using l(2) no_changes_filters by simp
  then have i3: "kq_inv l h3" using l(1) by (simp add: kq_inv_def prev_mask_def)
  have i4: "kq_inv l4 h4" by (rule kqueue.add_inv [OF assms(1) i3 ad])
  have fr: "kq_interest l4 h4 f = 0" if "f \<noteq> s_fd sock" for f
    using kqueue.add_frame [OF assms(1) i3 ad that] f3 by (simp add: kq_interest_def)
  have "open_fds h1 = {s_fd sock}" "0 \<le> s_fd sock"
    using createListenSocket_opens [OF assms(2), of port 1024 "[]"] c v by (simp_all add: opens_only_def Socket_valid_def)
  moreover have "kq_fds l4 = kq_fds l" using kq_modify_fds ad by (simp add: kq_add_def)
  ultimately have "open_fds h4 = insert (s_fd sock) (kq_fds l4)" "0 \<le> s_fd sock"
    using kqueue.add_open [OF ad] l by (auto simp: kq_fds_def)
  moreover note assms(8) [OF s4]
  ultimately show ?thesis using i4 fr assms(5-7) unfolding s' h' by auto
qed


lemma server_start:
  assumes "os_kqueue order os" "os_fresh os"
    and "HttpServer_run os (kqueue_loop order os) KqueueReactor_new (HttpServer_new l port router) [] = Inr (s0, h0)"
  shows "kqueue_server.sys_inv (s0, h0, [], []) \<and> rx_connections s0 = Map.empty \<and> rx_queue s0 = [] \<and> rx_running s0
    \<and> open_fds h0 = insert (s_fd (rx_listenSock s0)) (kq_fds (rx_eventLoop s0)) \<and> 0 \<le> s_fd (rx_listenSock s0)"
proof -
  have st: "kq_inv (rx_eventLoop s0) h0 \<and> s_fd (rx_listenSock s0) \<in> open_fds h0 \<and> rx_connections s0 = Map.empty
    \<and> rx_queue s0 = [] \<and> rx_pendingRearms s0 = []
    \<and> (\<forall>f. kq_interest (rx_eventLoop s0) h0 f \<noteq> 0 \<longrightarrow> f = s_fd (rx_listenSock s0)) \<and> rx_running s0
    \<and> open_fds h0 = insert (s_fd (rx_listenSock s0)) (kq_fds (rx_eventLoop s0)) \<and> 0 \<le> s_fd (rx_listenSock s0)"
    by (rule reactorStart_kqueue [OF assms(1,2) assms(3) [unfolded HttpServer_run_def]])
       (auto simp: HttpServer_new_def)
  then show ?thesis by (intro conjI kqueue_server.init_inv) auto
qed

lemma lb_start:
  assumes "os_kqueue order os" "os_fresh os"
    and "LoadBalancer_run os (kqueue_loop order os) KqueueReactor_new (LoadBalancer_new l port pool ms) [] = Inr (s0, h0)"
  shows "kqueue_lb.sys_inv (s0, h0, [], []) \<and> rx_connections s0 = Map.empty \<and> rx_queue s0 = [] \<and> rx_running s0
    \<and> open_fds h0 = insert (s_fd (rx_listenSock s0)) (kq_fds (rx_eventLoop s0)) \<and> 0 \<le> s_fd (rx_listenSock s0)"
proof -
  have st: "kq_inv (rx_eventLoop s0) h0 \<and> s_fd (rx_listenSock s0) \<in> open_fds h0 \<and> rx_connections s0 = Map.empty
    \<and> rx_queue s0 = [] \<and> rx_pendingRearms s0 = []
    \<and> (\<forall>f. kq_interest (rx_eventLoop s0) h0 f \<noteq> 0 \<longrightarrow> f = s_fd (rx_listenSock s0)) \<and> rx_running s0
    \<and> open_fds h0 = insert (s_fd (rx_listenSock s0)) (kq_fds (rx_eventLoop s0)) \<and> 0 \<le> s_fd (rx_listenSock s0)"
    by (rule reactorStart_kqueue [OF assms(1,2) assms(3) [unfolded LoadBalancer_run_def]])
       (auto simp: LoadBalancer_new_def start_checker_def HealthChecker_start_def split: if_splits)
  then show ?thesis by (intro conjI kqueue_lb.init_inv) auto
qed


subsection \<open>Properties\<close>

text \<open>C2: The server on kqueue dispatches safely. From a successful \<open>run()\<close>, under every
  interleaving of the reactor thread with any number of workers and a stop request, a descriptor
  is queued, held by a worker, or waiting to be re-armed at most once altogether; the connection a
  worker holds is not destroyed under it; a descriptor in flight is not watched and no pending
  event names it; and every connection is filed under its own open descriptor.\<close>

theorem server_dispatch_safe:
  assumes "os_kqueue order os" "os_fresh os"
    and "HttpServer_run os (kqueue_loop order os) KqueueReactor_new (HttpServer_new l port router) [] = Inr (s0, h0)"
    and "sys_reach os (kqueue_loop order os) (server_task os) (s0, h0, [], []) (s, h, evs, busy)"
  shows "in_flight s busy f \<le> 1
    \<and> (f \<in> set busy \<longrightarrow> rx_connections s f \<noteq> None)
    \<and> (0 < in_flight s busy f \<longrightarrow> kq_interest (rx_eventLoop s) h f = 0 \<and> f \<notin> ev_fd ` set evs)
    \<and> (\<forall>c. rx_connections s f = Some c \<longrightarrow> s_fd (c_sock c) = f \<and> f \<in> open_fds h)"
proof -
  have "kqueue_server.sys_inv (s0, h0, [], [])" using server_start [OF assms(1-3)] by blast
  from kqueue_server.reach_inv [OF assms(1,2) this assms(4)] show ?thesis by (rule kqueue_server.discipline)
qed

text \<open>A kernel with one client: the listening descriptor is 1, the client's 5, both readable.\<close>

fun is_accept :: "syscall \<times> sysres \<Rightarrow> bool" where
  "is_accept (Sys_accept f, r) = True"
| "is_accept _ = False"

definition one_client_os :: os where
  "one_client_os h c = (case c of
      Sys_socket \<Rightarrow> sys_result (fresh_fd h)
    | Sys_kqueue \<Rightarrow> sys_result (fresh_fd h)
    | Sys_epoll_create \<Rightarrow> sys_result (fresh_fd h)
    | Sys_accept f \<Rightarrow> (if list_ex is_accept h then sys_error EAGAIN else sys_result (fresh_fd h))
    | Sys_kevent_wait q n t \<Rightarrow>
        (let evs = [x \<leftarrow> [(1, EVFILT_READ, 0), (5, EVFILT_READ, 0)]. (fst x, fst (snd x)) \<in> kq_filters q h]
         in (sys_result (int (length evs)))\<lparr>sr_kevents := evs\<rparr>)
    | _ \<Rightarrow> sys_result 0)"

lemma one_client_os_sound: "os_kqueue id one_client_os" "os_fresh one_client_os"
  by (auto simp: os_kqueue_def one_client_os_def Let_def os_fresh_def fresh_fd_fresh)

definition idle_kqueue :: KqueueReactor where "idle_kqueue = \<lparr>kq = - 1, interestByFd = Map.empty\<rparr>"

text \<open>Two iterations of the loop, if they return.\<close>

definition iterate2 ::
    "os \<Rightarrow> 's EventLoop \<Rightarrow> ('s, 'm) Reactor_scheme \<times> history \<Rightarrow> (('s, 'm) Reactor_scheme \<times> history) option" where
  "iterate2 os el c = (case reactorIteration os el (fst c) (snd c) of
     None \<Rightarrow> None | Some (s, h) \<Rightarrow> if rx_running s then reactorIteration os el s h else None)"

lemma reach_iterate2:
  assumes "rx_running s" "iterate2 os el (s, h) = Some (s', h')"
  shows "sys_reach os el handle (s, h, [], []) (s', h', [], [])"
proof -
  from assms(2) obtain s1 h1 where r: "reactorIteration os el s h = Some (s1, h1)" "rx_running s1"
    "reactorIteration os el s1 h1 = Some (s', h')"
    by (auto simp: iterate2_def split: option.splits prod.splits if_splits)
  from reach_iteration [OF sys_reach.init assms(1) r(1)] r(2,3) show ?thesis by (rule reach_iteration)
qed

definition demo_server :: "KqueueReactor HttpServer" where
  "demo_server = HttpServer_new idle_kqueue 9001 Router_new"

text \<open>What two iterations of the started server leave in the queue of the pool.\<close>

definition server_queue :: "os \<Rightarrow> 's EventLoop \<Rightarrow> (os \<Rightarrow> history \<Rightarrow> 's \<times> history) \<Rightarrow> 's HttpServer \<Rightarrow> fd list option" where
  "server_queue os el create s =
     (case HttpServer_run os el create s [] of
        Inl _ \<Rightarrow> None
      | Inr c \<Rightarrow> if rx_running (fst c)
                 then (case iterate2 os el c of
                         None \<Rightarrow> None
                       | Some (s', h') \<Rightarrow> if rx_connections s' 5 \<noteq> None then Some (rx_queue s') else None)
                 else None)"

lemma server_queue_reach:
  assumes "server_queue os el create sv = Some [5]"
  obtains s0 h0 s h where "HttpServer_run os el create sv [] = Inr (s0, h0)"
    "sys_reach os el (server_task os) (s0, h0, [], []) (s\<lparr>rx_queue := []\<rparr>, h, [], [5])"
    "iterate2 os el (s0, h0) = Some (s, h)"
proof -
  from assms obtain s0 h0 s h where r: "HttpServer_run os el create sv [] = Inr (s0, h0)" "rx_running s0"
    "iterate2 os el (s0, h0) = Some (s, h)" "rx_connections s 5 \<noteq> None" "rx_queue s = [5]"
    by (auto simp: server_queue_def split: sum.splits option.splits if_splits)
  from sys_reach.step [OF reach_iterate2 [OF r(2,3)] sys_step_intros(3) [OF r(5,4)]] r that show thesis by blast
qed

theorem server_dispatch_safe_witness:
  "\<exists>s0 h0 s h. sys_reach one_client_os (kqueue_loop id one_client_os) (server_task one_client_os) (s0, h0, [], [])
       (s, h, [], [5]) \<and> in_flight s [5] 5 = 1 \<and> rx_connections s 5 \<noteq> None"
proof -
  have "server_queue one_client_os (kqueue_loop id one_client_os) KqueueReactor_new demo_server = Some [5]"
    by code_simp
  then obtain s0 h0 s h where r: "HttpServer_run one_client_os (kqueue_loop id one_client_os) KqueueReactor_new
        demo_server [] = Inr (s0, h0)"
    "sys_reach one_client_os (kqueue_loop id one_client_os) (server_task one_client_os) (s0, h0, [], [])
       (s\<lparr>rx_queue := []\<rparr>, h, [], [5])" by (rule server_queue_reach)
  let ?s = "s\<lparr>rx_queue := []\<rparr>"
  have safe: "in_flight ?s [5] 5 \<le> 1" "rx_connections ?s 5 \<noteq> None"
    using server_dispatch_safe [OF one_client_os_sound r(1) [unfolded demo_server_def] r(2), of 5]
    by (auto simp del: One_nat_def)
  have "0 < in_flight ?s [5] 5" by (simp add: in_flight_def)
  with safe(1) have "in_flight ?s [5] 5 = 1" by linarith
  with r(2) safe(2) show ?thesis by blast
qed

text \<open>The same for the load balancer, whose workers also open and close upstream sockets while
  the reactor runs: no duplicate dispatch and no connection destroyed under a worker.\<close>

theorem lb_dispatch_safe:
  assumes "os_kqueue order os" "os_fresh os"
    and "LoadBalancer_run os (kqueue_loop order os) KqueueReactor_new (LoadBalancer_new l port pool ms) [] = Inr (s0, h0)"
    and "sys_reach os (kqueue_loop order os) (lb_task os) (s0, h0, [], []) (s, h, evs, busy)"
  shows "in_flight s busy f \<le> 1
    \<and> (f \<in> set busy \<longrightarrow> rx_connections s f \<noteq> None)
    \<and> (0 < in_flight s busy f \<longrightarrow> kq_interest (rx_eventLoop s) h f = 0 \<and> f \<notin> ev_fd ` set evs)
    \<and> (\<forall>c. rx_connections s f = Some c \<longrightarrow> s_fd (c_sock c) = f \<and> f \<in> open_fds h)"
proof -
  have "kqueue_lb.sys_inv (s0, h0, [], [])" using lb_start [OF assms(1-3)] by blast
  from kqueue_lb.reach_inv [OF assms(1,2) this assms(4)] show ?thesis by (rule kqueue_lb.discipline)
qed


definition demo_lb :: "KqueueReactor LoadBalancer" where
  "demo_lb = LoadBalancer_new idle_kqueue 8080 one_upstream 2000"

definition lb_starts :: "os \<Rightarrow> bool" where
  "lb_starts os = (case LoadBalancer_run os (kqueue_loop id os) KqueueReactor_new demo_lb [] of
     Inl _ \<Rightarrow> False
   | Inr c \<Rightarrow> rx_running (fst c) \<and> (case iterate2 os (kqueue_loop id os) c of
                 None \<Rightarrow> False
               | Some (s', h') \<Rightarrow> rx_connections s' 5 \<noteq> None \<and> rx_queue s' = [5]))"

theorem lb_dispatch_safe_witness:
  "\<exists>s0 h0 s h. sys_reach one_client_os (kqueue_loop id one_client_os) (lb_task one_client_os) (s0, h0, [], [])
       (s, h, [], [5]) \<and> in_flight s [5] 5 = 1 \<and> rx_connections s 5 \<noteq> None"
proof -
  have "lb_starts one_client_os" by code_simp
  then obtain s0 h0 s h where r: "LoadBalancer_run one_client_os (kqueue_loop id one_client_os) KqueueReactor_new
        demo_lb [] = Inr (s0, h0)" "rx_running s0" "iterate2 one_client_os (kqueue_loop id one_client_os) (s0, h0) = Some (s, h)"
    "rx_connections s 5 \<noteq> None" "rx_queue s = [5]"
    by (auto simp: lb_starts_def split: sum.splits option.splits)
  have reach: "sys_reach one_client_os (kqueue_loop id one_client_os) (lb_task one_client_os) (s0, h0, [], [])
      (s\<lparr>rx_queue := []\<rparr>, h, [], [5])"
    using sys_reach.step [OF reach_iterate2 [OF r(2,3)] sys_step_intros(3) [OF r(5,4)]] .
  let ?s = "s\<lparr>rx_queue := []\<rparr>"
  have safe: "in_flight ?s [5] 5 \<le> 1" "rx_connections ?s 5 \<noteq> None"
    using lb_dispatch_safe [OF one_client_os_sound r(1) [unfolded demo_lb_def] reach, of 5]
    by (auto simp del: One_nat_def)
  have "0 < in_flight ?s [5] 5" by (simp add: in_flight_def)
  with safe(1) have "in_flight ?s [5] 5 = 1" by linarith
  with reach safe(2) show ?thesis by blast
qed

text \<open>A kernel that reports the client readable while it is watched and hung up while it is not.\<close>

definition reset_client_os :: os where
  "reset_client_os h c = (case c of
      Sys_socket \<Rightarrow> sys_result (fresh_fd h)
    | Sys_kqueue \<Rightarrow> sys_result (fresh_fd h)
    | Sys_epoll_create \<Rightarrow> sys_result (fresh_fd h)
    | Sys_accept f \<Rightarrow> (if list_ex is_accept h then sys_error EAGAIN else sys_result (fresh_fd h))
    | Sys_epoll_wait ep n t \<Rightarrow>
        (case epoll_reg ep h 5 of
           Some m \<Rightarrow> (sys_result 1)\<lparr>sr_epoll := [(5, if m = EPOLLIN then EPOLLIN else EPOLLHUP)]\<rparr>
         | None \<Rightarrow> (if epoll_reg ep h 1 = Some EPOLLIN then (sys_result 1)\<lparr>sr_epoll := [(1, EPOLLIN)]\<rparr> else sys_result 0))
    | _ \<Rightarrow> sys_result 0)"

lemma reset_client_os_sound: "os_epoll reset_client_os" "os_fresh reset_client_os"
proof -
  have a: "EPOLLHUP AND NOT (m OR EPOLLERR OR EPOLLHUP) = 0" "EPOLLIN AND NOT (EPOLLIN OR EPOLLERR OR EPOLLHUP) = 0" for m
    by (simp_all add: epoll_bits) (subst and.left_commute, simp)
  show "os_epoll reset_client_os"
    unfolding os_epoll_def Let_def using a by (auto simp: reset_client_os_def split: option.splits)
  show "os_fresh reset_client_os" by (simp add: os_fresh_def reset_client_os_def fresh_fd_fresh)
qed

definition epoll_server :: "EpollReactor HttpServer" where
  "epoll_server = HttpServer_new \<lparr>epollFd = - 1\<rparr> 9001 Router_new"

text \<open>The third iteration, with the task taken: whether it leaves the connection in the table.\<close>

definition third_iteration :: "(EpollReactor HttpServer \<times> history) option" where
  "third_iteration =
     (case HttpServer_run reset_client_os (epoll_loop reset_client_os) EpollReactor_new epoll_server [] of
        Inl _ \<Rightarrow> None
      | Inr c \<Rightarrow> (case iterate2 reset_client_os (epoll_loop reset_client_os) c of
                     None \<Rightarrow> None
                   | Some (s, h) \<Rightarrow> if rx_running s
                       then reactorIteration reset_client_os (epoll_loop reset_client_os) (s\<lparr>rx_queue := []\<rparr>) h
                       else None))"

text \<open>C35: On the epoll backend the discipline fails: there is a documented kernel and a reachable
  state of the server in which a worker holds a connection that the reactor has destroyed, with
  its descriptor closed. The error event that does it is delivered although the descriptor's mask
  was set to 0 before the hand-over; the comment in \<open>handleConnectionEvent\<close>, that the entry is
  only erased after the worker posted a \<open>Close\<close>, does not hold.\<close>

theorem epoll_destroys_held_connection:
  "\<exists>os s0 h0 s h. os_epoll os \<and> os_fresh os
     \<and> HttpServer_run os (epoll_loop os) EpollReactor_new (HttpServer_new \<lparr>epollFd = - 1\<rparr> 9001 Router_new) [] = Inr (s0, h0)
     \<and> sys_reach os (epoll_loop os) (server_task os) (s0, h0, [], []) (s, h, [], [5])
     \<and> rx_connections s 5 = None \<and> 5 \<notin> open_fds h"
proof -
  let ?os = reset_client_os and ?el = "epoll_loop reset_client_os"
  have "server_queue ?os ?el EpollReactor_new epoll_server = Some [5]" by code_simp
  then obtain s0 h0 s h where r: "HttpServer_run ?os ?el EpollReactor_new epoll_server [] = Inr (s0, h0)"
    "sys_reach ?os ?el (server_task ?os) (s0, h0, [], []) (s\<lparr>rx_queue := []\<rparr>, h, [], [5])"
    "iterate2 ?os ?el (s0, h0) = Some (s, h)" by (rule server_queue_reach)
  have "case third_iteration of None \<Rightarrow> False | Some (s, h) \<Rightarrow> rx_connections s 5 = None \<and> 5 \<notin> open_fds h"
    by code_simp
  then obtain s3 h3 where t: "third_iteration = Some (s3, h3)" "rx_connections s3 5 = None" "5 \<notin> open_fds h3"
    by (auto split: option.splits)
  with r(1,3) have "rx_running s" "reactorIteration ?os ?el (s\<lparr>rx_queue := []\<rparr>) h = Some (s3, h3)"
    by (auto simp: third_iteration_def split: if_splits)
  then have "sys_reach ?os ?el (server_task ?os) (s0, h0, [], []) (s3, h3, [], [5])"
    using reach_iteration [OF r(2)] by simp
  with r(1) t(2,3) reset_client_os_sound show ?thesis unfolding epoll_server_def by blast
qed

end
