(* ===== verification/Mains.thy ===== *)
theory Mains
  imports Http_Server Load_Balancer
begin

section \<open>The two main programs: flags, routes and objects\<close>

text \<open>
  The parts of \<open>src/server/main.cpp\<close> and \<open>src/loadbalancer/main.cpp\<close> that compute: the loops
  over \<open>argv\<close>, \<open>parsePort\<close>, \<open>parseUpstreams\<close>, the routes of the worker node, and the objects the
  programs construct. \<open>hw\<close> is the value of \<open>std::thread::hardware_concurrency()\<close>; an argument
  list is \<open>argv\<close> without the program name.
\<close>

subsection \<open>The server\<close>

definition parsePort :: "string \<Rightarrow> u16" where
  "parsePort s = word_of_int (atoi s)"

text \<open>\<open>static_cast<size_t>(std::atoi(s))\<close>: a negative value wraps.\<close>

definition parseThreads :: "string \<Rightarrow> size_t" where
  "parseThreads s = word_of_int (atoi s)"

definition default_threads :: "size_t \<Rightarrow> size_t" where
  "default_threads hw = (if hw = 0 then 4 else hw)"

record ServerOptions =
  so_port :: u16
  so_numThreads :: size_t

definition ServerOptions_new :: "size_t \<Rightarrow> ServerOptions" where
  "ServerOptions_new hw = \<lparr>so_port = 9001, so_numThreads = default_threads hw\<rparr>"

fun serverArgs :: "string list \<Rightarrow> ServerOptions \<Rightarrow> ServerOptions" where
  "serverArgs (a # v # argv) opts =
     (if a = ''--port'' then serverArgs argv (opts\<lparr>so_port := parsePort v\<rparr>)
      else if a = ''--threads'' then serverArgs argv (opts\<lparr>so_numThreads := parseThreads v\<rparr>)
      else serverArgs (v # argv) opts)"
| "serverArgs argv opts = opts"

definition healthHandler :: Handler where
  "healthHandler req = makeJsonResponse 200 ''OK'' ''{\"status\":\"ok\"}''"

definition rootHandler :: "u16 \<Rightarrow> Handler" where
  "rootHandler port req =
     (let json = ''{\"server\":\"'' @ to_string (uint port) @ ''\",\"message\":\"hello from worker node\"}''
      in makeJsonResponse 200 ''OK'' json)"

definition echoHandler :: "u16 \<Rightarrow> Handler" where
  "echoHandler port req =
     (let json = ''{\"server\":\"'' @ to_string (uint port) @ ''\",\"target\":\"'' @ rq_target req @ ''\"}''
      in makeJsonResponse 200 ''OK'' json)"

definition serverRoutes :: "u16 \<Rightarrow> Router" where
  "serverRoutes port =
     (let router = Router_new;
          router = router_get ''/health'' healthHandler router;
          router = router_get ''/'' (rootHandler port) router
      in router_get ''/api/echo'' (echoHandler port) router)"

text \<open>The server object of \<open>main\<close> and the number of threads its pool is asked for.\<close>

definition serverMain :: "size_t \<Rightarrow> string list \<Rightarrow> 's \<Rightarrow> 's HttpServer \<times> nat" where
  "serverMain hw argv l =
     (let opts = serverArgs argv (ServerOptions_new hw)
      in (HttpServer_new l (so_port opts) (serverRoutes (so_port opts)), unat (so_numThreads opts)))"

subsection \<open>The load balancer\<close>

text \<open>One entry of the list: skipped without a colon, otherwise split at the first one.\<close>

definition parseUpstream :: "string \<Rightarrow> (string \<times> u16) option" where
  "parseUpstream entry =
     (case str_find entry '':'' 0 of
        None \<Rightarrow> None
      | Some colon \<Rightarrow>
          (let host = substr entry 0 colon;
               port = word_of_int (atoi (c_str (substr_from entry (colon + 1))))
           in Some (host, port)))"

fun upstreamEntries :: "string list \<Rightarrow> (string \<times> u16) list \<Rightarrow> (string \<times> u16) list" where
  "upstreamEntries [] out = out"
| "upstreamEntries (entry # entries) out =
     (case parseUpstream entry of
        None \<Rightarrow> upstreamEntries entries out
      | Some target \<Rightarrow> upstreamEntries entries (out @ [target]))"

definition parseUpstreams :: "string \<Rightarrow> (string \<times> u16) list" where
  "parseUpstreams csv = upstreamEntries (getline_entries (CHR '','') csv) []"

record LbOptions =
  lo_port :: u16
  lo_numThreads :: size_t
  lo_healthIntervalMs :: int
  lo_upstreamsCsv :: string

definition LbOptions_new :: "size_t \<Rightarrow> LbOptions" where
  "LbOptions_new hw = \<lparr>lo_port = 8080, lo_numThreads = default_threads hw, lo_healthIntervalMs = 2000,
     lo_upstreamsCsv = ''127.0.0.1:9001,127.0.0.1:9002,127.0.0.1:9003''\<rparr>"

fun lbArgs :: "string list \<Rightarrow> LbOptions \<Rightarrow> LbOptions" where
  "lbArgs (a # v # argv) opts =
     (if a = ''--port'' then lbArgs argv (opts\<lparr>lo_port := parsePort v\<rparr>)
      else if a = ''--threads'' then lbArgs argv (opts\<lparr>lo_numThreads := parseThreads v\<rparr>)
      else if a = ''--health-interval-ms'' then lbArgs argv (opts\<lparr>lo_healthIntervalMs := atoi v\<rparr>)
      else if a = ''--upstreams'' then lbArgs argv (opts\<lparr>lo_upstreamsCsv := v\<rparr>)
      else lbArgs (v # argv) opts)"
| "lbArgs argv opts = opts"

definition lbMain :: "size_t \<Rightarrow> string list \<Rightarrow> 's \<Rightarrow> 's LoadBalancer \<times> nat" where
  "lbMain hw argv l =
     (let opts = lbArgs argv (LbOptions_new hw);
          pool = UpstreamPool_new (parseUpstreams (lo_upstreamsCsv opts))
      in (LoadBalancer_new l (lo_port opts) pool (lo_healthIntervalMs opts), unat (lo_numThreads opts)))"

subsection \<open>Numbers on the command line\<close>

lemma int32_word16: "(word_of_int (int32 z) :: u16) = word_of_int z"
proof -
  have "take_bit 16 (signed_take_bit 31 z) = take_bit 16 z"
    by (rule bit_eqI) (auto simp: bit_take_bit_iff bit_signed_take_bit_iff min_def)
  then show ?thesis unfolding int32_def by transfer simp
qed

lemma atoi_to_string: "- (2 ^ 31) \<le> z \<Longrightarrow> z < 2 ^ 31 \<Longrightarrow> atoi (to_string z) = z"
  using strtol_to_string [of z] int32_id [of z] by (simp add: atoi_def LONG_MIN_def LONG_MAX_def)

lemma parsePort_wraps:
  "LONG_MIN < z \<Longrightarrow> z \<le> LONG_MAX \<Longrightarrow> parsePort (to_string z) = word_of_int z"
  using strtol_to_string [of z] by (simp add: parsePort_def atoi_def int32_word16)

lemma parsePort_uint [simp]: "parsePort (to_string (uint (p :: u16))) = p"
proof -
  have "uint p < 2 ^ 16" "0 \<le> uint p" using uint_bounded [of p] by simp_all
  then have "LONG_MIN < uint p" "uint p \<le> LONG_MAX"
    by (simp_all add: LONG_MIN_def LONG_MAX_def order.strict_trans2 [of _ 0])
  then show ?thesis by (simp add: parsePort_wraps)
qed

subsection \<open>The list of upstreams\<close>

lemma upstreamEntries_map_filter:
  "upstreamEntries es out = out @ List.map_filter parseUpstream es"
  by (induction es arbitrary: out) (auto simp: map_filter_simps split: option.splits)

text \<open>How a list of targets is written on the command line.\<close>

definition targetText :: "string \<times> u16 \<Rightarrow> string" where
  "targetText t = fst t @ '':'' @ to_string (uint (snd t))"

fun csvText :: "(string \<times> u16) list \<Rightarrow> string" where
  "csvText [] = []"
| "csvText [t] = targetText t"
| "csvText (t # u # ts) = targetText t @ '','' @ csvText (u # ts)"

definition plain_host :: "string \<Rightarrow> bool" where
  "plain_host s \<longleftrightarrow> CHR '':'' \<notin> set s \<and> CHR '','' \<notin> set s"

lemma find_char: "c \<notin> set s \<Longrightarrow> find_sub [c] (s @ c # t) = Some (length s)"
  by (induction s) auto

lemma c_str_to_string [simp]: "c_str (to_string z) = to_string z"
  unfolding c_str_def by (rule takeWhile_eq_all_conv [THEN iffD2])
     (use to_string_no_special(2) in auto)

lemma parseUpstream_text:
  assumes "CHR '':'' \<notin> set (fst t)" shows "parseUpstream (targetText t) = Some t"
proof -
  have "str_find (targetText t) '':'' 0 = Some (length (fst t))"
    using find_char [OF assms, of "to_string (uint (snd t))"] by (simp add: targetText_def)
  moreover have "word_of_int (atoi (to_string (uint (snd t)))) = snd t"
    using parsePort_uint [of "snd t"] by (simp add: parsePort_def)
  ultimately show ?thesis
    by (simp add: parseUpstream_def targetText_def substr_def substr_from_def Let_def)
qed

lemma targetText_no_comma: "plain_host (fst t) \<Longrightarrow> CHR '','' \<notin> set (targetText t)"
  using to_string_chars [of "CHR '',''" "uint (snd t)"]
  by (auto simp: targetText_def plain_host_def isdigit_def)

lemma take_drop_while_free:
  assumes "d \<notin> set s"
  shows "takeWhile (\<lambda>c. c \<noteq> d) (s @ t) = s @ takeWhile (\<lambda>c. c \<noteq> d) t"
    "dropWhile (\<lambda>c. c \<noteq> d) (s @ t) = dropWhile (\<lambda>c. c \<noteq> d) t"
  using assms by (induction s) auto

lemma getline_split:
  "d \<notin> set s \<Longrightarrow> getline_entries d (s @ d # t) = s # getline_entries d t"
  by (subst getline_entries.simps) (simp add: take_drop_while_free)

lemma getline_last: "d \<notin> set s \<Longrightarrow> s \<noteq> [] \<Longrightarrow> getline_entries d s = [s]"
  using take_drop_while_free [of d s "[]"]
  by (subst getline_entries.simps) (auto simp: getline_entries.simps simp del: takeWhile_eq_all_conv dropWhile_eq_Nil_conv)

lemma getline_csvText:
  "list_all (plain_host \<circ> fst) ts \<Longrightarrow> getline_entries (CHR '','') (csvText ts) = map targetText ts"
proof (induction ts rule: csvText.induct)
  case 1
  then show ?case by (simp add: getline_entries.simps)
next
  case (2 t)
  then show ?case using getline_last [of "CHR '',''" "targetText t"] targetText_no_comma
    by (auto simp: targetText_def)
next
  case (3 t u ts)
  then show ?case using getline_split [of "CHR '',''" "targetText t" "csvText (u # ts)"] targetText_no_comma
    by auto
qed

lemma parseUpstreams_csvText:
  assumes "list_all (plain_host \<circ> fst) ts" shows "parseUpstreams (csvText ts) = ts"
proof -
  have "List.map_filter parseUpstream (map targetText ts) = ts"
    using assms by (induction ts) (auto simp: map_filter_simps parseUpstream_text plain_host_def)
  with getline_csvText [OF assms] show ?thesis
    by (simp add: parseUpstreams_def upstreamEntries_map_filter)
qed

subsection \<open>The answers of a worker node\<close>

lemma nat_to_string_length: "length (nat_to_string n) \<le> Suc n"
proof (induction n rule: nat_to_string.induct)
  case (1 n)
  then show ?case
    by (subst nat_to_string.simps) (cases "n < 10", auto intro: le_trans)
qed

lemma port_text_length: "length (to_string (uint (port :: u16))) \<le> 65536"
proof -
  have "unat port < 2 ^ 16" using unsigned_less [of port] by simp
  with nat_to_string_length [of "unat port"] show ?thesis by (simp add: to_string_def)
qed

lemma json_headers:
  "list_all wf_header [(''Content-Type'', ''application/json'')]"
  "findHeader [(''Content-Type'', ''application/json'')] ''Content-Length'' = None"
  by code_simp+

lemma wf_json:
  assumes "0 \<le> status" "status < 2 ^ 31" "find_sub CRLF reason = None" "length json < 2 ^ 63"
  shows "wf_response (makeJsonResponse status reason json)"
proof -
  have "int (length json) \<le> LONG_MAX" using assms(4) by (simp add: LONG_MAX_def)
  with assms json_headers show ?thesis
    by (simp add: wf_response_def makeJsonResponse_def HttpResponse_new_def)
qed

lemma node_dispatch:
  "dispatch (serverRoutes port) req =
     (if rq_method req \<notin> {''GET'', ''POST''}
      then makeJsonResponse 405 ''Method Not Allowed'' ''{\"error\":\"method not allowed\"}''
      else if rq_method req = ''GET'' \<and> rq_target req = ''/health''
      then makeJsonResponse 200 ''OK'' ''{\"status\":\"ok\"}''
      else if rq_method req = ''GET'' \<and> rq_target req = ''/''
      then makeJsonResponse 200 ''OK''
             (''{\"server\":\"'' @ to_string (uint port) @ ''\",\"message\":\"hello from worker node\"}'')
      else if rq_method req = ''GET'' \<and> rq_target req = ''/api/echo''
      then makeJsonResponse 200 ''OK''
             (''{\"server\":\"'' @ to_string (uint port) @ ''\",\"target\":\"/api/echo\"}'')
      else makeJsonResponse 404 ''Not Found'' ''{\"error\":\"not found\"}'')"
  by (auto simp: dispatch_def serverRoutes_def router_get_def Router_new_def healthHandler_def
      rootHandler_def echoHandler_def Let_def)

lemma node_dispatch_wf: "wf_response (dispatch (serverRoutes port) req)"
  unfolding node_dispatch using port_text_length [of port] by (auto intro!: wf_json simp: CRLF_def)

subsection \<open>Properties\<close>

text \<open>C31: What a worker node answers, for every request: the health object, the greeting with the
  node's port, and the echo route, for GET on exactly these three targets; 404 for every other
  target and every POST; 405 for every other method. Each answer is a response that the response
  parser reads back.\<close>

theorem node_routes:
  "dispatch (serverRoutes port) req =
     (if rq_method req \<notin> {''GET'', ''POST''}
      then makeJsonResponse 405 ''Method Not Allowed'' ''{\"error\":\"method not allowed\"}''
      else if rq_method req = ''GET'' \<and> rq_target req = ''/health''
      then makeJsonResponse 200 ''OK'' ''{\"status\":\"ok\"}''
      else if rq_method req = ''GET'' \<and> rq_target req = ''/''
      then makeJsonResponse 200 ''OK''
             (''{\"server\":\"'' @ to_string (uint port) @ ''\",\"message\":\"hello from worker node\"}'')
      else if rq_method req = ''GET'' \<and> rq_target req = ''/api/echo''
      then makeJsonResponse 200 ''OK''
             (''{\"server\":\"'' @ to_string (uint port) @ ''\",\"target\":\"/api/echo\"}'')
      else makeJsonResponse 404 ''Not Found'' ''{\"error\":\"not found\"}'')
   \<and> wf_response (dispatch (serverRoutes port) req)"
  using node_dispatch node_dispatch_wf by blast

text \<open>C32: The flags of the load balancer carry its configuration: with a port, a thread count, an
  interval and a list of upstreams (hosts without comma or colon) written in decimal after their
  flags, \<open>main\<close> constructs a balancer with exactly that port, that interval, those upstreams in
  that order, all healthy and the rotation at the first, and a pool of that many threads.\<close>

theorem lb_flags_roundtrip:
  assumes "list_all (plain_host \<circ> fst) ts" "n < 2 ^ 31" "- (2 ^ 31) \<le> ms" "ms < 2 ^ 31"
  shows "lbMain hw [''--port'', to_string (uint port), ''--threads'', to_string (int n),
      ''--health-interval-ms'', to_string ms, ''--upstreams'', csvText ts] l
    = (LoadBalancer_new l port (UpstreamPool_new ts) ms, n)"
proof -
  have "atoi (to_string (int n)) = int n" using assms(2) by (intro atoi_to_string) simp_all
  then have "unat (parseThreads (to_string (int n))) = n"
    using assms(2) by (simp add: parseThreads_def unat_of_nat take_bit_nat_eq_self)
  with atoi_to_string [OF assms(3,4)] parseUpstreams_csvText [OF assms(1)] show ?thesis
    by (simp add: lbMain_def Let_def)
qed

theorem lb_flags_roundtrip_witness:
  "fst (lbMain 8 [''--port'', to_string (uint (8081 :: u16)), ''--threads'', to_string (int 2),
      ''--health-interval-ms'', to_string 500, ''--upstreams'', csvText [(''10.0.0.1'', 80), (''10.0.0.2'', 81)]] ())
    = LoadBalancer_new () 8081 (UpstreamPool_new [(''10.0.0.1'', 80), (''10.0.0.2'', 81)]) 500"
proof -
  have "list_all (plain_host \<circ> fst) [(''10.0.0.1'', 80 :: u16), (''10.0.0.2'', 81)]" by (simp add: plain_host_def)
  from lb_flags_roundtrip [OF this, where n = 2 and ms = 500 and hw = 8 and port = 8081 and l = "()"]
  show ?thesis by simp
qed

text \<open>A port outside 0 to 65535 is not rejected: \<open>parsePort\<close> of any \<open>long\<close> written in decimal is
  that number modulo 65536, so the server listens on another port.\<close>

theorem port_flag_wraps:
  assumes "LONG_MIN < z" "z \<le> LONG_MAX"
  shows "uint (parsePort (to_string z)) = z mod 65536"
  using parsePort_wraps [OF assms] by (simp add: uint_word_of_int)

theorem port_flag_wraps_witness: "uint (parsePort (to_string 70000)) = 4464"
  using port_flag_wraps [of 70000] by (simp add: LONG_MIN_def LONG_MAX_def)

end
