(* ===== verification/Shutdown.thy ===== *)
theory Shutdown
  imports Concurrency Mains
begin

section \<open>Stopping the programs\<close>

text \<open>
  The rest of the two \<open>main\<close> functions: the signal handler sets a flag, a watcher thread polls
  it and calls \<open>stop()\<close>, and the main thread runs \<open>run()\<close>, then tells the watcher to leave and
  joins it. The main thread, the watcher, the workers and the arrival of signals interleave.
  That a stop ends the program is in \<open>Stop_Progress\<close>; here is the stop that is lost.
  The locale \<open>stoppable\<close> says what the proofs need of the class that is run; the server and the
  load balancer are its two interpretations.
\<close>

text \<open>Where the watcher is: in its loop, between the loop and the test after it, or returned.\<close>

datatype watcher = Polling | Leaving | Finished

text \<open>Where \<open>main\<close> is: before the loop of \<open>run()\<close>, in it, after \<open>run()\<close>, in \<open>join()\<close>, or past it.\<close>

datatype phase = BeforeLoop | InLoop | Returned | Joining | Exiting

record ('s, 'm) Main =
  mn_stopRequested :: bool
  mn_watcherShouldExit :: bool
  mn_watcher :: watcher
  mn_phase :: phase
  mn_config :: "('s, 'm) config"

definition Main_new :: "('s, 'm) Reactor_scheme \<Rightarrow> history \<Rightarrow> ('s, 'm) Main" where
  "Main_new s h = \<lparr>mn_stopRequested = False, mn_watcherShouldExit = False, mn_watcher = Polling,
     mn_phase = BeforeLoop, mn_config = (s, h, [], [])\<rparr>"

definition handleSignal :: "('s, 'm) Main \<Rightarrow> ('s, 'm) Main" where
  "handleSignal m = m\<lparr>mn_stopRequested := True\<rparr>"

text \<open>The two tests of the watcher: of the loop, and of the statement after it, which calls \<open>stop()\<close>.\<close>

definition watcherTest :: "('s, 'm) Main \<Rightarrow> ('s, 'm) Main" where
  "watcherTest m = (if \<not> mn_stopRequested m \<and> \<not> mn_watcherShouldExit m then m else m\<lparr>mn_watcher := Leaving\<rparr>)"

definition watcherStop ::
    "(('s, 'm) Reactor_scheme \<Rightarrow> ('s, 'm) Reactor_scheme) \<Rightarrow> ('s, 'm) Main \<Rightarrow> ('s, 'm) Main" where
  "watcherStop stop m =
     (let m1 = m\<lparr>mn_watcher := Finished\<rparr>
      in if mn_stopRequested m then (case mn_config m of (s, h, evs, busy) \<Rightarrow> m1\<lparr>mn_config := (stop s, h, evs, busy)\<rparr>)
         else m1)"

type_synonym ('s, 'm) run_fun =
  "('s, 'm) Reactor_scheme \<Rightarrow> history
     \<Rightarrow> (run_end \<times> ('s, 'm) Reactor_scheme \<times> history) + (('s, 'm) Reactor_scheme \<times> history)"

text \<open>\<open>run()\<close> up to its loop. A failed bind makes it return at once; a terminated program takes no step.\<close>

inductive main_step ::
    "os \<Rightarrow> 's EventLoop \<Rightarrow> ('s, 'm) run_fun \<Rightarrow> (('s, 'm) Reactor_scheme \<Rightarrow> ('s, 'm) Reactor_scheme)
     \<Rightarrow> ('s, 'm) handler \<Rightarrow> ('s, 'm) Main \<Rightarrow> ('s, 'm) Main \<Rightarrow> bool"
  for os el run stop handle where
  signal: "main_step os el run stop handle m (handleSignal m)"
| watch: "mn_watcher m = Polling \<Longrightarrow> main_step os el run stop handle m (watcherTest m)"
| watch_end: "mn_watcher m = Leaving \<Longrightarrow> main_step os el run stop handle m (watcherStop stop m)"
| start: "mn_phase m = BeforeLoop \<Longrightarrow> mn_config m = (s, h, [], []) \<Longrightarrow> run s h = Inr (s', h') \<Longrightarrow>
     main_step os el run stop handle m (m\<lparr>mn_phase := InLoop, mn_config := (s', h', [], [])\<rparr>)"
| no_start: "mn_phase m = BeforeLoop \<Longrightarrow> mn_config m = (s, h, [], []) \<Longrightarrow> run s h = Inl (BindFailed, s', h') \<Longrightarrow>
     main_step os el run stop handle m (m\<lparr>mn_phase := Returned, mn_config := (s', h', [], [])\<rparr>)"
| threads: "mn_phase m = InLoop \<Longrightarrow> thread_step os el handle (mn_config m) c \<Longrightarrow>
     main_step os el run stop handle m (m\<lparr>mn_config := c\<rparr>)"
| loop_end: "mn_phase m = InLoop \<Longrightarrow> mn_config m = (s, h, [], busy) \<Longrightarrow> \<not> rx_running s \<Longrightarrow>
     main_step os el run stop handle m (m\<lparr>mn_phase := Returned\<rparr>)"
| tell_watcher: "mn_phase m = Returned \<Longrightarrow>
     main_step os el run stop handle m (m\<lparr>mn_watcherShouldExit := True, mn_phase := Joining\<rparr>)"
| join: "mn_phase m = Joining \<Longrightarrow> mn_watcher m = Finished \<Longrightarrow>
     main_step os el run stop handle m (m\<lparr>mn_phase := Exiting\<rparr>)"

inductive_cases main_stepE: "main_step os el run stop handle m m'"

lemmas main_ops = handleSignal_def watcherTest_def watcherStop_def Let_def

subsection \<open>What the reactor thread never touches\<close>

text \<open>Everything the reactor thread calls leaves the listening socket, the flag and the fields of the
  class that extends the reactor alone, and only the dispatch of an event changes the queue.\<close>

definition rx_frame :: "('s, 'm) Reactor_scheme \<Rightarrow> Socket \<times> fd list \<times> bool \<times> 'm" where
  "rx_frame s = (rx_listenSock s, rx_queue s, rx_running s, Reactor.more s)"

lemma loop_ops_frame [simp]:
  "rx_frame (fst (loop_modify el f m s h)) = rx_frame s"
  "rx_frame (fst (loop_add el f m s h)) = rx_frame s"
  "rx_frame (fst (loop_remove el f s h)) = rx_frame s"
  "rx_frame (fst (erase_connection os f s h)) = rx_frame s"
  "rx_frame (fst (store_connection os f c s h)) = rx_frame s"
  "rx_frame (s\<lparr>rx_pendingRearms := rs\<rparr>) = rx_frame s" "rx_frame (s\<lparr>rx_eventLoop := l\<rparr>) = rx_frame s"
  by (simp_all add: rx_frame_def loop_modify_def loop_add_def loop_remove_def erase_connection_def store_connection_def
      split: prod.splits)

lemma postRearm_running [simp]: "rx_running (postRearm f a s) = rx_running s"
  by (simp add: postRearm_def)

lemma applyRearm_frame: "rx_frame (fst (applyRearm os el r (s, h))) = rx_frame s"
  by (cases r) (simp add: applyRearm_def Let_def case_prod_beta split: RearmAction.split)

lemma applyPendingRearms_frame:
  fixes s :: "('a, 'b) Reactor_scheme"
  shows "rx_frame (fst (applyPendingRearms os el s h)) = rx_frame s"
proof -
  have "rx_frame (fst (fold (applyRearm os el) rs (s', h'))) = rx_frame s'" for rs and s' :: "('a, 'b) Reactor_scheme" and h'
    by (induction rs arbitrary: s' h') (simp, metis applyRearm_frame fold_simps(2) prod.collapse)
  from this [of "rx_pendingRearms s" "s\<lparr>rx_pendingRearms := []\<rparr>" h] show ?thesis
    by (simp add: applyPendingRearms_def)
qed

lemma acceptOne_frame: "acceptOne os el s h = (again, s', h') \<Longrightarrow> rx_frame s' = rx_frame s"
proof -
  have "rx_frame (fst (snd (acceptOne os el s h))) = rx_frame s"
    by (simp add: acceptOne_def Let_def case_prod_beta)
  then show "acceptOne os el s h = (again, s', h') \<Longrightarrow> rx_frame s' = rx_frame s" by simp
qed

lemma handleAccept_frame:
  fixes s :: "('a, 'b) Reactor_scheme"
  assumes "handleAccept os el s h = Some y" shows "rx_frame (fst y) = rx_frame s"
proof (rule handleAccept.raw_induct [OF _ assms, of "\<lambda>os el s h y. rx_frame (fst y) = rx_frame s"])
  fix accept and os :: os and el :: "'a EventLoop" and s :: "('a, 'b) Reactor_scheme" and h y
  assume "\<And>os el s h y. accept os el s h = Some y \<Longrightarrow> rx_frame (fst y) = rx_frame s"
    and "(case acceptOne os el s h of (again, s1, h1) \<Rightarrow> if again then accept os el s1 h1 else Some (s1, h1)) = Some y"
  then show "rx_frame (fst y) = rx_frame s"
    by (auto split: prod.splits if_splits dest: acceptOne_frame)
qed

lemma handleEvent_frame:
  assumes "handleEvent os el ev s h = Some (s', h')"
  shows "\<exists>q. rx_frame s' = (rx_listenSock s, rx_queue s @ q, rx_running s, Reactor.more s)"
proof (cases "ev_fd ev = s_fd (rx_listenSock s)")
  case True
  with assms handleAccept_frame [of os el s h "(s', h')"] show ?thesis by (auto simp: handleEvent_def rx_frame_def)
next
  case False
  let ?s = "fst (loop_modify el (ev_fd ev) 0 s h)"
  have "rx_frame (enqueue_task (ev_fd ev) ?s) = (rx_listenSock s, rx_queue s @ [ev_fd ev], rx_running s, Reactor.more s)"
    using loop_ops_frame(1) [of el "ev_fd ev" 0 s h] by (simp add: rx_frame_def enqueue_task_def)
  moreover have "rx_frame s' = rx_frame s \<or> s' = enqueue_task (ev_fd ev) ?s"
  proof -
    have "rx_frame (fst (the (handleEvent os el ev s h))) = rx_frame s
      \<or> fst (the (handleEvent os el ev s h)) = enqueue_task (ev_fd ev) ?s"
      using False by (simp add: handleEvent_def Let_def case_prod_beta)
    with assms show ?thesis by simp
  qed
  ultimately show ?thesis by (metis append_Nil2 rx_frame_def)
qed

lemma reactorPoll_frame: "reactorPoll os el s h = (evs, s', h') \<Longrightarrow> rx_frame s' = rx_frame s"
  using applyPendingRearms_frame [of os el s h]
  by (auto simp: reactorPoll_def Let_def case_prod_beta split: if_splits)

lemma handleEvent_running: "handleEvent os el ev s h = Some (s', h') \<Longrightarrow> rx_running s' = rx_running s"
  by (auto simp: rx_frame_def dest: handleEvent_frame)

lemma reactorPoll_running: "reactorPoll os el s h = (evs, s', h') \<Longrightarrow> rx_running s' = rx_running s"
  by (auto simp: rx_frame_def dest: reactorPoll_frame)

subsection \<open>Programs that can be stopped\<close>

locale stoppable =
  fixes os :: os and el :: "'s EventLoop" and run :: "('s, 'm) run_fun"
    and stop :: "('s, 'm) Reactor_scheme \<Rightarrow> ('s, 'm) Reactor_scheme" and handle :: "('s, 'm) handler"
  assumes run_starts: "run s h = Inr (s', h') \<Longrightarrow> rx_running s'"
    and stop_clears: "\<not> rx_running (stop s)"
    and handle_running: "handle f s h = Some (s', h') \<Longrightarrow> rx_running s' = rx_running s"
begin

abbreviation step :: "('s, 'm) Main \<Rightarrow> ('s, 'm) Main \<Rightarrow> bool" where
  "step \<equiv> main_step os el run stop handle"

lemma thread_running:
  "thread_step os el handle c c' \<Longrightarrow> rx_running (fst c') = rx_running (fst c)"
  by (induction rule: thread_step.induct)
     (auto dest: reactorPoll_running handleEvent_running handle_running)

text \<open>Once the flag is cleared the batch can only shrink.\<close>

lemma thread_batch:
  "thread_step os el handle c c' \<Longrightarrow> \<not> rx_running (fst c) \<Longrightarrow>
     length (fst (snd (snd c'))) \<le> length (fst (snd (snd c)))"
  by (induction rule: thread_step.induct) auto

text \<open>A loop whose watcher is gone runs for ever.\<close>

definition deaf :: "('s, 'm) Main \<Rightarrow> bool" where
  "deaf m \<longleftrightarrow> mn_phase m = InLoop \<and> mn_watcher m = Finished \<and> rx_running (fst (mn_config m))"

lemma deaf_step: "step m m' \<Longrightarrow> deaf m \<Longrightarrow> deaf m'"
  by (induction rule: main_step.induct) (auto simp: deaf_def main_ops thread_running)

lemma deaf_forever:
  assumes "step\<^sup>*\<^sup>* m m'" "deaf m" shows "deaf m'"
  using assms by (induction rule: rtranclp_induct) (auto intro: deaf_step)

lemma lost_stop:
  assumes "run (stop s) h = Inr (s', h')"
  shows "\<exists>m. step\<^sup>*\<^sup>* (Main_new s h) m \<and> mn_stopRequested m
    \<and> (\<forall>m'. step\<^sup>*\<^sup>* m m' \<longrightarrow> mn_phase m' = InLoop \<and> rx_running (fst (mn_config m')))"
proof -
  let ?m0 = "Main_new s h :: ('s, 'm) Main"
  let ?m1 = "handleSignal ?m0" and ?m2 = "watcherTest (handleSignal ?m0)"
  let ?m3 = "watcherStop stop ?m2"
  let ?m4 = "?m3\<lparr>mn_phase := InLoop, mn_config := (s', h', [], [])\<rparr>"
  have "step ?m0 ?m1" by (rule main_step.signal)
  moreover have "step ?m1 ?m2" by (rule main_step.watch) (simp add: Main_new_def handleSignal_def)
  moreover have "step ?m2 ?m3" by (rule main_step.watch_end) (simp add: Main_new_def main_ops)
  moreover have "step ?m3 ?m4" by (rule main_step.start) (use assms in \<open>auto simp: Main_new_def main_ops\<close>)
  ultimately have r: "step\<^sup>*\<^sup>* ?m0 ?m4"
    by (intro converse_rtranclp_into_rtranclp [OF _ converse_rtranclp_into_rtranclp
        [OF _ converse_rtranclp_into_rtranclp [OF _ r_into_rtranclp]]])
  have "deaf ?m4" using run_starts [OF assms] by (simp add: deaf_def Main_new_def main_ops)
  then have "mn_phase m' = InLoop \<and> rx_running (fst (mn_config m'))" if "step\<^sup>*\<^sup>* ?m4 m'" for m'
    using deaf_forever [OF that] by (simp add: deaf_def)
  moreover have "mn_stopRequested ?m4" by (simp add: Main_new_def main_ops)
  ultimately show ?thesis using r by blast
qed

end

subsection \<open>Both programs can be stopped\<close>

lemma reactorStart_running:
  "reactorStart os el create also_start port s h = Inr (s', h') \<Longrightarrow> rx_running s'"
  by (auto simp: reactorStart_def Let_def split: prod.splits if_splits option.splits)

lemma server_task_running: "server_task os f s h = Some (s', h') \<Longrightarrow> rx_running s' = rx_running s"
  by (auto simp: server_task_def handleConnectionEvent_def Let_def split: option.splits prod.splits)

lemma lb_task_running: "lb_task os f s h = Some (s', h') \<Longrightarrow> rx_running s' = rx_running s"
  by (auto simp: lb_task_def handleClientEvent_def split: option.splits prod.splits)

interpretation server_main: stoppable os el "HttpServer_run os el create" HttpServer_stop "server_task os"
  for os el create
  by unfold_locales (auto simp: HttpServer_run_def HttpServer_stop_def reactor_stop_def
      dest: reactorStart_running server_task_running)

interpretation lb_main: stoppable os el "LoadBalancer_run os el create" LoadBalancer_stop "lb_task os"
  for os el create
  by unfold_locales (auto simp: LoadBalancer_run_def LoadBalancer_stop_def Let_def
      dest: reactorStart_running lb_task_running)

text \<open>The step relations of the two \<open>main\<close> functions.\<close>

definition server_main_step ::
    "os \<Rightarrow> 's EventLoop \<Rightarrow> (os \<Rightarrow> history \<Rightarrow> 's \<times> history)
     \<Rightarrow> ('s, _) Main \<Rightarrow> ('s, _) Main \<Rightarrow> bool" where
  "server_main_step os el create = main_step os el (HttpServer_run os el create) HttpServer_stop (server_task os)"

definition lb_main_step ::
    "os \<Rightarrow> 's EventLoop \<Rightarrow> (os \<Rightarrow> history \<Rightarrow> 's \<times> history)
     \<Rightarrow> ('s, _) Main \<Rightarrow> ('s, _) Main \<Rightarrow> bool" where
  "lb_main_step os el create = main_step os el (LoadBalancer_run os el create) LoadBalancer_stop (lb_task os)"

subsection \<open>Properties\<close>

text \<open>C39: A stop request that arrives before \<open>run()\<close> has set \<open>running_\<close> can be lost: there is a run in
  which the watcher calls \<open>stop()\<close> and returns before \<open>run()\<close> sets the flag, and from that state on the
  server is in its loop with the flag set, whatever its threads do and however many more signals
  arrive.\<close>

theorem stop_before_run_lost:
  assumes "HttpServer_run os el create (HttpServer_stop s) h = Inr (s', h')"
  shows "\<exists>m. (server_main_step os el create)\<^sup>*\<^sup>* (Main_new s h) m \<and> mn_stopRequested m
    \<and> (\<forall>m'. (server_main_step os el create)\<^sup>*\<^sup>* m m' \<longrightarrow> mn_phase m' = InLoop \<and> rx_running (fst (mn_config m')))"
  unfolding server_main_step_def using assms by (rule server_main.lost_stop)

theorem stop_before_run_lost_witness:
  "\<exists>m. (server_main_step one_client_os (kqueue_loop id one_client_os) KqueueReactor_new)\<^sup>*\<^sup>* (Main_new demo_server []) m
     \<and> mn_stopRequested m \<and> mn_phase m = InLoop \<and> rx_running (fst (mn_config m))"
proof -
  have "case HttpServer_run one_client_os (kqueue_loop id one_client_os) KqueueReactor_new (HttpServer_stop demo_server) []
      of Inl _ \<Rightarrow> False | Inr _ \<Rightarrow> True" by code_simp
  then obtain s h where "HttpServer_run one_client_os (kqueue_loop id one_client_os) KqueueReactor_new
      (HttpServer_stop demo_server) [] = Inr (s, h)" by (auto split: sum.splits)
  from stop_before_run_lost [OF this] show ?thesis by blast
qed

text \<open>The same for the load balancer.\<close>

lemma lb_stop_before_run_lost:
  assumes "LoadBalancer_run os el create (LoadBalancer_stop s) h = Inr (s', h')"
  shows "\<exists>m. (lb_main_step os el create)\<^sup>*\<^sup>* (Main_new s h) m \<and> mn_stopRequested m
    \<and> (\<forall>m'. (lb_main_step os el create)\<^sup>*\<^sup>* m m' \<longrightarrow> mn_phase m' = InLoop \<and> rx_running (fst (mn_config m')))"
  unfolding lb_main_step_def using assms by (rule lb_main.lost_stop)

end
