(* ===== verification/Thread_Pool.thy ===== *)
theory Thread_Pool
  imports Main
begin

section \<open>The thread pool\<close>

text \<open>
  \<open>net::ThreadPool\<close> as a state machine. A worker is in one of the places where it can be
  interrupted: about to take the lock, blocked in \<open>cv_.wait\<close>, running a task, or past the
  loop. What happens under the lock is one step; the notification after \<open>enqueue\<close> and after
  the stop flag is a step of its own, since other threads run in between. A blocked worker
  may also wake up spuriously. \<open>tp_started\<close> records the tasks in the order workers took them.

  \<open>enqueue\<close> is a call on a live object: it is not made once the destructor has begun.
\<close>

datatype 'a worker = Ready | Waiting | Running 'a | Exited

record 'a ThreadPool =
  tp_workers :: "'a worker list"
  tp_queue :: "'a list"
  tp_stop :: bool
  tp_notifies :: nat \<comment> \<open>calls of \<open>notify_one\<close> still to be made by \<open>enqueue\<close>\<close>
  tp_notify_all :: bool \<comment> \<open>the call of \<open>notify_all\<close> still to be made by the destructor\<close>
  tp_enqueued :: "'a list"
  tp_started :: "'a list"

definition ThreadPool_new :: "nat \<Rightarrow> 'a ThreadPool" where
  "ThreadPool_new numThreads =
     (let numThreads = (if numThreads = 0 then 1 else numThreads)
      in \<lparr>tp_workers = replicate numThreads Ready, tp_queue = [], tp_stop = False, tp_notifies = 0,
          tp_notify_all = False, tp_enqueued = [], tp_started = []\<rparr>)"

definition ThreadPool_size :: "'a ThreadPool \<Rightarrow> nat" where
  "ThreadPool_size p = length (tp_workers p)"

text \<open>\<open>enqueue\<close>: push under the lock, then notify one waiting worker, if there is one.\<close>

definition enqueue :: "'a \<Rightarrow> 'a ThreadPool \<Rightarrow> 'a ThreadPool" where
  "enqueue task p =
     p\<lparr>tp_queue := tp_queue p @ [task], tp_notifies := tp_notifies p + 1, tp_enqueued := tp_enqueued p @ [task]\<rparr>"

definition notify_one :: "nat option \<Rightarrow> 'a ThreadPool \<Rightarrow> 'a ThreadPool" where
  "notify_one w p =
     (let p = p\<lparr>tp_notifies := tp_notifies p - 1\<rparr>
      in case w of None \<Rightarrow> p | Some i \<Rightarrow> p\<lparr>tp_workers := (tp_workers p)[i := Ready]\<rparr>)"

text \<open>The critical section of \<open>workerLoop\<close>: wait while there is nothing to do, leave the loop, or
  take the first task.\<close>

definition worker_section :: "nat \<Rightarrow> 'a ThreadPool \<Rightarrow> 'a ThreadPool" where
  "worker_section i p =
     (if \<not> (tp_stop p \<or> tp_queue p \<noteq> []) then p\<lparr>tp_workers := (tp_workers p)[i := Waiting]\<rparr>
      else if tp_stop p \<and> tp_queue p = [] then p\<lparr>tp_workers := (tp_workers p)[i := Exited]\<rparr>
      else p\<lparr>tp_workers := (tp_workers p)[i := Running (hd (tp_queue p))], tp_queue := tl (tp_queue p),
             tp_started := tp_started p @ [hd (tp_queue p)]\<rparr>)"

definition worker_finish :: "nat \<Rightarrow> 'a ThreadPool \<Rightarrow> 'a ThreadPool" where
  "worker_finish i p = p\<lparr>tp_workers := (tp_workers p)[i := Ready]\<rparr>"

text \<open>The destructor before it joins: the flag under the lock, then \<open>notify_all\<close>.\<close>

definition set_stop :: "'a ThreadPool \<Rightarrow> 'a ThreadPool" where
  "set_stop p = p\<lparr>tp_stop := True, tp_notify_all := True\<rparr>"

definition notify_all :: "'a ThreadPool \<Rightarrow> 'a ThreadPool" where
  "notify_all p =
     p\<lparr>tp_workers := map (\<lambda>w. if w = Waiting then Ready else w) (tp_workers p), tp_notify_all := False\<rparr>"


subsection \<open>Steps\<close>

text \<open>Steps of the workers, which need nobody else, and all steps.\<close>

inductive worker_step :: "'a ThreadPool \<Rightarrow> 'a ThreadPool \<Rightarrow> bool" where
  critical: "i < length (tp_workers p) \<Longrightarrow> tp_workers p ! i = Ready \<Longrightarrow> worker_step p (worker_section i p)"
| finish: "i < length (tp_workers p) \<Longrightarrow> tp_workers p ! i = Running t \<Longrightarrow> worker_step p (worker_finish i p)"

inductive pool_step :: "'a ThreadPool \<Rightarrow> 'a ThreadPool \<Rightarrow> bool" where
  worker: "worker_step p q \<Longrightarrow> pool_step p q"
| push: "\<not> tp_stop p \<Longrightarrow> pool_step p (enqueue t p)"
| notify_nobody: "0 < tp_notifies p \<Longrightarrow> Waiting \<notin> set (tp_workers p) \<Longrightarrow> pool_step p (notify_one None p)"
| notify: "0 < tp_notifies p \<Longrightarrow> i < length (tp_workers p) \<Longrightarrow> tp_workers p ! i = Waiting \<Longrightarrow>
     pool_step p (notify_one (Some i) p)"
| spurious: "i < length (tp_workers p) \<Longrightarrow> tp_workers p ! i = Waiting \<Longrightarrow>
     pool_step p (p\<lparr>tp_workers := (tp_workers p)[i := Ready]\<rparr>)"
| stop: "\<not> tp_stop p \<Longrightarrow> pool_step p (set_stop p)"
| wake_all: "tp_notify_all p \<Longrightarrow> pool_step p (notify_all p)"

inductive pool_reach :: "nat \<Rightarrow> 'a ThreadPool \<Rightarrow> bool" for n where
  init: "pool_reach n (ThreadPool_new n)"
| step: "pool_reach n p \<Longrightarrow> pool_step p q \<Longrightarrow> pool_reach n q"

inductive_cases pool_stepE: "pool_step p q"
inductive_cases worker_stepE: "worker_step p q"

lemmas pool_ops =
  enqueue_def notify_one_def worker_section_def worker_finish_def set_stop_def notify_all_def Let_def

subsection \<open>The invariant\<close>

text \<open>A worker that will look at the queue again without being notified.\<close>

fun active :: "'a worker \<Rightarrow> bool" where
  "active Ready = True"
| "active (Running t) = True"
| "active _ = False"

text \<open>
  The tasks taken are the first ones enqueued; as long as there is work some worker is active
  or a notification is under way; workers leave the loop only at the end; and once everybody
  has been notified of the end nobody waits.
\<close>

definition pool_inv :: "nat \<Rightarrow> 'a ThreadPool \<Rightarrow> bool" where
  "pool_inv n p \<longleftrightarrow>
     length (tp_workers p) = max 1 n
     \<and> tp_enqueued p = tp_started p @ tp_queue p
     \<and> (tp_queue p \<noteq> [] \<longrightarrow> list_ex active (tp_workers p) \<or> 0 < tp_notifies p)
     \<and> (Exited \<in> set (tp_workers p) \<longrightarrow> tp_stop p \<and> tp_queue p = [])
     \<and> (tp_stop p \<and> \<not> tp_notify_all p \<longrightarrow> Waiting \<notin> set (tp_workers p))
     \<and> (tp_notify_all p \<longrightarrow> tp_stop p)"

lemma active_iff: "active w \<longleftrightarrow> w \<noteq> Waiting \<and> w \<noteq> Exited"
  by (cases w) auto

lemma list_ex_update: "i < length xs \<Longrightarrow> P x \<Longrightarrow> list_ex P (xs[i := x])"
  by (auto simp: list_ex_iff set_update_memI)

lemma set_updateD: "y \<in> set (xs[i := x]) \<Longrightarrow> y \<noteq> x \<Longrightarrow> y \<in> set xs"
  by (metis insertE set_update_subset_insert subsetD)

lemma no_waiting_active:
  "ws \<noteq> [] \<Longrightarrow> Waiting \<notin> set ws \<Longrightarrow> Exited \<notin> set ws \<Longrightarrow> list_ex active ws"
  by (cases ws) (auto simp: active_iff)

lemma worker_step_inv: "pool_inv n p \<Longrightarrow> worker_step p q \<Longrightarrow> pool_inv n q"
  by (erule worker_stepE)
     (auto simp: pool_inv_def pool_ops list_ex_update dest!: set_updateD)


lemma pool_step_inv:
  assumes "pool_inv n p" "pool_step p q" shows "pool_inv n q"
  using assms(2)
proof (cases rule: pool_step.cases)
  case worker
  with assms(1) worker_step_inv show ?thesis by blast
next
  case (push t)
  with assms(1) show ?thesis by (auto simp: pool_inv_def pool_ops)
next
  case notify_nobody
  have "tp_queue p \<noteq> [] \<longrightarrow> list_ex active (tp_workers p)"
  proof
    assume "tp_queue p \<noteq> []"
    with assms(1) have "Exited \<notin> set (tp_workers p)" by (auto simp: pool_inv_def)
    moreover have "tp_workers p \<noteq> []" using assms(1) by (auto simp: pool_inv_def)
    ultimately show "list_ex active (tp_workers p)" using notify_nobody no_waiting_active by blast
  qed
  with assms(1) notify_nobody show ?thesis by (auto simp: pool_inv_def pool_ops)
next
  case (notify i)
  with assms(1) show ?thesis
    by (auto simp: pool_inv_def pool_ops list_ex_update dest!: set_updateD)
next
  case (spurious i)
  with assms(1) show ?thesis
    by (auto simp: pool_inv_def list_ex_update dest!: set_updateD)
next
  case stop
  with assms(1) show ?thesis by (auto simp: pool_inv_def pool_ops)
next
  case wake_all
  with assms(1) show ?thesis by (auto simp: pool_inv_def pool_ops list_ex_iff active_iff)
qed

lemma pool_reach_inv: "pool_reach n p \<Longrightarrow> pool_inv n p"
proof (induction rule: pool_reach.induct)
  case init
  show ?case by (auto simp: pool_inv_def ThreadPool_new_def Let_def)
next
  case (step p q)
  then show ?case using pool_step_inv by blast
qed

subsection \<open>Shutdown\<close>

text \<open>What is left to do once the end has been announced; every step of a worker takes some off.\<close>

fun worker_work :: "'a worker \<Rightarrow> nat" where
  "worker_work (Running t) = 2"
| "worker_work Ready = 1"
| "worker_work _ = 0"

definition remaining_work :: "'a ThreadPool \<Rightarrow> nat" where
  "remaining_work p = 3 * length (tp_queue p) + sum_list (map worker_work (tp_workers p))"

lemma sum_list_update_work:
  "i < length ws \<Longrightarrow> sum_list (map worker_work (ws[i := w])) + worker_work (ws ! i)
     = sum_list (map worker_work ws) + worker_work w"
proof (induction ws arbitrary: i)
  case (Cons v ws)
  then show ?case by (cases i) auto
qed simp

lemma worker_step_work:
  assumes "tp_stop p" "worker_step p q"
  shows "remaining_work q < remaining_work p"
  using assms(2)
proof (cases rule: worker_step.cases)
  case (critical i)
  with assms(1) sum_list_update_work [of i "tp_workers p" Exited]
    sum_list_update_work [of i "tp_workers p" "Running (hd (tp_queue p))"] show ?thesis
    by (cases "tp_queue p") (auto simp: remaining_work_def worker_section_def)
next
  case (finish i t)
  with sum_list_update_work [of i "tp_workers p" Ready] show ?thesis
    by (auto simp: remaining_work_def worker_finish_def)
qed

lemma worker_step_keeps_stop: "worker_step p q \<Longrightarrow> tp_stop q = tp_stop p \<and> tp_notify_all q = tp_notify_all p"
  by (erule worker_stepE) (auto simp: pool_ops)

lemma shutdown_progress:
  assumes "pool_inv n p" "tp_stop p" "\<not> tp_notify_all p"
  shows "(\<exists>q. worker_step p q) \<or> (\<forall>w \<in> set (tp_workers p). w = Exited)"
proof (cases "\<forall>w \<in> set (tp_workers p). w = Exited")
  case False
  then obtain i where i: "i < length (tp_workers p)" "tp_workers p ! i \<noteq> Exited" by (metis in_set_conv_nth)
  with assms have "tp_workers p ! i \<noteq> Waiting" by (metis nth_mem pool_inv_def)
  with i consider "tp_workers p ! i = Ready" | t where "tp_workers p ! i = Running t"
    by (cases "tp_workers p ! i") auto
  then show ?thesis
  proof cases
    case 1
    from worker_step.critical [OF i(1) this] show ?thesis by blast
  next
    case 2
    from worker_step.finish [OF i(1) this] show ?thesis by blast
  qed
qed simp

lemma shutdown_ends:
  assumes "pool_inv n p" "tp_stop p" "\<not> tp_notify_all p"
  shows "\<exists>q. worker_step\<^sup>*\<^sup>* p q \<and> (\<forall>w \<in> set (tp_workers q). w = Exited) \<and> pool_inv n q"
  using assms
proof (induction "remaining_work p" arbitrary: p rule: less_induct)
  case less
  from shutdown_progress [OF less.prems] show ?case
  proof
    assume "\<exists>q. worker_step p q"
    then obtain q where q: "worker_step p q" by blast
    then have "tp_stop q" "\<not> tp_notify_all q" using worker_step_keeps_stop less.prems by auto
    with less.hyps [OF worker_step_work [OF less.prems(2) q] worker_step_inv [OF less.prems(1) q]]
    obtain r where "worker_step\<^sup>*\<^sup>* q r" "\<forall>w \<in> set (tp_workers r). w = Exited" "pool_inv n r" by blast
    with q show ?thesis by (blast intro: converse_rtranclp_into_rtranclp)
  next
    assume "\<forall>w \<in> set (tp_workers p). w = Exited"
    with less.prems show ?thesis by blast
  qed
qed

lemma exited_pool_drained:
  assumes "pool_inv n p" "\<forall>w \<in> set (tp_workers p). w = Exited"
  shows "tp_queue p = [] \<and> tp_started p = tp_enqueued p"
proof -
  from assms have "tp_workers p \<noteq> []" by (auto simp: pool_inv_def)
  with assms have "Exited \<in> set (tp_workers p)" by (cases "tp_workers p") auto
  with assms(1) show ?thesis by (auto simp: pool_inv_def)
qed

subsection \<open>Properties\<close>

text \<open>C16: Under every interleaving of callers, notifications, spurious wake-ups and workers, the
  pool takes tasks in the order they were enqueued, each exactly once; the number of threads is
  the one it was made with (at least one) whatever is enqueued; and there is no lost wake-up: while
  a task is queued some worker is running or about to look at the queue, or a notification is
  still to come.\<close>

theorem pool_exactly_once:
  assumes "pool_reach n p"
  shows "tp_enqueued p = tp_started p @ tp_queue p \<and> ThreadPool_size p = max 1 n
    \<and> (tp_queue p \<noteq> [] \<longrightarrow> list_ex active (tp_workers p) \<or> 0 < tp_notifies p)"
  using pool_reach_inv [OF assms] by (simp add: pool_inv_def ThreadPool_size_def)

theorem pool_exactly_once_witness:
  "let p = worker_section 0 (enqueue ''b'' (enqueue ''a'' (ThreadPool_new 0)))
   in tp_started p = [''a''] \<and> tp_queue p = [''b''] \<and> tp_enqueued p = tp_started p @ tp_queue p
      \<and> ThreadPool_size p = 1"
proof -
  let ?p0 = "ThreadPool_new 0 :: string ThreadPool"
  let ?p1 = "enqueue ''a'' ?p0" and ?p2 = "enqueue ''b'' (enqueue ''a'' ?p0)"
  have "pool_reach 0 ?p1" by (rule pool_reach.step [OF pool_reach.init pool_step.push]) (simp add: ThreadPool_new_def)
  then have "pool_reach 0 ?p2"
    by (rule pool_reach.step [OF _ pool_step.push]) (simp add: ThreadPool_new_def enqueue_def)
  moreover have "worker_step ?p2 (worker_section 0 ?p2)"
    by (rule worker_step.critical) (simp_all add: ThreadPool_new_def enqueue_def)
  ultimately have "pool_reach 0 (worker_section 0 ?p2)" using pool_reach.step pool_step.worker by blast
  from pool_exactly_once [OF this] show ?thesis
    by (simp add: Let_def) (simp add: worker_section_def enqueue_def ThreadPool_new_def)
qed

text \<open>C17: Destroying the pool ends it: once the destructor has set the flag and called
  \<open>notify_all\<close>, every step of a worker brings the end nearer, the workers are never stuck before
  it, and when all have left the loop every task ever enqueued has been taken.\<close>

theorem pool_shutdown:
  assumes "pool_reach n p" "tp_stop p" "\<not> tp_notify_all p"
  shows "(\<forall>q. worker_step p q \<longrightarrow> remaining_work q < remaining_work p)
    \<and> ((\<exists>q. worker_step p q) \<or> (\<forall>w \<in> set (tp_workers p). w = Exited))
    \<and> (\<exists>q. worker_step\<^sup>*\<^sup>* p q \<and> (\<forall>w \<in> set (tp_workers q). w = Exited)
          \<and> tp_queue q = [] \<and> tp_started q = tp_enqueued q)"
proof -
  note i = pool_reach_inv [OF assms(1)]
  from shutdown_ends [OF i assms(2,3)] exited_pool_drained
  have "\<exists>q. worker_step\<^sup>*\<^sup>* p q \<and> (\<forall>w \<in> set (tp_workers q). w = Exited)
      \<and> tp_queue q = [] \<and> tp_started q = tp_enqueued q" by metis
  with worker_step_work [OF assms(2)] shutdown_progress [OF i assms(2,3)] show ?thesis by blast
qed

theorem pool_shutdown_witness:
  "\<exists>q. worker_step\<^sup>*\<^sup>* (notify_all (set_stop (enqueue ''a'' (ThreadPool_new 2)))) q \<and> tp_started q = tp_enqueued q"
proof -
  let ?p0 = "ThreadPool_new 2 :: string ThreadPool"
  let ?p1 = "enqueue ''a'' ?p0" and ?p2 = "set_stop (enqueue ''a'' ?p0)"
  have "pool_reach 2 ?p1" by (rule pool_reach.step [OF pool_reach.init pool_step.push]) (simp add: ThreadPool_new_def)
  then have "pool_reach 2 ?p2"
    by (rule pool_reach.step [OF _ pool_step.stop]) (simp add: ThreadPool_new_def enqueue_def)
  then have "pool_reach 2 (notify_all ?p2)"
    by (rule pool_reach.step [OF _ pool_step.wake_all]) (simp add: set_stop_def)
  moreover have "tp_stop (notify_all ?p2)" "\<not> tp_notify_all (notify_all ?p2)"
    by (simp_all add: notify_all_def set_stop_def)
  ultimately show ?thesis using pool_shutdown by blast
qed

end
