(* ===== verification/Pooled_System.thy ===== *)
theory Pooled_System
  imports Shutdown Thread_Pool
begin

section \<open>The reactor over its real thread pool\<close>

text \<open>
  The reactor of \<open>Reactor_Safety\<close> takes tasks from a queue by magic. Here they go through the
  pool of \<open>Thread_Pool\<close>: a fixed number of workers, each ready, waiting on the condition
  variable or running a task; \<open>enqueue\<close> pushes and owes a notification; a worker first pops its
  task under the pool's lock and only later looks the descriptor up under \<open>connectionsMutex_\<close>,
  and anything may happen in between; wake-ups may be spurious; and other threads of the program
  (the watcher that stops it, the health checker) run at the same time.

  The result is a refinement: what the detailed system can do, the system of \<open>Reactor_Safety\<close>
  can do with the running tasks as the descriptors that are held. So its discipline holds for
  the detailed system, the second lookup never misses, and no more connections are served at
  once than there are workers.
\<close>

text \<open>The reactor's state, the history and the batch, the pool, the workers past their lookup, and
  the place where the other threads are.\<close>

record ('s, 'm, 'b) System =
  sy_rx :: "('s, 'm) Reactor_scheme"
  sy_hist :: history
  sy_batch :: "IoEvent list"
  sy_pool :: "fd ThreadPool"
  sy_holding :: "nat set"
  sy_others :: 'b

type_synonym ('s, 'm, 'b) others =
  "'b \<Rightarrow> ('s, 'm) Reactor_scheme \<Rightarrow> history \<Rightarrow> 'b \<Rightarrow> ('s, 'm) Reactor_scheme \<Rightarrow> history \<Rightarrow> bool"

definition System_new :: "nat \<Rightarrow> 'b \<Rightarrow> ('s, 'm) Reactor_scheme \<Rightarrow> history \<Rightarrow> ('s, 'm, 'b) System" where
  "System_new n b s h = \<lparr>sy_rx = s, sy_hist = h, sy_batch = [], sy_pool = ThreadPool_new n, sy_holding = {}, sy_others = b\<rparr>"

text \<open>The event of the batch with what it pushes into the pool; one critical section of a worker.\<close>

definition dispatch_event ::
    "os \<Rightarrow> 's EventLoop \<Rightarrow> IoEvent \<Rightarrow> ('s, 'm, 'b) System \<Rightarrow> ('s, 'm, 'b) System option" where
  "dispatch_event os el ev y =
     (case handleEvent os el ev (sy_rx y) (sy_hist y) of
        None \<Rightarrow> None
      | Some (s', h') \<Rightarrow>
          Some (y\<lparr>sy_rx := s', sy_hist := h',
                  sy_pool := fold enqueue (drop (length (rx_queue (sy_rx y))) (rx_queue s')) (sy_pool y)\<rparr>))"

definition take_section :: "nat \<Rightarrow> ('s, 'm, 'b) System \<Rightarrow> ('s, 'm, 'b) System" where
  "take_section i y =
     (let p = worker_section i (sy_pool y)
      in y\<lparr>sy_pool := p, sy_rx := (sy_rx y)\<lparr>rx_queue := tp_queue p\<rparr>\<rparr>)"

definition at_worker :: "('s, 'm, 'b) System \<Rightarrow> nat \<Rightarrow> fd worker \<Rightarrow> bool" where
  "at_worker y i w \<longleftrightarrow> i < length (tp_workers (sy_pool y)) \<and> tp_workers (sy_pool y) ! i = w"

inductive system_step ::
    "os \<Rightarrow> 's EventLoop \<Rightarrow> ('s, 'm) handler \<Rightarrow> ('s, 'm, 'b) others
     \<Rightarrow> ('s, 'm, 'b) System \<Rightarrow> ('s, 'm, 'b) System \<Rightarrow> bool"
  for os el handle others where
  poll: "sy_batch y = [] \<Longrightarrow> rx_running (sy_rx y) \<Longrightarrow> reactorPoll os el (sy_rx y) (sy_hist y) = (evs, s', h') \<Longrightarrow>
     system_step os el handle others y (y\<lparr>sy_rx := s', sy_hist := h', sy_batch := evs\<rparr>)"
| event: "sy_batch y = ev # evs \<Longrightarrow> dispatch_event os el ev y = Some y' \<Longrightarrow>
     system_step os el handle others y (y'\<lparr>sy_batch := evs\<rparr>)"
| critical: "at_worker y i Ready \<Longrightarrow> system_step os el handle others y (take_section i y)"
| lookup: "at_worker y i (Running f) \<Longrightarrow> i \<notin> sy_holding y \<Longrightarrow> rx_connections (sy_rx y) f \<noteq> None \<Longrightarrow>
     system_step os el handle others y (y\<lparr>sy_holding := insert i (sy_holding y)\<rparr>)"
| missing: "at_worker y i (Running f) \<Longrightarrow> i \<notin> sy_holding y \<Longrightarrow> rx_connections (sy_rx y) f = None \<Longrightarrow>
     system_step os el handle others y (y\<lparr>sy_pool := worker_finish i (sy_pool y)\<rparr>)"
| work: "at_worker y i (Running f) \<Longrightarrow> i \<in> sy_holding y \<Longrightarrow> handle f (sy_rx y) (sy_hist y) = Some (s', h') \<Longrightarrow>
     system_step os el handle others y (y\<lparr>sy_rx := s', sy_hist := h', sy_pool := worker_finish i (sy_pool y),
       sy_holding := sy_holding y - {i}\<rparr>)"
| notify_nobody: "0 < tp_notifies (sy_pool y) \<Longrightarrow> Waiting \<notin> set (tp_workers (sy_pool y)) \<Longrightarrow>
     system_step os el handle others y (y\<lparr>sy_pool := notify_one None (sy_pool y)\<rparr>)"
| notify: "0 < tp_notifies (sy_pool y) \<Longrightarrow> at_worker y i Waiting \<Longrightarrow>
     system_step os el handle others y (y\<lparr>sy_pool := notify_one (Some i) (sy_pool y)\<rparr>)"
| spurious: "at_worker y i Waiting \<Longrightarrow>
     system_step os el handle others y (y\<lparr>sy_pool := worker_finish i (sy_pool y)\<rparr>)"
| other: "others (sy_others y) (sy_rx y) (sy_hist y) b s' h' \<Longrightarrow>
     system_step os el handle others y (y\<lparr>sy_rx := s', sy_hist := h', sy_others := b\<rparr>)"

inductive_cases system_stepE: "system_step os el handle others y y'"

subsection \<open>The tasks that run\<close>

fun task_of :: "'a worker \<Rightarrow> 'a option" where
  "task_of (Running t) = Some t"
| "task_of _ = None"

definition tasks :: "'a worker list \<Rightarrow> 'a list" where
  "tasks ws = List.map_filter task_of ws"

lemma tasks_simps [simp]: "tasks [] = []" "tasks (w # ws) = (case task_of w of None \<Rightarrow> [] | Some t \<Rightarrow> [t]) @ tasks ws"
  by (simp_all add: tasks_def map_filter_simps split: option.split)

lemma mset_tasks_update:
  "i < length ws \<Longrightarrow> mset (tasks (ws[i := w])) + mset (case task_of (ws ! i) of None \<Rightarrow> [] | Some t \<Rightarrow> [t])
     = mset (tasks ws) + mset (case task_of w of None \<Rightarrow> [] | Some t \<Rightarrow> [t])"
proof (induction ws arbitrary: i)
  case (Cons v ws)
  then show ?case by (cases i) (auto simp: ac_simps)
qed simp

lemma tasks_length: "length (tasks ws) \<le> length ws"
  by (induction ws) (auto split: option.split)

lemma tasks_running: "i < length ws \<Longrightarrow> ws ! i = Running t \<Longrightarrow> t \<in> set (tasks ws)"
  by (induction ws arbitrary: i) (auto simp: nth_Cons split: nat.splits)

lemma tasks_twice:
  assumes "i < length ws" "ws ! i = Running t" "j < length ws" "ws ! j = Running t" "count (mset (tasks ws)) t \<le> 1"
  shows "i = j"
proof (rule ccontr)
  assume "i \<noteq> j"
  then have "t \<in> set (tasks (ws[i := Ready]))" using assms(3,4) by (intro tasks_running [of j]) auto
  then have "0 < count (mset (tasks (ws[i := Ready]))) t" by (simp add: count_greater_zero_iff)
  moreover have "add_mset t (mset (tasks (ws[i := Ready]))) = mset (tasks ws)"
    using mset_tasks_update [OF assms(1), of Ready] assms(2) by simp
  ultimately have "1 < count (mset (tasks ws)) t" by (metis One_nat_def Suc_less_eq count_add_mset)
  with assms(5) show False by simp
qed

text \<open>The state of the abstract system, with the descriptors workers hold in some order.\<close>

definition config_of :: "('s, 'm, 'b) System \<Rightarrow> fd list \<Rightarrow> ('s, 'm) config" where
  "config_of y busy = (sy_rx y, sy_hist y, sy_batch y, busy)"

definition running_tasks :: "('s, 'm, 'b) System \<Rightarrow> fd list" where
  "running_tasks y = tasks (tp_workers (sy_pool y))"

lemma fold_enqueue:
  "tp_queue (fold enqueue q p) = tp_queue p @ q" "tp_workers (fold enqueue q p) = tp_workers p"
  "tp_stop (fold enqueue q p) = tp_stop p" "tp_notify_all (fold enqueue q p) = tp_notify_all p"
  by (induction q arbitrary: p) (simp_all add: enqueue_def)

lemma pool_ops_stop [simp]:
  "tp_stop (enqueue t p) = tp_stop p" "tp_stop (notify_one w p) = tp_stop p"
  "tp_stop (worker_section i p) = tp_stop p" "tp_stop (worker_finish i p) = tp_stop p"
  "tp_notify_all (notify_one w p) = tp_notify_all p" "tp_notify_all (worker_section i p) = tp_notify_all p"
  "tp_notify_all (worker_finish i p) = tp_notify_all p"
  by (simp_all add: pool_ops split: option.split)

lemma fold_enqueue_steps: "\<not> tp_stop p \<Longrightarrow> pool_step\<^sup>*\<^sup>* p (fold enqueue q p)"
proof (induction q arbitrary: p)
  case (Cons t q)
  then have "pool_step\<^sup>*\<^sup>* (enqueue t p) (fold enqueue q (enqueue t p))" by simp
  with Cons.prems show ?case by (auto intro: converse_rtranclp_into_rtranclp pool_step.push)
qed simp

lemma pool_steps_reach: "pool_step\<^sup>*\<^sup>* p q \<Longrightarrow> pool_reach n p \<Longrightarrow> pool_reach n q"
  by (induction rule: rtranclp_induct) (auto intro: pool_reach.step)

text \<open>What another thread may do beside the reactor and the workers: its calls are quiet and it
  leaves what they share alone, the flag apart.\<close>

definition aside :: "('s, 'm) Reactor_scheme \<Rightarrow> history \<Rightarrow> ('s, 'm) Reactor_scheme \<Rightarrow> history \<Rightarrow> bool" where
  "aside s h s' h' \<longleftrightarrow> rx_listenSock s' = rx_listenSock s \<and> rx_eventLoop s' = rx_eventLoop s
     \<and> rx_queue s' = rx_queue s \<and> rx_connections s' = rx_connections s
     \<and> rx_pendingRearms s' = rx_pendingRearms s \<and> quiet_run h h'"

text \<open>How the workers and the pool change in a step, whatever the rest does.\<close>

lemma system_step_pool:
  assumes "system_step os el handle others y y'" "\<not> tp_stop (sy_pool y) \<or> sy_batch y = []"
  shows "pool_step\<^sup>*\<^sup>* (sy_pool y) (sy_pool y') \<and> tp_stop (sy_pool y') = tp_stop (sy_pool y)
    \<and> tp_notify_all (sy_pool y') = tp_notify_all (sy_pool y)"
  using assms
proof (cases rule: system_step.cases)
  case (event ev evs y1)
  with assms(2) show ?thesis
    by (auto simp: dispatch_event_def fold_enqueue fold_enqueue_steps split: option.splits)
next
  case (critical i)
  then show ?thesis
    by (auto simp: take_section_def at_worker_def Let_def intro!: pool_step.worker worker_step.critical)
next
  case (spurious i)
  with pool_step.spurious [of i "sy_pool y"] show ?thesis by (auto simp: at_worker_def worker_finish_def)
qed (auto simp: at_worker_def intro: pool_step.intros worker_step.intros)

text \<open>How the tasks that run change with a worker.\<close>

lemma tasks_set_worker:
  assumes "i < length ws" "task_of (ws ! i) = None" "task_of w = None"
  shows "mset (tasks (ws[i := w])) = mset (tasks ws)"
  using mset_tasks_update [OF assms(1), of w] assms(2,3) by simp

lemma tasks_start_worker:
  assumes "i < length ws" "task_of (ws ! i) = None"
  shows "mset (tasks (ws[i := Running t])) = add_mset t (mset (tasks ws))"
  using mset_tasks_update [OF assms(1), of "Running t"] assms(2) by simp

lemma tasks_end_worker:
  assumes "i < length ws" "ws ! i = Running t"
  shows "add_mset t (mset (tasks (ws[i := Ready]))) = mset (tasks ws)"
  using mset_tasks_update [OF assms(1), of Ready] assms(2) by simp

subsection \<open>The refinement\<close>

locale pooled_system = reactor_system el interest known inv sound os handle
  for el :: "'s EventLoop" and interest known inv sound os and handle :: "('s, 'm) handler" +
  fixes others :: "('s, 'm, 'b) others"
  assumes others_ok: "os_fresh os \<Longrightarrow> others b s h b' s' h' \<Longrightarrow> aside s h s' h'"
begin

lemma sys_inv_mset: "mset busy = mset busy' \<Longrightarrow> sys_inv (s, h, evs, busy) \<longleftrightarrow> sys_inv (s, h, evs, busy')"
  by (simp add: tables_def in_flight_def [abs_def])

definition system_ok :: "nat \<Rightarrow> ('s, 'm, 'b) System \<Rightarrow> bool" where
  "system_ok n y \<longleftrightarrow> sys_inv (config_of y (running_tasks y)) \<and> rx_queue (sy_rx y) = tp_queue (sy_pool y)
     \<and> pool_reach n (sy_pool y) \<and> \<not> tp_stop (sy_pool y)
     \<and> (\<forall>i \<in> sy_holding y. \<exists>f. at_worker y i (Running f))"

text \<open>A step of the detailed system is no step of the abstract one, a step of its threads, or a step
  of another thread.\<close>

definition matched :: "('s, 'm, 'b) System \<Rightarrow> ('s, 'm, 'b) System \<Rightarrow> fd list \<Rightarrow> fd list \<Rightarrow> bool" where
  "matched y y' busy busy' \<longleftrightarrow> mset busy' = mset (running_tasks y')
     \<and> (config_of y' busy' = config_of y busy \<or> thread_step os el handle (config_of y busy) (config_of y' busy')
        \<or> (busy' = busy \<and> sy_batch y' = sy_batch y \<and> others (sy_others y) (sy_rx y) (sy_hist y) (sy_others y') (sy_rx y') (sy_hist y')))"

lemma running_connected:
  assumes "system_ok n y" "at_worker y i (Running f)"
  obtains c where "rx_connections (sy_rx y) f = Some c" "s_fd (c_sock c) = f"
proof -
  have "f \<in> set (running_tasks y)" using assms(2) tasks_running by (auto simp: at_worker_def running_tasks_def)
  with assms(1) that show thesis using busy_connected by (metis config_of_def system_ok_def)
qed

lemma critical_matched:
  assumes "system_ok n y" "mset busy = mset (running_tasks y)" "at_worker y i Ready"
  shows "\<exists>busy'. matched y (take_section i y) busy busy'"
proof (cases "tp_queue (sy_pool y)")
  case Nil
  with assms have "matched y (take_section i y) busy busy"
    by (auto simp: matched_def take_section_def worker_section_def Let_def config_of_def running_tasks_def
        at_worker_def system_ok_def tasks_set_worker)
  then show ?thesis by blast
next
  case (Cons f q)
  with assms(1) have q: "rx_queue (sy_rx y) = f # q" by (simp add: system_ok_def)
  have "rx_connections (sy_rx y) f \<noteq> None"
    using assms(1) drop_never [OF _ q] by (auto simp: system_ok_def config_of_def)
  from thread_step.take_task [OF q this, of os el handle "sy_hist y" "sy_batch y" busy]
  have "matched y (take_section i y) busy (f # busy)"
    using Cons assms by (auto simp: matched_def take_section_def worker_section_def Let_def config_of_def
        running_tasks_def at_worker_def tasks_start_worker)
  then show ?thesis by blast
qed

lemma work_matched:
  assumes "system_ok n y" "mset busy = mset (running_tasks y)" "at_worker y i (Running f)"
    and "handle f (sy_rx y) (sy_hist y) = Some (s', h')"
  shows "\<exists>busy'. matched y (y\<lparr>sy_rx := s', sy_hist := h', sy_pool := worker_finish i (sy_pool y),
       sy_holding := sy_holding y - {i}\<rparr>) busy busy'"
proof -
  have w: "i < length (tp_workers (sy_pool y))" "tp_workers (sy_pool y) ! i = Running f"
    using assms(3) by (auto simp: at_worker_def)
  have "f \<in># mset busy" using tasks_running [OF w] assms(2) by (simp add: running_tasks_def)
  then have f: "f \<in> set busy" by simp
  have "mset (remove1 f busy) = mset (tasks ((tp_workers (sy_pool y))[i := Ready]))"
    using tasks_end_worker [OF w, symmetric] assms(2) by (simp add: running_tasks_def)
  with thread_step.finish_task [where handle = handle, OF f assms(4), of os el "sy_batch y"]
  show ?thesis by (intro exI [of _ "remove1 f busy"])
      (simp add: matched_def config_of_def running_tasks_def worker_finish_def)
qed

lemma step_matched:
  assumes "os_fresh os" "system_ok n y" "mset busy = mset (running_tasks y)" "system_step os el handle others y y'"
  shows "\<exists>busy'. matched y y' busy busy'"
  using assms(4)
proof (cases rule: system_step.cases)
  case (poll evs s' h')
  with thread_step.poll [OF poll(3,4), of handle busy] assms(3) show ?thesis
    by (intro exI [of _ busy]) (simp add: matched_def config_of_def running_tasks_def)
next
  case (event ev evs y1)
  then obtain s' h' where e: "handleEvent os el ev (sy_rx y) (sy_hist y) = Some (s', h')"
    and y1: "sy_rx y1 = s'" "sy_hist y1 = h'" "tp_workers (sy_pool y1) = tp_workers (sy_pool y)"
    by (auto simp: dispatch_event_def fold_enqueue split: option.splits)
  from thread_step.event [OF e, of handle evs busy] event y1 assms(3) show ?thesis
    by (intro exI [of _ busy]) (simp add: matched_def config_of_def running_tasks_def)
next
  case (critical i)
  with assms critical_matched show ?thesis by blast
next
  case (lookup i f)
  with assms(3) show ?thesis by (intro exI [of _ busy]) (simp add: matched_def config_of_def running_tasks_def)
next
  case (missing i f)
  with running_connected [OF assms(2)] show ?thesis by (metis option.distinct(1))
next
  case (work i f s' h')
  with assms work_matched show ?thesis by blast
next
  case notify_nobody
  with assms(3) show ?thesis
    by (intro exI [of _ busy]) (simp add: matched_def config_of_def running_tasks_def notify_one_def)
next
  case (notify i)
  with assms(3) show ?thesis
    by (intro exI [of _ busy])
       (simp add: matched_def config_of_def running_tasks_def notify_one_def at_worker_def tasks_set_worker)
next
  case (spurious i)
  with assms(3) show ?thesis
    by (intro exI [of _ busy])
       (simp add: matched_def config_of_def running_tasks_def worker_finish_def at_worker_def tasks_set_worker)
next
  case (other b s' h')
  with assms(3) show ?thesis by (intro exI [of _ busy]) (simp add: matched_def config_of_def running_tasks_def)
qed

text \<open>The invariant of the detailed system.\<close>

lemma aside_inv:
  assumes "sys_inv (s, h, evs, busy)" "aside s h s' h'" shows "sys_inv (s', h', evs, busy)"
proof -
  have "in_flight s' busy = in_flight s busy" using assms(2) by (intro in_flight_cong) (simp_all add: aside_def)
  with assms(2) tables_quiet [of s h busy evs h'] assms(1) show ?thesis
    by (auto simp: aside_def tables_def)
qed

lemma matched_inv:
  assumes "sound" "os_fresh os" "sys_inv (config_of y busy)" "matched y y' busy busy'"
  shows "sys_inv (config_of y' busy')"
proof -
  from assms(4) consider "config_of y' busy' = config_of y busy"
    | "thread_step os el handle (config_of y busy) (config_of y' busy')"
    | "busy' = busy" "sy_batch y' = sy_batch y" "aside (sy_rx y) (sy_hist y) (sy_rx y') (sy_hist y')"
    using others_ok [OF assms(2)] by (auto simp: matched_def)
  then show ?thesis
  proof cases
    case 2
    from thread_inv [OF assms(1-3) this] show ?thesis .
  next
    case 3
    have "sys_inv (sy_rx y, sy_hist y, sy_batch y, busy)" using assms(3) by (simp only: config_of_def)
    from aside_inv [OF this 3(3)] show ?thesis by (simp only: config_of_def 3(1,2))
  qed (use assms(3) in simp)
qed

lemma step_queue:
  assumes "os_fresh os" "system_ok n y" "system_step os el handle others y y'"
  shows "rx_queue (sy_rx y') = tp_queue (sy_pool y')"
  using assms(3)
proof (cases rule: system_step.cases)
  case (poll evs s' h')
  with assms(2) reactorPoll_frame [OF poll(4)] show ?thesis by (simp add: system_ok_def rx_frame_def)
next
  case (event ev evs y1)
  with assms(2) show ?thesis
    by (auto simp: system_ok_def dispatch_event_def fold_enqueue rx_frame_def dest!: handleEvent_frame split: option.splits)
next
  case (work i f s' h')
  obtain c where "rx_connections (sy_rx y) f = Some c" "s_fd (c_sock c) = f"
    using running_connected [OF assms(2) work(2)] .
  from handle_ok [OF assms(1) this work(4)] work assms(2) show ?thesis
    by (auto simp: handled_def system_ok_def worker_finish_def)
next
  case (other b s' h')
  with others_ok [OF assms(1) other(2)] assms(2) show ?thesis by (simp add: aside_def system_ok_def)
next
  case (critical i)
  then show ?thesis by (simp add: take_section_def Let_def)
qed (use assms(2) in \<open>simp_all add: system_ok_def worker_finish_def notify_one_def\<close>)

lemma step_holding:
  assumes "system_ok n y" "system_step os el handle others y y'" "i \<in> sy_holding y'"
  shows "\<exists>f. at_worker y' i (Running f)"
  using assms(2)
proof (cases rule: system_step.cases)
  case (event ev evs y1)
  with assms(1,3) show ?thesis
    by (auto simp: system_ok_def at_worker_def dispatch_event_def fold_enqueue split: option.splits)
next
  case (critical j)
  with assms(1,3) show ?thesis
    by (cases "j = i") (auto simp: system_ok_def at_worker_def take_section_def worker_section_def Let_def)
next
  case (lookup j f)
  with assms(1,3) show ?thesis by (auto simp: system_ok_def at_worker_def)
next
  case (missing j f)
  with assms(1,3) show ?thesis by (cases "j = i") (auto simp: system_ok_def at_worker_def worker_finish_def)
next
  case (work j f s' h')
  with assms(1,3) show ?thesis by (cases "j = i") (auto simp: system_ok_def at_worker_def worker_finish_def)
next
  case (notify j)
  with assms(1,3) show ?thesis
    by (cases "j = i") (auto simp: system_ok_def at_worker_def notify_one_def Let_def)
next
  case (spurious j)
  with assms(1,3) show ?thesis by (cases "j = i") (auto simp: system_ok_def at_worker_def worker_finish_def)
qed (use assms(1,3) in \<open>auto simp: system_ok_def at_worker_def notify_one_def Let_def\<close>)

lemma step_ok:
  assumes "sound" "os_fresh os" "system_ok n y" "system_step os el handle others y y'"
  shows "system_ok n y'"
proof -
  obtain busy' where m: "matched y y' (running_tasks y) busy'" using step_matched [OF assms(2,3) refl assms(4)] by blast
  have "sys_inv (config_of y' busy')"
    by (rule matched_inv [OF assms(1,2) _ m]) (use assms(3) in \<open>simp add: system_ok_def\<close>)
  then have "sys_inv (config_of y' (running_tasks y'))"
    using m sys_inv_mset unfolding matched_def config_of_def by blast
  moreover have "pool_reach n (sy_pool y')" "\<not> tp_stop (sy_pool y')"
    using system_step_pool [OF assms(4)] assms(3) pool_steps_reach unfolding system_ok_def by blast+
  ultimately show ?thesis using step_queue [OF assms(2-4)] step_holding [OF assms(3,4)]
    unfolding system_ok_def by blast
qed

abbreviation system_runs :: "('s, 'm, 'b) System \<Rightarrow> ('s, 'm, 'b) System \<Rightarrow> bool" where
  "system_runs \<equiv> (system_step os el handle others)\<^sup>*\<^sup>*"

lemma runs_ok:
  assumes "system_runs y y'" "sound" "os_fresh os" "system_ok n y" shows "system_ok n y'"
  using assms by (induction rule: rtranclp_induct) (auto intro: step_ok)

lemma new_ok:
  assumes "sys_inv (s, h, [], [])" "rx_queue s = []" shows "system_ok n (System_new n b s h)"
proof -
  have "running_tasks (System_new n b s h) = []"
    by (simp add: running_tasks_def System_new_def ThreadPool_new_def Let_def tasks_def map_filter_def)
  with assms show ?thesis
    by (simp add: system_ok_def config_of_def System_new_def pool_reach.init) (simp add: ThreadPool_new_def Let_def)
qed

text \<open>What the discipline means for the workers of the pool.\<close>

lemma worker_discipline:
  assumes "system_ok n y"
  shows "(at_worker y i (Running f) \<longrightarrow> rx_connections (sy_rx y) f \<noteq> None \<and> interest (rx_eventLoop (sy_rx y)) (sy_hist y) f = 0)
    \<and> (at_worker y i (Running f) \<and> at_worker y j (Running f) \<longrightarrow> i = j)
    \<and> length (running_tasks y) \<le> max 1 n"
proof -
  let ?ws = "tp_workers (sy_pool y)"
  have one: "count (mset (tasks ?ws)) f \<le> 1"
    using discipline [of "sy_rx y" "sy_hist y" "sy_batch y" "running_tasks y" f] assms
    by (simp add: system_ok_def config_of_def in_flight_def running_tasks_def)
  have "i = j" if "at_worker y i (Running f)" "at_worker y j (Running f)"
    using that one tasks_twice by (auto simp: at_worker_def)
  moreover have "interest (rx_eventLoop (sy_rx y)) (sy_hist y) f = 0" if "at_worker y i (Running f)"
    using discipline [of "sy_rx y" "sy_hist y" "sy_batch y" "running_tasks y" f] assms that tasks_running [of i ?ws f]
    by (auto simp: system_ok_def config_of_def at_worker_def running_tasks_def in_flight_pos)
  moreover have "length (running_tasks y) \<le> max 1 n"
    using assms pool_reach_inv [of n "sy_pool y"] tasks_length [of ?ws]
    by (simp add: system_ok_def running_tasks_def pool_inv_def)
  ultimately show ?thesis using running_connected [OF assms] by (metis option.distinct(1))
qed

text \<open>When the other threads only do what the abstract system allows, the detailed system refines it.\<close>

lemma runs_refine:
  assumes "system_runs y0 y" "sound" "os_fresh os" "system_ok n y0"
    and "config_of y0 busy0 = c0" "mset busy0 = mset (running_tasks y0)"
    and "\<And>b s h b' s' h' evs busy. others b s h b' s' h' \<Longrightarrow> sys_step os el handle (s, h, evs, busy) (s', h', evs, busy)"
  shows "\<exists>busy. mset busy = mset (running_tasks y) \<and> sys_reach os el handle c0 (config_of y busy)"
  using assms(1)
proof (induction rule: rtranclp_induct)
  case base
  with assms(5,6) sys_reach.init show ?case by blast
next
  case (step y y')
  then obtain busy where b: "mset busy = mset (running_tasks y)" "sys_reach os el handle c0 (config_of y busy)" by blast
  from step_matched [OF assms(3) runs_ok [OF step(1) assms(2-4)] b(1) step(2)]
  obtain busy' where m: "matched y y' busy busy'" by blast
  have "config_of y' busy' = config_of y busy \<or> sys_step os el handle (config_of y busy) (config_of y' busy')"
    using m assms(7) by (auto simp: matched_def config_of_def intro: sys_step.thread)
  with b(2) m show ?case unfolding matched_def by (metis sys_reach.step)
qed

end

subsection \<open>The server\<close>

inductive server_others :: "unit \<Rightarrow> 's HttpServer \<Rightarrow> history \<Rightarrow> unit \<Rightarrow> 's HttpServer \<Rightarrow> history \<Rightarrow> bool" where
  stop: "server_others () s h () (HttpServer_stop s) h"

interpretation pooled_server: pooled_system "kqueue_loop order os" kq_interest "\<lambda>k h f. True" kq_inv
  "os_kqueue order os" os "server_task os" server_others for order os
proof (intro pooled_system.intro pooled_system_axioms.intro)
  show "reactor_system (kqueue_loop order os) kq_interest (\<lambda>k h f. True) kq_inv (os_kqueue order os) os (server_task os)"
    by (rule kqueue_server.reactor_system_axioms)
qed (auto elim!: server_others.cases simp: aside_def HttpServer_stop_def reactor_stop_def)

text \<open>One whole iteration of the reactor thread, with no other thread in between.\<close>

fun dispatch_events ::
    "os \<Rightarrow> 's EventLoop \<Rightarrow> IoEvent list \<Rightarrow> ('s, 'm, 'b) System \<Rightarrow> ('s, 'm, 'b) System option" where
  "dispatch_events os el [] y = Some (y\<lparr>sy_batch := []\<rparr>)"
| "dispatch_events os el (ev # evs) y =
     (case dispatch_event os el ev y of None \<Rightarrow> None | Some y1 \<Rightarrow> dispatch_events os el evs (y1\<lparr>sy_batch := evs\<rparr>))"

definition system_iteration :: "os \<Rightarrow> 's EventLoop \<Rightarrow> ('s, 'm, 'b) System \<Rightarrow> ('s, 'm, 'b) System option" where
  "system_iteration os el y =
     (if \<not> rx_running (sy_rx y) \<or> sy_batch y \<noteq> [] then None
      else (let (evs, s, h) = reactorPoll os el (sy_rx y) (sy_hist y)
            in dispatch_events os el evs (y\<lparr>sy_rx := s, sy_hist := h, sy_batch := evs\<rparr>)))"

lemma dispatch_events_steps:
  "dispatch_events os el evs y = Some y' \<Longrightarrow> sy_batch y = evs \<Longrightarrow> (system_step os el handle others)\<^sup>*\<^sup>* y y'"
proof (induction evs arbitrary: y)
  case Nil
  then have "y' = y" by (cases y) auto
  then show ?case by simp
next
  case (Cons ev evs)
  then obtain y1 where d: "dispatch_event os el ev y = Some y1" "dispatch_events os el evs (y1\<lparr>sy_batch := evs\<rparr>) = Some y'"
    by (auto split: option.splits)
  with Cons show ?case
    by (auto intro: converse_rtranclp_into_rtranclp system_step.event)
qed

lemma system_iteration_steps:
  assumes "system_iteration os el y = Some y'" shows "(system_step os el handle others)\<^sup>*\<^sup>* y y'"
proof -
  obtain evs s h where p: "reactorPoll os el (sy_rx y) (sy_hist y) = (evs, s, h)" by (metis prod_cases3)
  with assms have r: "rx_running (sy_rx y)" "sy_batch y = []"
    and d: "dispatch_events os el evs (y\<lparr>sy_rx := s, sy_hist := h, sy_batch := evs\<rparr>) = Some y'"
    by (auto simp: system_iteration_def split: if_splits)
  show ?thesis
    by (rule converse_rtranclp_into_rtranclp [OF system_step.poll [OF r(2,1) p] dispatch_events_steps [OF d]]) simp
qed

text \<open>A run for the examples: two iterations, then the first worker takes a task and looks it up.\<close>

definition first_task :: "os \<Rightarrow> 's EventLoop \<Rightarrow> ('s, 'm, 'b) System \<Rightarrow> ('s, 'm, 'b) System option" where
  "first_task os el y =
     (case system_iteration os el y of
        None \<Rightarrow> None
      | Some y1 \<Rightarrow>
          (case system_iteration os el y1 of
             None \<Rightarrow> None
           | Some y2 \<Rightarrow>
               (if tp_workers (sy_pool y2) = [Ready] \<and> tp_queue (sy_pool y2) = [5] \<and> rx_connections (sy_rx y2) 5 \<noteq> None
                   \<and> sy_holding y2 = {}
                then (let y3 = take_section 0 y2 in Some (y3\<lparr>sy_holding := {0}\<rparr>)) else None)))"

lemma dispatch_events_batch: "dispatch_events os el evs y = Some y' \<Longrightarrow> sy_batch y' = []"
  by (induction evs arbitrary: y) (auto split: option.splits)

lemma first_task_batch: "first_task os el y = Some y' \<Longrightarrow> sy_batch y' = []"
  by (auto simp: first_task_def system_iteration_def Let_def take_section_def split: option.splits if_splits prod.splits
      dest: dispatch_events_batch)

lemma first_task_steps:
  assumes "first_task os el y = Some y'"
  shows "(system_step os el handle others)\<^sup>*\<^sup>* y y' \<and> tp_workers (sy_pool y') = [Running 5] \<and> sy_holding y' = {0}"
proof -
  from assms obtain y1 y2 where i: "system_iteration os el y = Some y1" "system_iteration os el y1 = Some y2"
    and q: "tp_workers (sy_pool y2) = [Ready]" "tp_queue (sy_pool y2) = [5]" "rx_connections (sy_rx y2) 5 \<noteq> None"
      "sy_holding y2 = {}" and y': "y' = (take_section 0 y2)\<lparr>sy_holding := {0}\<rparr>"
    by (auto simp: first_task_def Let_def split: option.splits if_splits)
  have a: "at_worker y2 0 Ready" using q by (simp add: at_worker_def)
  have b: "at_worker (take_section 0 y2) 0 (Running 5)" "sy_holding (take_section 0 y2) = {}"
    "rx_connections (sy_rx (take_section 0 y2)) 5 \<noteq> None"
    using q by (simp_all add: at_worker_def take_section_def worker_section_def Let_def)
  have l: "system_step os el handle others (take_section 0 y2) y'"
    using system_step.lookup [OF b(1) _ b(3)] b(2) by (simp add: y')
  have "(system_step os el handle others)\<^sup>*\<^sup>* y y'"
    using system_iteration_steps [OF i(1)] system_iteration_steps [OF i(2)] system_step.critical [OF a] l
    by (meson rtranclp.rtrancl_into_rtrancl rtranclp_trans)
  with q y' show ?thesis by (simp add: take_section_def worker_section_def Let_def)
qed

subsection \<open>Properties\<close>


definition system_demo :: "KqueueReactor HttpServer \<Rightarrow> bool" where
  "system_demo sv =
     (case HttpServer_run one_client_os (kqueue_loop id one_client_os) KqueueReactor_new sv [] of
        Inl _ \<Rightarrow> False
      | Inr (s, h) \<Rightarrow>
          first_task one_client_os (kqueue_loop id one_client_os) (System_new 1 () s h) \<noteq> None)"

lemma system_demo_ok: "system_demo demo_server"
  by code_simp

lemma system_demo_run:
  assumes "system_demo sv"
  obtains s h y where "HttpServer_run one_client_os (kqueue_loop id one_client_os) KqueueReactor_new sv [] = Inr (s, h)"
    "first_task one_client_os (kqueue_loop id one_client_os) (System_new 1 () s h) = Some y"
  using assms by (auto simp: system_demo_def split: sum.splits)


end
