(* ===== verification/Growing_History.thy ===== *)
theory Growing_History
  imports Pooled_System "HOL-Library.Sublist"
begin

section \<open>Histories only grow\<close>

text \<open>
  What was called in a run stays called: along the steps of the detailed system the history at an
  earlier state is a suffix of the history at a later one. This is what lets a theorem about a
  state speak of a call, a probe or an exchange \<^emph>\<open>of this run\<close>. The locale is
  \<open>growing_system\<close>; what it asks of an event loop is that its operations only append calls.
\<close>

lemma suffix_call: "suffix h h1 \<Longrightarrow> suffix h (x # h1)"
  by (rule suffix_ConsI)

lemma quiet_run_suffix: "quiet_run h h' \<Longrightarrow> suffix h h'"
  by (auto simp: quiet_run_def suffix_def)

lemma erase_suffix: "erase_connection os f s h = (s', h') \<Longrightarrow> suffix h h'"
  by (auto simp: erase_connection_def Socket_destroy_def Socket_close_def invoke_def intro: suffix_call split: option.splits)

lemma store_suffix: "store_connection os f c s h = (s', h') \<Longrightarrow> suffix h h'"
  by (auto simp: store_connection_def Socket_destroy_def Socket_close_def invoke_def intro: suffix_call split: option.splits)

lemma acceptNonBlocking_suffix: "acceptNonBlocking os f h = (res, h') \<Longrightarrow> suffix h h'"
  by (auto simp: acceptNonBlocking_def setNonBlocking_def invoke_def Let_def intro!: suffix_call split: if_splits)

lemma setTcpNoDelay_suffix: "setTcpNoDelay os f h = (b, h') \<Longrightarrow> suffix h h'"
  by (auto simp: setTcpNoDelay_def invoke_def intro: suffix_call)

locale growing_system = pooled_system el interest known inv sound os handle others
  for el :: "'s EventLoop" and interest known inv sound os and handle :: "('s, 'm) handler"
    and others :: "('s, 'm, 'b) others" +
  assumes add_grows: "el_add el f m l h = (ok, l', h') \<Longrightarrow> suffix h h'"
    and modify_grows: "el_modify el f m l h = (ok, l', h') \<Longrightarrow> suffix h h'"
    and remove_grows: "el_remove el f l h = (ok, l', h') \<Longrightarrow> suffix h h'"
    and wait_grows: "el_wait el t l h = (n, evs, l', h') \<Longrightarrow> suffix h h'"
begin

lemma loop_ops_grow:
  "loop_modify el f m s h = (s', h') \<Longrightarrow> suffix h h'"
  "loop_add el f m s h = (s', h') \<Longrightarrow> suffix h h'"
  "loop_remove el f s h = (s', h') \<Longrightarrow> suffix h h'"
  by (auto simp: loop_modify_def loop_add_def loop_remove_def split: prod.splits dest: modify_grows add_grows remove_grows)

lemma applyRearm_grows: "applyRearm os el r (s, h) = (s', h') \<Longrightarrow> suffix h h'"
  by (cases r) (auto simp: applyRearm_def split: if_splits RearmAction.splits prod.splits
      dest!: loop_ops_grow erase_suffix intro: suffix_order.trans)

lemma rearms_grow: "fold (applyRearm os el) rs (s, h) = (s', h') \<Longrightarrow> suffix h h'"
proof (induction rs arbitrary: s h)
  case (Cons r rs)
  obtain s1 h1 where a: "applyRearm os el r (s, h) = (s1, h1)" by fastforce
  with Cons show ?case using applyRearm_grows [OF a] by (auto intro: suffix_order.trans)
qed simp

lemma poll_grows:
  assumes "reactorPoll os el s h = (evs, s', h')" shows "suffix h h'"
proof -
  obtain s1 h1 where a: "applyPendingRearms os el s h = (s1, h1)" by fastforce
  obtain n es l h2 where w: "el_wait el 100 (rx_eventLoop s1) h1 = (n, es, l, h2)" by (metis prod_cases4)
  have "suffix h h1" using rearms_grow a by (simp add: applyPendingRearms_def)
  moreover have "h' = h2" using assms a w by (auto simp: reactorPoll_def Let_def split: if_splits)
  ultimately show ?thesis using wait_grows [OF w] by (auto intro: suffix_order.trans)
qed

lemma acceptOne_grows:
  assumes "acceptOne os el s h = (again, s', h')" shows "suffix h h'"
proof -
  obtain res h1 where a: "acceptNonBlocking os (s_fd (rx_listenSock s)) h = (res, h1)" by fastforce
  let ?f = "s_fd (ar_sock res)"
  obtain b h2 where d: "setTcpNoDelay os ?f h1 = (b, h2)" by fastforce
  obtain s1 h3 where st: "store_connection os ?f (Connection_new (ar_sock res)) s h2 = (s1, h3)" by fastforce
  obtain s2 h4 where ad: "loop_add el ?f Readable s1 h3 = (s2, h4)" by fastforce
  have "h' = h1 \<or> h' = h4" using assms a d st ad by (auto simp: acceptOne_def Let_def split: if_splits)
  with acceptNonBlocking_suffix [OF a] setTcpNoDelay_suffix [OF d] store_suffix [OF st] loop_ops_grow(2) [OF ad]
  show ?thesis by (meson suffix_order.trans)
qed

lemma accept_grows:
  fixes s :: "('s, 'm) Reactor_scheme"
  assumes "handleAccept os el s h = Some y" shows "suffix h (snd y)"
proof -
  have "os' = os \<longrightarrow> el' = el \<longrightarrow> suffix h (snd y)"
    if "handleAccept os' el' s h = Some y" for os' el' and s :: "('s, 'm) Reactor_scheme" and h y
  proof (rule handleAccept.raw_induct [OF _ that, of "\<lambda>os' el' s h y. os' = os \<longrightarrow> el' = el \<longrightarrow> suffix h (snd y)"], goal_cases)
    case (1 rec os' el' s h y)
    show ?case
    proof (intro impI)
      assume a: "os' = os" "el' = el"
      obtain again s1 h1 where o: "acceptOne os el s h = (again, s1, h1)" by (metis prod_cases3)
      show "suffix h (snd y)"
      proof (cases again)
        case True
        then have "rec os el s1 h1 = Some y" using 1(2) a o by simp
        from 1(1) [OF this] have "suffix h1 (snd y)" by simp
        with acceptOne_grows [OF o] show ?thesis by (rule suffix_order.trans)
      next
        case False
        with 1(2) a o acceptOne_grows [OF o] show ?thesis by auto
      qed
    qed
  qed
  with assms show ?thesis by blast
qed

lemma event_grows:
  fixes s :: "('s, 'm) Reactor_scheme"
  assumes "handleEvent os el ev s h = Some (s', h')" shows "suffix h h'"
proof -
  obtain s1 h1 where r: "loop_remove el (ev_fd ev) s h = (s1, h1)" by fastforce
  obtain s2 h2 where e: "erase_connection os (ev_fd ev) s1 h1 = (s2, h2)" by fastforce
  have re: "suffix h h2" using loop_ops_grow(3) [OF r] erase_suffix [OF e] by (rule suffix_order.trans)
  obtain s3 h3 where m: "loop_modify el (ev_fd ev) 0 s h = (s3, h3)" by fastforce
  have "handleAccept os el s h = Some (s', h') \<or> h' = h \<or> h' = h2 \<or> h' = h3"
    using assms r e m by (auto simp: handleEvent_def split: if_splits)
  with re accept_grows loop_ops_grow(1) [OF m] show ?thesis by fastforce
qed

lemma step_grows:
  assumes "os_fresh os" "system_ok n y" "system_step os el handle others y y'"
  shows "suffix (sy_hist y) (sy_hist y')"
  using assms(3)
proof (cases rule: system_step.cases)
  case (poll evs s' h')
  with poll_grows show ?thesis by simp
next
  case (event ev evs y1)
  then show ?thesis by (auto simp: dispatch_event_def split: option.splits dest!: event_grows)
next
  case (work i f s' h')
  obtain c where "rx_connections (sy_rx y) f = Some c" "s_fd (c_sock c) = f" by (rule running_connected [OF assms(2) work(2)])
  from handle_ok [OF assms(1) this work(4)] work quiet_run_suffix show ?thesis by (auto simp: handled_def)
next
  case (other b s' h')
  with others_ok [OF assms(1) other(2)] quiet_run_suffix show ?thesis by (auto simp: aside_def)
qed (simp_all add: take_section_def Let_def)

end

subsection \<open>The loops of the two programs\<close>

lemma kqueue_loop_grows:
  "el_add (kqueue_loop order os) f m l h = (ok, l', h') \<Longrightarrow> suffix h h'"
  "el_modify (kqueue_loop order os) f m l h = (ok, l', h') \<Longrightarrow> suffix h h'"
  "el_remove (kqueue_loop order os) f l h = (ok, l', h') \<Longrightarrow> suffix h h'"
  "el_wait (kqueue_loop order os) t l h = (n, evs, l', h') \<Longrightarrow> suffix h h'"
  by (auto simp: kqueue_loop_def kq_add_def kq_modify_def kq_remove_def kq_wait_def invoke_def Let_def
      intro: suffix_call split: if_splits)

interpretation growing_server: growing_system "kqueue_loop order os" kq_interest "\<lambda>k h f. True" kq_inv
  "os_kqueue order os" os "server_task os" server_others for order os
  by (intro growing_system.intro growing_system_axioms.intro pooled_server.pooled_system_axioms) (fact kqueue_loop_grows)+

end
