(* ===== verification/Pooled_Balancer.thy ===== *)
theory Pooled_Balancer
  imports Growing_History Upstream_Flags
begin

section \<open>The load balancer with all its threads\<close>

text \<open>
  The load balancer over its thread pool, with the health checker's thread and \<open>stop()\<close> running
  at the same time as the reactor and the workers. The health thread probes one upstream per
  step, opening and closing a socket of its own and exchanging a flag that \<open>pickNext\<close> reads in
  the workers. \<open>stop()\<close> is two steps, since it waits in \<open>join()\<close>: clearing the two flags, and
  the join, which is possible once the health thread has left its loop.
\<close>

text \<open>Where the health thread is: at the test of its loop, before the probe of an upstream, asleep, or
  returned.\<close>

datatype health_at = AtTest | AtProbe nat | Asleep | Ended

definition stop_flags :: "'s LoadBalancer \<Rightarrow> 's LoadBalancer" where
  "stop_flags s = s\<lparr>rx_running := False, lb_healthChecker := (lb_healthChecker s)\<lparr>hc_running := False\<rparr>\<rparr>"

definition stop_join :: "'s LoadBalancer \<Rightarrow> 's LoadBalancer" where
  "stop_join s = s\<lparr>lb_healthChecker := (lb_healthChecker s)\<lparr>hc_joinable := False\<rparr>\<rparr>"

text \<open>One step of \<open>HealthChecker::loop\<close>; \<open>None\<close>: the probe of this upstream does not return.\<close>

definition health_step ::
    "os \<Rightarrow> health_at \<Rightarrow> 's LoadBalancer \<Rightarrow> history \<Rightarrow> (health_at \<times> 's LoadBalancer \<times> history) option" where
  "health_step os a s h =
     (case a of
        AtTest \<Rightarrow> Some (if hc_running (lb_healthChecker s) then AtProbe 0 else Ended, s, h)
      | AtProbe i \<Rightarrow>
          (if i < length (up_upstreams (lb_upstreamPool s))
           then (case probeOnce os (up_upstreams (lb_upstreamPool s) ! i) h of
                   None \<Rightarrow> None
                 | Some (ok, h1) \<Rightarrow>
                     Some (AtProbe (Suc i), s\<lparr>lb_upstreamPool := set_healthy i ok (lb_upstreamPool s)\<rparr>, h1))
           else Some (Asleep, s, h))
      | Asleep \<Rightarrow> Some (AtTest, s, h)
      | Ended \<Rightarrow> None)"

inductive lb_others :: "os \<Rightarrow> health_at \<Rightarrow> 's LoadBalancer \<Rightarrow> history \<Rightarrow> health_at \<Rightarrow> 's LoadBalancer \<Rightarrow> history \<Rightarrow> bool"
  for os where
  health: "health_step os a s h = Some (a', s', h') \<Longrightarrow> lb_others os a s h a' s' h'"
| stop: "lb_others os a s h a (stop_flags s) h"
| join: "\<not> hc_running (lb_healthChecker s) \<Longrightarrow> lb_others os Ended s h Ended (stop_join s) h"

lemma stop_in_steps: "LoadBalancer_stop s = stop_join (stop_flags s)"
  by (simp add: LoadBalancer_stop_def stop_join_def stop_flags_def HealthChecker_stop_def Let_def)

subsection \<open>A probe is quiet\<close>

lemma probeOnce_prefix:
  assumes "probe_calls os u h f h3 (r4, h4) (r5, h5) (r6, h6)"
  shows "\<exists>k. h4 = k @ h \<and> quiet_calls S k" "\<exists>k. h5 = k @ h \<and> quiet_calls S k" "\<exists>k. h6 = k @ h \<and> quiet_calls S k"
proof -
  from assms obtain r h1 r2 h2 r3 where c: "h1 = (Sys_socket, r) # h" "h2 = (Sys_setsockopt f (SO_RCVTIMEO 0 500000), r2) # h1"
    "h3 = (Sys_setsockopt f (SO_SNDTIMEO 0 500000), r3) # h2" "h4 = (Sys_inet_pton (u_host u), r4) # h3"
    "h5 = (Sys_connect f (u_host u) (u_port u), r5) # h4" "h6 = (Sys_send f kRequest, r6) # h5"
    unfolding probe_calls_def by (auto dest!: invoke_result)
  let ?k = "[(Sys_inet_pton (u_host u), r4), (Sys_setsockopt f (SO_SNDTIMEO 0 500000), r3),
    (Sys_setsockopt f (SO_RCVTIMEO 0 500000), r2), (Sys_socket, r)]"
  show "\<exists>k. h4 = k @ h \<and> quiet_calls S k" by (rule exI [of _ ?k]) (simp add: c)
  show "\<exists>k. h5 = k @ h \<and> quiet_calls S k"
    by (rule exI [of _ "(Sys_connect f (u_host u) (u_port u), r5) # ?k"]) (simp add: c)
  show "\<exists>k. h6 = k @ h \<and> quiet_calls S k"
    by (rule exI [of _ "(Sys_send f kRequest, r6) # (Sys_connect f (u_host u) (u_port u), r5) # ?k"]) (simp add: c)
qed

lemma quiet_calls_close:
  "\<exists>k. h1 = k @ h \<and> quiet_calls S k \<Longrightarrow> f \<notin> S \<Longrightarrow> \<exists>k. snd (invoke os (Sys_close f) h1) = k @ h \<and> quiet_calls S k"
proof (elim exE conjE)
  fix k assume "f \<notin> S" "h1 = k @ h" "quiet_calls S k"
  then show ?thesis by (intro exI [of _ "(Sys_close f, os h1 (Sys_close f)) # k"]) (simp add: invoke_def)
qed

lemma probeOnce_quiet:
  assumes "os_fresh os" "probeOnce os u h = Some (ok, h')"
  shows "quiet_run h h'"
proof -
  obtain f h3 r4 h4 r5 h5 r6 h6 where c: "probe_calls os u h f h3 (r4, h4) (r5, h5) (r6, h6)"
    using probe_calls_ex by blast
  note p = probeOnce_prefix [OF c, of "open_fds h"]
  have "\<exists>k. h' = k @ h \<and> quiet_calls (open_fds h) k"
  proof (cases "f < 0")
    case True
    with assms(2) show ?thesis unfolding probeOnce_calls [OF c] by auto
  next
    case False
    then have fr: "f \<notin> open_fds h" using assms(1) probe_calls_fd [OF c] by (simp add: os_fresh_def)
    have rd: "\<exists>k. h7 = k @ h \<and> quiet_calls (open_fds h) k"
      if r: "recvResponse os f 2048 HttpResponseParser_new h6 = Some (res, h7)" for res h7
    proof -
      have "only_recvs f h6 h7" using recvResponse_read_post [OF r] by (auto simp: read_post_def)
      from neutral_calls_recvs [OF this] obtain k where "h7 = k @ h6" "quiet_calls (open_fds h) k" by blast
      with p(3) show ?thesis by (metis append.assoc quiet_calls_append)
    qed
    from False assms(2) quiet_calls_close [OF p(1) fr] quiet_calls_close [OF p(2) fr] quiet_calls_close [OF p(3) fr]
      quiet_calls_close [OF rd fr] show ?thesis
      unfolding probeOnce_calls [OF c] by (auto split: if_splits option.splits)
  qed
  with probeOnce_open [OF assms] show ?thesis by (auto simp: quiet_run_def)
qed

lemma health_step_aside:
  assumes "os_fresh os" "health_step os a s h = Some (a', s', h')" shows "aside s h s' h'"
  using assms(2) probeOnce_quiet [OF assms(1)]
  by (auto simp: health_step_def aside_def split: health_at.splits if_splits option.splits)

interpretation pooled_lb: pooled_system "kqueue_loop order os" kq_interest "\<lambda>k h f. True" kq_inv
  "os_kqueue order os" os "lb_task os" "lb_others os" for order os
proof (intro pooled_system.intro pooled_system_axioms.intro)
  show "reactor_system (kqueue_loop order os) kq_interest (\<lambda>k h f. True) kq_inv (os_kqueue order os) os (lb_task os)"
    by (rule kqueue_lb.reactor_system_axioms)
  show "aside s h s' h'" if "os_fresh os" "lb_others os a s h a' s' h'" for a a' s s' h h'
    using that(2)
  proof (cases rule: lb_others.cases)
    case health
    with that(1) health_step_aside show ?thesis by blast
  qed (simp_all add: aside_def stop_flags_def stop_join_def)
qed

subsection \<open>What the threads do to the upstreams\<close>

text \<open>The fields of the load balancer do not change while the reactor's do.\<close>

lemma lb_more:
  "Reactor.more s' = Reactor.more s \<Longrightarrow> lb_upstreamPool s' = lb_upstreamPool s \<and> lb_healthChecker s' = lb_healthChecker s"
  by (cases s, cases s') simp

lemma serveClient_upstreams:
  assumes "serveClient os pool f c h = Some (c', act, pool', h')"
  shows "up_upstreams pool' = up_upstreams pool"
proof -
  have p: "up_upstreams pool1 = up_upstreams pool" if "proxyAnswer os pool c0 h0 = Some (c1, a, pool1, h1)" for c0 h0 c1 a pool1 h1
  proof -
    from that obtain ok c2 h2 where "proxyRequest os pool c0 (p_req (c_parser c0)) h0 = Some (ok, c2, pool1, h2)"
      by (auto simp: proxyAnswer_def Let_def split: option.splits prod.splits if_splits)
    then have "pool1 = snd (pickNext pool)"
      by (auto simp: proxyRequest_def Let_def split: prod.splits option.splits if_splits)
    then show ?thesis by simp
  qed
  with assms show ?thesis
    by (auto simp: serveClient_def Let_def split: prod.splits if_splits ParseStatus.splits)
qed

lemma lb_task_fields:
  assumes "lb_task os f s h = Some (s', h')"
  shows "up_upstreams (lb_upstreamPool s') = up_upstreams (lb_upstreamPool s) \<and> lb_healthChecker s' = lb_healthChecker s"
  using assms serveClient_upstreams
  by (fastforce simp: lb_task_def handleClientEvent_def postRearm_def split: option.splits prod.splits)

text \<open>The upstreams in every state of a run: their flags are accounted for by its history.\<close>

interpretation growing_lb: growing_system "kqueue_loop order os" kq_interest "\<lambda>k h f. True" kq_inv
  "os_kqueue order os" os "lb_task os" "lb_others os" for order os
  by (intro growing_system.intro growing_system_axioms.intro pooled_lb.pooled_system_axioms) (fact kqueue_loop_grows)+

lemma lb_others_flags:
  assumes "os_fresh os" "flags_ok os p0 (lb_upstreamPool s) h" "lb_others os a s h a' s' h'"
  shows "flags_ok os p0 (lb_upstreamPool s') h'"
  using assms(3)
proof (cases rule: lb_others.cases)
  case health
  with assms(2) flags_ok_probe [OF assms(2)] quiet_run_suffix [OF probeOnce_quiet [OF assms(1)]] show ?thesis
    by (auto simp: health_step_def split: health_at.splits if_splits option.splits)
qed (use assms(2) in \<open>simp_all add: stop_flags_def stop_join_def\<close>)

lemma lb_step_flags:
  assumes "os_fresh os" "pooled_lb.system_ok n y" "flags_ok os p0 (lb_upstreamPool (sy_rx y)) (sy_hist y)"
    and "system_step os (kqueue_loop order os) (lb_task os) (lb_others os) y y'"
  shows "flags_ok os p0 (lb_upstreamPool (sy_rx y')) (sy_hist y')"
proof -
  note g = growing_lb.step_grows [OF assms(1,2,4)]
  have k: "flags_ok os p0 (lb_upstreamPool (sy_rx y')) (sy_hist y')"
    if "up_upstreams (lb_upstreamPool (sy_rx y')) = up_upstreams (lb_upstreamPool (sy_rx y))"
    using flags_ok_cong [OF that flags_ok_mono [OF assms(3) g]] .
  show ?thesis
    using assms(4)
  proof (cases rule: system_step.cases)
    case (poll evs s' h')
    with lb_more [of s' "sy_rx y"] reactorPoll_frame [OF poll(4)] k show ?thesis by (simp add: rx_frame_def)
  next
    case (event ev evs y1)
    then obtain s' h' where e: "handleEvent os (kqueue_loop order os) ev (sy_rx y) (sy_hist y) = Some (s', h')"
      and y1: "sy_rx y1 = s'" by (auto simp: dispatch_event_def split: option.splits)
    from handleEvent_frame [OF e] have "Reactor.more s' = Reactor.more (sy_rx y)" by (auto simp: rx_frame_def)
    with lb_more [of s' "sy_rx y"] event y1 k show ?thesis by simp
  next
    case (work i f s' h')
    with lb_task_fields [OF work(4)] k show ?thesis by simp
  next
    case (other b s' h')
    with lb_others_flags [OF assms(1,3)] show ?thesis by simp
  next
    case (critical i)
    with k show ?thesis by (simp add: take_section_def Let_def)
  qed (use k in simp_all)
qed

lemma lb_runs_flags:
  assumes "(system_step os (kqueue_loop order os) (lb_task os) (lb_others os))\<^sup>*\<^sup>* y y'" "os_kqueue order os" "os_fresh os"
    and "pooled_lb.system_ok n y" "flags_ok os p0 (lb_upstreamPool (sy_rx y)) (sy_hist y)"
  shows "flags_ok os p0 (lb_upstreamPool (sy_rx y')) (sy_hist y')"
  using assms(1)
proof (induction rule: rtranclp_induct)
  case base
  show ?case by (rule assms(5))
next
  case (step y y')
  from lb_step_flags [OF assms(3) pooled_lb.runs_ok [OF step(1) assms(2-4)] step(3,2)] show ?case .
qed

lemma LoadBalancer_run_fields:
  assumes "LoadBalancer_run os el create s h = Inr (s', h')"
  shows "lb_upstreamPool s' = lb_upstreamPool s"
  using assms
  by (auto simp: LoadBalancer_run_def reactorStart_def loop_add_def start_checker_def HealthChecker_start_def Let_def
      split: prod.splits if_splits option.splits sum.splits)

subsection \<open>Properties\<close>


text \<open>A client's request is in the hands of a worker while the health thread makes two steps.\<close>

definition health_steps2 ::
    "os \<Rightarrow> ('s, unit LoadBalancer_ext, health_at) System \<Rightarrow> ('s, unit LoadBalancer_ext, health_at) System option" where
  "health_steps2 os y =
     (case health_step os (sy_others y) (sy_rx y) (sy_hist y) of
        None \<Rightarrow> None
      | Some (a1, s1, h1) \<Rightarrow>
          (case health_step os a1 s1 h1 of
             None \<Rightarrow> None
           | Some (a2, s2, h2) \<Rightarrow> Some (y\<lparr>sy_rx := s2, sy_hist := h2, sy_others := a2\<rparr>)))"

lemma health_steps2_runs:
  assumes "health_steps2 os y = Some y'"
  shows "(system_step os el handle (lb_others os))\<^sup>*\<^sup>* y y' \<and> sy_pool y' = sy_pool y"
proof -
  from assms obtain a1 s1 h1 a2 s2 h2 where h: "health_step os (sy_others y) (sy_rx y) (sy_hist y) = Some (a1, s1, h1)"
    "health_step os a1 s1 h1 = Some (a2, s2, h2)" and y': "y' = y\<lparr>sy_rx := s2, sy_hist := h2, sy_others := a2\<rparr>"
    by (auto simp: health_steps2_def split: option.splits)
  let ?y1 = "y\<lparr>sy_rx := s1, sy_hist := h1, sy_others := a1\<rparr>"
  have "system_step os el handle (lb_others os) y ?y1" using h(1) by (intro system_step.other lb_others.health)
  moreover have "system_step os el handle (lb_others os) ?y1 (?y1\<lparr>sy_rx := s2, sy_hist := h2, sy_others := a2\<rparr>)"
    by (rule system_step.other) (simp add: h(2) lb_others.health)
  ultimately show ?thesis unfolding y' by simp
qed

definition lb_system_demo :: "KqueueReactor LoadBalancer \<Rightarrow> bool" where
  "lb_system_demo b =
     (case LoadBalancer_run one_client_os (kqueue_loop id one_client_os) KqueueReactor_new b [] of
        Inl _ \<Rightarrow> False
      | Inr (s, h) \<Rightarrow>
          (case first_task one_client_os (kqueue_loop id one_client_os) (System_new 1 AtTest s h) of
             None \<Rightarrow> False
           | Some y \<Rightarrow> sy_others y = AtTest \<and> hc_running (lb_healthChecker (sy_rx y))
               \<and> length (up_upstreams (lb_upstreamPool (sy_rx y))) = 1))"

lemma lb_system_demo_ok: "lb_system_demo demo_lb"
  by code_simp

lemma lb_system_demo_run:
  assumes "lb_system_demo b"
  obtains s h y where "LoadBalancer_run one_client_os (kqueue_loop id one_client_os) KqueueReactor_new b [] = Inr (s, h)"
    "first_task one_client_os (kqueue_loop id one_client_os) (System_new 1 AtTest s h) = Some y" "sy_others y = AtTest"
    "hc_running (lb_healthChecker (sy_rx y))" "length (up_upstreams (lb_upstreamPool (sy_rx y))) = 1"
proof (cases "LoadBalancer_run one_client_os (kqueue_loop id one_client_os) KqueueReactor_new b []")
  case (Inl x)
  with assms show thesis by (simp add: lb_system_demo_def)
next
  case (Inr c)
  obtain s h where c: "c = (s, h)" by (cases c)
  show thesis
  proof (cases "first_task one_client_os (kqueue_loop id one_client_os) (System_new 1 AtTest s h)")
    case None
    with assms Inr c show thesis by (simp add: lb_system_demo_def)
  next
    case (Some y)
    with assms Inr c that show thesis by (simp add: lb_system_demo_def)
  qed
qed

text \<open>This kernel does not convert the address, so the probe fails.\<close>

lemma one_client_probe: "\<exists>h'. probeOnce one_client_os u h = Some (False, h')"
  by (rule probeOnce_unreachable)
     (auto simp: reachable_upstream_def probe_calls_def invoke_def one_client_os_def sys_result_def)

lemma one_client_health:
  assumes "sy_others y = AtTest" "hc_running (lb_healthChecker (sy_rx y))"
    and "length (up_upstreams (lb_upstreamPool (sy_rx y))) = 1"
  shows "\<exists>y'. health_steps2 one_client_os y = Some y' \<and> map u_healthy (up_upstreams (lb_upstreamPool (sy_rx y'))) = [False]"
proof -
  from assms(3) obtain u where u: "up_upstreams (lb_upstreamPool (sy_rx y)) = [u]" by (auto simp: length_Suc_conv)
  obtain h' where "probeOnce one_client_os u (sy_hist y) = Some (False, h')" using one_client_probe by blast
  with assms(1,2) u show ?thesis by (auto simp: health_steps2_def health_step_def set_healthy_def)
qed


end
