(* ===== verification/Conversations.thy ===== *)
theory Conversations
  imports Proxy_Session Pooled_Balancer
begin

section \<open>What clients get from the whole programs\<close>

text \<open>
  \<open>Session\<close> and \<open>Proxy_Session\<close> follow one connection through the events a worker serves on it. Here
  the events come from the programs with all their threads (\<open>Pooled_System\<close>, \<open>Pooled_Balancer\<close>):
  the reactor accepts, dispatches, re-arms and closes, several workers serve different clients,
  the health thread probes. Since a connection is dispatched once at a time and everybody else's
  calls are on other descriptors, every client's conversation is the one of its specification,
  from the \<open>accept\<close> that returned its descriptor on. The locale is \<open>conversing_system\<close>.
\<close>

subsection \<open>Calls that transfer nothing\<close>

text \<open>Calls that send and read nothing and close only descriptors of a set; calls that leave one
  descriptor alone.\<close>

definition silent :: "fd set \<Rightarrow> history \<Rightarrow> history \<Rightarrow> bool" where
  "silent S h h' \<longleftrightarrow> (\<exists>k. h' = k @ h \<and> (\<forall>x \<in> set k. \<forall>g. \<not> transfers g (fst x) \<and> (fst x = Sys_close g \<longrightarrow> g \<in> S)))"

definition apart :: "fd \<Rightarrow> history \<Rightarrow> history \<Rightarrow> bool" where
  "apart f h h' \<longleftrightarrow> (\<exists>k. h' = k @ h \<and> (\<forall>x \<in> set k. \<not> transfers f (fst x) \<and> fst x \<noteq> Sys_close f))"

lemma silent_apart: "silent S h h' \<Longrightarrow> f \<notin> S \<Longrightarrow> apart f h h'"
  unfolding silent_def apart_def by blast

lemma silent_refl [simp]: "silent S h h"
  by (simp add: silent_def)

lemma silent_call: "silent S h h1 \<Longrightarrow> (\<And>g. \<not> transfers g c \<and> (c = Sys_close g \<longrightarrow> g \<in> S)) \<Longrightarrow> silent S h ((c, r) # h1)"
  unfolding silent_def by (metis Cons_eq_appendI fst_conv set_ConsD)

lemma silent_trans: "silent S h h1 \<Longrightarrow> silent S' h1 h2 \<Longrightarrow> silent (S \<union> S') h h2"
  unfolding silent_def by (metis UnCI UnE append.assoc set_append)

lemma silent_erase:
  assumes "erase_connection os f s h = (s', h')" "\<And>c. rx_connections s f = Some c \<Longrightarrow> conn_fd c = f"
  shows "silent {f} h h'"
  using assms by (auto simp: erase_connection_def Socket_destroy_def Socket_close_def conn_fd_def invoke_def silent_call
      split: option.splits)

lemma apart_foreign: "apart f h h' \<Longrightarrow> foreign f h h'"
  unfolding apart_def foreign_def by blast

lemma foreign_apart:
  assumes "foreign f h h'" "quiet_run h h'" "f \<in> open_fds h" shows "apart f h h'"
proof -
  from assms(1) obtain k where k: "h' = k @ h" "\<forall>x \<in> set k. \<not> transfers f (fst x)" by (auto simp: foreign_def)
  with assms(2) have "quiet_calls (open_fds h) k" by (auto simp: quiet_run_def)
  with assms(3) have "\<forall>x \<in> set k. fst x \<noteq> Sys_close f" by (force simp: quiet_calls_def)
  with k show ?thesis by (auto simp: apart_def)
qed

lemma session_rel_foreign:
  assumes "grows spec" "foreign f h h'" "session_rel spec f h0 c h live" shows "session_rel spec f h0 c h' live"
proof -
  have "spec f h0 h cs p out \<Longrightarrow> spec f h0 h' cs p out" for cs p out
    using assms(1,2) unfolding grows_def foreign_def by blast
  with foreign_keeps [OF assms(2)] assms(3) show ?thesis unfolding session_rel_def by fastforce
qed

lemma history_append:
  "chunks f (k @ h) = chunks f h @ chunks f k" "send_errors f (k @ h) = send_errors f h + send_errors f k"
  "sent_bytes f (k @ h) = sent_bytes f h @ sent_bytes f k"
  by (induction k) simp_all

text \<open>The accept of a descriptor, and the calls after it in one turn of the accept loop.\<close>

definition born :: "fd \<Rightarrow> history \<Rightarrow> bool" where
  "born f h0 \<longleftrightarrow> (\<exists>lf r h. h0 = (Sys_accept lf, r) # h \<and> sr_ret r = f)"

lemma setNonBlocking_silent: "silent {} h (snd (setNonBlocking os f h))"
  by (simp add: setNonBlocking_def invoke_def Let_def silent_call)

lemma acceptNonBlocking_silent:
  "silent (if Socket_valid (ar_sock (fst (acceptNonBlocking os lf h))) then {} else {sr_ret (os h (Sys_accept lf))})
     ((Sys_accept lf, os h (Sys_accept lf)) # h) (snd (acceptNonBlocking os lf h))"
proof -
  let ?r = "os h (Sys_accept lf)"
  let ?h1 = "(Sys_accept lf, ?r) # h"
  obtain ok h2 where n: "setNonBlocking os (sr_ret ?r) ?h1 = (ok, h2)" by fastforce
  then have "silent {} ?h1 h2" using setNonBlocking_silent [of ?h1 os "sr_ret ?r"] by simp
  moreover from this have "silent {sr_ret ?r} ?h1 h2" using silent_trans [of "{}" ?h1 h2 "{sr_ret ?r}" h2] by simp
  ultimately show ?thesis using n
    by (simp add: acceptNonBlocking_def invoke_def Let_def silent_call AcceptResult_new_def Socket_new_def Socket_of_def
        Socket_valid_def)
qed

lemma acceptNonBlocking_sock:
  assumes "acceptNonBlocking os lf h = (res, h')" "Socket_valid (ar_sock res)"
  shows "s_fd (ar_sock res) = sr_ret (os h (Sys_accept lf))"
  using assms
  by (auto simp: acceptNonBlocking_def invoke_def Let_def AcceptResult_new_def Socket_new_def Socket_of_def
      Socket_valid_def split: if_splits prod.splits)

lemma accept_silent: "silent {} h ((Sys_accept lf, r) # h)"
  by (simp add: silent_call)

subsection \<open>The system\<close>

locale conversing_system = growing_system el interest known inv sound os handle others
  for el :: "'s EventLoop" and interest known inv sound os and handle :: "('s, 'm) handler"
    and others :: "('s, 'm, 'b) others" +
  fixes spec :: session and bounded :: bool and cfg :: "('s, 'm) Reactor_scheme \<Rightarrow> history \<Rightarrow> bool"
  assumes spec_start: "spec f h0 h0 [] HttpParser_new []"
    and spec_grows: "grows spec"
    and add_silent: "el_add el f m l h = (ok, l', h') \<Longrightarrow> silent {} h h'"
    and modify_silent: "el_modify el f m l h = (ok, l', h') \<Longrightarrow> silent {} h h'"
    and remove_silent: "el_remove el f l h = (ok, l', h') \<Longrightarrow> silent {} h h'"
    and wait_silent: "el_wait el t l h = (n, evs, l', h') \<Longrightarrow> silent {} h h'"
    and handle_serves: "bounded \<Longrightarrow> os_fresh os \<Longrightarrow> cfg s h \<Longrightarrow>
          rx_connections s f = Some c \<Longrightarrow> f \<in> open_fds h \<Longrightarrow>
          session_rel spec f h0 c h True \<Longrightarrow> handle f s h = Some (s', h') \<Longrightarrow>
          \<exists>c' act. rx_connections s' = (rx_connections s)(f \<mapsto> c')
            \<and> rx_pendingRearms s' = rx_pendingRearms s @ [(f, act)] \<and> session_rel spec f h0 c' h' (act \<noteq> Close)"
    and handle_foreign: "os_fresh os \<Longrightarrow> cfg s h \<Longrightarrow> rx_connections s f = Some c \<Longrightarrow> s_fd (c_sock c) = f \<Longrightarrow>
          g \<in> open_fds h \<Longrightarrow> g \<noteq> f \<Longrightarrow> handle f s h = Some (s', h') \<Longrightarrow> foreign g h h'"
    and others_foreign: "os_fresh os \<Longrightarrow> g \<in> open_fds h \<Longrightarrow> others b s h b' s' h' \<Longrightarrow> foreign g h h'"
    and cfg_frame: "Reactor.more s' = Reactor.more s \<Longrightarrow> suffix h h' \<Longrightarrow> cfg s h \<Longrightarrow> cfg s' h'"
    and handle_cfg: "cfg s h \<Longrightarrow> suffix h h' \<Longrightarrow> handle f s h = Some (s', h') \<Longrightarrow> cfg s' h'"
    and others_cfg: "os_fresh os \<Longrightarrow> cfg s h \<Longrightarrow> others b s h b' s' h' \<Longrightarrow> cfg s' h'"
begin

text \<open>Every connection is in its conversation, open to more unless a close was posted for it.\<close>

definition talks :: "('s, 'm) Reactor_scheme \<Rightarrow> history \<Rightarrow> fd \<Rightarrow> Connection \<Rightarrow> bool" where
  "talks s h f c \<longleftrightarrow> (\<exists>h0 k. h = k @ h0 \<and> born f h0 \<and> Sys_close f \<notin> fst ` set k
     \<and> session_rel spec f h0 c h ((f, Close) \<notin> set (rx_pendingRearms s)))"

definition all_talk :: "('s, 'm) Reactor_scheme \<Rightarrow> history \<Rightarrow> bool" where
  "all_talk s h \<longleftrightarrow> (\<forall>f c. rx_connections s f = Some c \<longrightarrow> talks s h f c)"

lemma talks_apart:
  assumes "talks s h f c" "apart f h h'" "(f, Close) \<in> set (rx_pendingRearms s) \<longleftrightarrow> (f, Close) \<in> set (rx_pendingRearms s')"
  shows "talks s' h' f c"
proof -
  from assms(1) obtain h0 k where t: "h = k @ h0" "born f h0" "Sys_close f \<notin> fst ` set k"
    "session_rel spec f h0 c h ((f, Close) \<notin> set (rx_pendingRearms s))" by (auto simp: talks_def)
  from assms(2) obtain k' where k': "h' = k' @ h" "Sys_close f \<notin> fst ` set k'" by (force simp: apart_def)
  from session_rel_foreign [OF spec_grows apart_foreign [OF assms(2)] t(4)] t k' assms(3) show ?thesis
    unfolding talks_def by (intro exI [of _ h0] exI [of _ "k' @ k"]) (simp add: image_Un)
qed

lemma talks_fd: "talks s h f c \<Longrightarrow> conn_fd c = f"
  by (auto simp: talks_def session_rel_def)

lemma all_talk_fd: "all_talk s h \<Longrightarrow> \<forall>f c. rx_connections s f = Some c \<longrightarrow> conn_fd c = f"
  using talks_fd unfolding all_talk_def by blast

lemma all_talk_silent:
  assumes "all_talk s h" "silent S h h'" "\<And>f c. rx_connections s' f = Some c \<Longrightarrow> rx_connections s f = Some c \<and> f \<notin> S"
    and "rx_pendingRearms s' = rx_pendingRearms s"
  shows "all_talk s' h'"
  unfolding all_talk_def
proof (intro allI impI)
  fix f c assume c: "rx_connections s' f = Some c"
  then have "talks s h f c" using assms(1,3) by (simp add: all_talk_def)
  from talks_apart [OF this silent_apart [OF assms(2)]] assms(3) [OF c] assms(4) show "talks s' h' f c" by simp
qed

lemma loop_ops_silent:
  "loop_modify el f m s h = (s', h') \<Longrightarrow> silent {} h h' \<and> rx_connections s' = rx_connections s \<and> rx_pendingRearms s' = rx_pendingRearms s"
  "loop_add el f m s h = (s', h') \<Longrightarrow> silent {} h h' \<and> rx_connections s' = rx_connections s \<and> rx_pendingRearms s' = rx_pendingRearms s"
  "loop_remove el f s h = (s', h') \<Longrightarrow> silent {} h h' \<and> rx_connections s' = rx_connections s \<and> rx_pendingRearms s' = rx_pendingRearms s"
  by (auto simp: loop_modify_def loop_add_def loop_remove_def split: prod.splits
      dest: modify_silent add_silent remove_silent)

text \<open>Removing a descriptor from the loop and destroying its connection.\<close>

lemma drop_silent:
  assumes "loop_remove el f s h = (s1, h1)" "erase_connection os f s1 h1 = (s', h')"
    and "\<And>c. rx_connections s f = Some c \<Longrightarrow> conn_fd c = f"
  shows "silent {f} h h' \<and> rx_connections s' = (rx_connections s)(f := None) \<and> rx_pendingRearms s' = rx_pendingRearms s"
proof -
  note r = loop_ops_silent(3) [OF assms(1)]
  have "rx_connections s' = (rx_connections s1)(f := None)" "rx_pendingRearms s' = rx_pendingRearms s1"
    using assms(2) by (auto simp: erase_connection_def)
  moreover have "silent {f} h1 h'" by (rule silent_erase [OF assms(2)]) (use r assms(3) in simp)
  ultimately show ?thesis using r silent_trans [of "{}" h h1 "{f}" h'] by simp
qed

text \<open>Re-arming: a connection that survives it had no close posted.\<close>

lemma applyRearm_talk:
  assumes "applyRearm os el (f, act) (s, h) = (s', h')" "\<And>c. rx_connections s f = Some c \<Longrightarrow> conn_fd c = f"
  shows "silent (if act = Close then {f} else {}) h h' \<and> rx_pendingRearms s' = rx_pendingRearms s
    \<and> rx_connections s' = (if act = Close then (rx_connections s)(f := None) else rx_connections s)"
proof (cases "rx_connections s f")
  case None
  with assms(1) show ?thesis by (auto simp: applyRearm_def)
next
  case (Some c)
  show ?thesis
  proof (cases act)
    case Close
    obtain s1 h1 where r: "loop_remove el f s h = (s1, h1)" by fastforce
    with Close Some assms(1) have "erase_connection os f s1 h1 = (s', h')" by (simp add: applyRearm_def)
    with drop_silent [OF r] Close assms(2) show ?thesis by simp
  qed (use Some assms(1) in \<open>auto simp: applyRearm_def dest: loop_ops_silent(1)\<close>)
qed

definition closing :: "(fd \<times> RearmAction) list \<Rightarrow> fd set" where
  "closing rs = {f. (f, Close) \<in> set rs}"

lemma applyRearms_talk:
  "fold (applyRearm os el) rs (s, h) = (s', h') \<Longrightarrow> \<forall>f c. rx_connections s f = Some c \<longrightarrow> conn_fd c = f \<Longrightarrow>
     silent (closing rs) h h' \<and> rx_pendingRearms s' = rx_pendingRearms s
     \<and> (\<forall>f c. rx_connections s' f = Some c \<longrightarrow> rx_connections s f = Some c \<and> f \<notin> closing rs)"
proof (induction rs arbitrary: s h)
  case (Cons r rs)
  obtain f act where r: "r = (f, act)" by (cases r)
  obtain s1 h1 where a: "applyRearm os el (f, act) (s, h) = (s1, h1)" by fastforce
  have t: "silent (if act = Close then {f} else {}) h h1" "rx_pendingRearms s1 = rx_pendingRearms s"
    "rx_connections s1 = (if act = Close then (rx_connections s)(f := None) else rx_connections s)"
    using applyRearm_talk [OF a] Cons.prems(2) by blast+
  have "\<forall>g c. rx_connections s1 g = Some c \<longrightarrow> conn_fd c = g" using t(3) Cons.prems(2) by auto
  with Cons.IH [of s1 h1] Cons.prems(1) r a
  have ih: "silent (closing rs) h1 h'" "rx_pendingRearms s' = rx_pendingRearms s1"
    "\<forall>f c. rx_connections s' f = Some c \<longrightarrow> rx_connections s1 f = Some c \<and> f \<notin> closing rs" by auto
  have cl: "closing (r # rs) = (if act = Close then {f} else {}) \<union> closing rs" using r by (auto simp: closing_def)
  have "rx_connections s g = Some c \<and> g \<notin> closing (r # rs)" if "rx_connections s' g = Some c" for g c
  proof -
    from ih(3) that have "rx_connections s1 g = Some c" "g \<notin> closing rs" by auto
    with t(3) show ?thesis unfolding cl by (cases "act = Close"; cases "g = f") (simp_all add: fun_upd_def)
  qed
  with ih(2) t(2) silent_trans [OF t(1) ih(1)] show ?case unfolding cl by simp
qed (simp add: closing_def)

lemma poll_talk:
  assumes "all_talk s h" "reactorPoll os el s h = (evs, s', h')"
  shows "all_talk s' h'"
proof -
  obtain s1 h1 where a: "fold (applyRearm os el) (rx_pendingRearms s) (s\<lparr>rx_pendingRearms := []\<rparr>, h) = (s1, h1)" by fastforce
  obtain n es l h2 where w: "el_wait el 100 (rx_eventLoop s1) h1 = (n, es, l, h2)" by (metis prod_cases4)
  have e: "rx_connections s' = rx_connections s1" "rx_pendingRearms s' = rx_pendingRearms s1" "h' = h2"
    using assms(2) a w by (auto simp: reactorPoll_def applyPendingRearms_def Let_def split: if_splits)
  let ?S = "closing (rx_pendingRearms s)"
  have t: "silent ?S h h1" "rx_pendingRearms s1 = []"
    "\<forall>f c. rx_connections s1 f = Some c \<longrightarrow> rx_connections s f = Some c \<and> f \<notin> ?S"
    using applyRearms_talk [OF a] all_talk_fd [OF assms(1)] by simp_all
  have si: "silent ?S h h'" using silent_trans [OF t(1) wait_silent [OF w]] e(3) by simp
  show ?thesis
    unfolding all_talk_def
  proof (intro allI impI)
    fix f c assume "rx_connections s' f = Some c"
    with t e have c: "rx_connections s f = Some c" "f \<notin> ?S" "rx_pendingRearms s' = []" by auto
    with assms(1) have "talks s h f c" by (simp add: all_talk_def)
    from talks_apart [OF this silent_apart [OF si c(2)]] c(2,3) show "talks s' h' f c" by (simp add: closing_def)
  qed
qed

text \<open>Accepting: the new connection's conversation starts at its \<open>accept\<close>.\<close>

lemma acceptOne_talk:
  assumes "os_fresh os" "tables s h busy" "all_talk s h" "acceptOne os el s h = (again, s', h')"
  shows "all_talk s' h'"
proof -
  let ?lf = "s_fd (rx_listenSock s)"
  let ?r = "os h (Sys_accept ?lf)"
  let ?h0 = "(Sys_accept ?lf, ?r) # h"
  obtain res h1 where a: "acceptNonBlocking os ?lf h = (res, h1)" by fastforce
  have s1: "silent (if Socket_valid (ar_sock res) then {} else {sr_ret ?r}) ?h0 h1"
    using acceptNonBlocking_silent [of os ?lf h] a by simp
  have fr: "f \<noteq> sr_ret ?r" if "rx_connections s f = Some c" for f c
  proof -
    have "0 \<le> f" "f \<in> open_fds h" using that assms(2) by (auto simp: tables_def tables_of_def)
    with assms(1) show ?thesis by (auto simp: os_fresh_def)
  qed
  show ?thesis
  proof (cases "ar_wouldBlock res \<or> \<not> Socket_valid (ar_sock res)")
    case True
    with assms(4) a have e: "s' = s" "h' = h1" by (auto simp: acceptOne_def split: if_splits)
    have "\<not> Socket_valid (ar_sock res)" using True acceptNonBlocking_wouldBlock [of os ?lf h] a by auto
    with s1 have "silent {sr_ret ?r} h h1" using silent_trans [OF accept_silent, of "{sr_ret ?r}" ?lf ?r h h1] by simp
    from all_talk_silent [OF assms(3) this, of s] fr show ?thesis unfolding e by blast
  next
    case False
    let ?f = "s_fd (ar_sock res)" and ?c = "Connection_new (ar_sock res)"
    obtain b h2 where d: "setTcpNoDelay os ?f h1 = (b, h2)" by fastforce
    have f: "?f = sr_ret ?r" using acceptNonBlocking_sock [OF a] False by simp
    then have n: "rx_connections s ?f = None" using fr by (metis option.exhaust)
    let ?s1 = "s\<lparr>rx_connections := (rx_connections s)(?f \<mapsto> ?c)\<rparr>"
    obtain s2 h4 where ad: "loop_add el ?f Readable ?s1 h2 = (s2, h4)" by fastforce
    have st: "store_connection os ?f ?c s h2 = (?s1, h2)" using n by (simp add: store_connection_def)
    from assms(4) a d st ad False have e: "s' = s2" "h' = h4" by (auto simp: acceptOne_def Let_def)
    note l = loop_ops_silent(2) [OF ad]
    from d have s2: "silent {} h1 h2" by (auto simp: setTcpNoDelay_def invoke_def silent_call)
    have s3: "silent {} h2 h'" using l e(2) by simp
    from s1 False have "silent {} ?h0 h1" by simp
    from silent_trans [OF silent_trans [OF this s2] s3] have s4: "silent {} ?h0 h'" by simp
    then obtain k where k: "h' = k @ ?h0" "\<forall>x \<in> set k. \<forall>g. \<not> transfers g (fst x) \<and> fst x \<noteq> Sys_close g"
      unfolding silent_def by blast
    then have k2: "Sys_close ?f \<notin> fst ` set k" by (metis imageE)
    have new: "talks s' h' ?f ?c"
      unfolding talks_def
    proof (intro exI conjI)
      show "h' = k @ ?h0" "Sys_close ?f \<notin> fst ` set k" by (fact k k2)+
      show "born ?f ?h0" using f by (simp add: born_def)
      have "ar_sock res = Socket_of ?f" by (simp add: Socket_of_def)
      then have "session_rel spec ?f ?h0 ?c ?h0 ((?f, Close) \<notin> set (rx_pendingRearms s'))"
        using session_rel_new [of spec ?f ?h0] spec_start by metis
      with session_rel_foreign [OF spec_grows apart_foreign [OF silent_apart [OF s4]]]
      show "session_rel spec ?f ?h0 ?c h' ((?f, Close) \<notin> set (rx_pendingRearms s'))" by simp
    qed
    have s0: "silent {} h h'" using silent_trans [OF accept_silent s4] by simp
    show ?thesis
      unfolding all_talk_def
    proof (intro allI impI)
      fix g c assume g: "rx_connections s' g = Some c"
      show "talks s' h' g c"
      proof (cases "g = ?f")
        case True
        with g l e new show ?thesis by simp
      next
        case False
        with g l e assms(3) have "talks s h g c" by (simp add: all_talk_def)
        from talks_apart [OF this silent_apart [OF s0]] l e show ?thesis by simp
      qed
    qed
  qed
qed

lemma accept_talk:
  assumes "sound" "os_fresh os" "tables s h busy" "all_talk s h" "handleAccept os el s h = Some y"
  shows "all_talk (fst y) (snd y)"
proof -
  have b: "batch_ok (rx_eventLoop s) h []" for s :: "('s, 'm) Reactor_scheme" and h by (simp add: batch_ok_def)
  have "os' = os \<longrightarrow> el' = el \<longrightarrow> tables s h busy \<longrightarrow> all_talk s h \<longrightarrow> all_talk (fst y) (snd y)"
    if "handleAccept os' el' s h = Some y" for os' el' and s :: "('s, 'm) Reactor_scheme" and h y
  proof (rule handleAccept.raw_induct [OF _ that, of "\<lambda>os' el' s h y. os' = os \<longrightarrow> el' = el \<longrightarrow> tables s h busy \<longrightarrow>
        all_talk s h \<longrightarrow> all_talk (fst y) (snd y)"], goal_cases)
    case (1 rec os' el' s h y)
    show ?case
    proof (intro impI)
      assume a: "os' = os" "el' = el" "tables s h busy" "all_talk s h"
      obtain again s1 h1 where o: "acceptOne os el s h = (again, s1, h1)" by (metis prod_cases3)
      from acceptOne_tables [OF assms(1,2) a(3) b o] acceptOne_talk [OF assms(2) a(3,4) o] 1 a o
      show "all_talk (fst y) (snd y)" by (cases again) auto
    qed
  qed
  with assms show ?thesis by blast
qed

lemma event_talk:
  assumes "sound" "os_fresh os" "tables s h busy" "all_talk s h" "handleEvent os el ev s h = Some (s', h')"
  shows "all_talk s' h'"
proof -
  let ?f = "ev_fd ev"
  consider "?f = s_fd (rx_listenSock s)" | "?f \<noteq> s_fd (rx_listenSock s)" "rx_connections s ?f = None"
    | c where "?f \<noteq> s_fd (rx_listenSock s)" "rx_connections s ?f = Some c" by blast
  then show ?thesis
  proof cases
    case 1
    with assms(5) accept_talk [OF assms(1-4), of "(s', h')"] show ?thesis by (simp add: handleEvent_def)
  next
    case 2
    with assms(4,5) show ?thesis by (simp add: handleEvent_def)
  next
    case (3 c)
    obtain s1 h1 where r: "loop_remove el ?f s h = (s1, h1)" by fastforce
    obtain s2 h2 where m: "loop_modify el ?f 0 s h = (s2, h2)" by fastforce
    show ?thesis
    proof (cases "ev_error ev")
      case True
      with 3 r assms(5) have "erase_connection os ?f s1 h1 = (s', h')" by (simp add: handleEvent_def)
      from drop_silent [OF r this] all_talk_fd [OF assms(4)] have "silent {?f} h h'"
        "rx_connections s' = (rx_connections s)(?f := None)" "rx_pendingRearms s' = rx_pendingRearms s"
        by blast+
      then show ?thesis by (intro all_talk_silent [OF assms(4), of "{?f}"]) (auto split: if_splits)
    next
      case False
      with 3 m assms(5) have "s' = enqueue_task ?f s2" "h' = h2" by (auto simp: handleEvent_def)
      with loop_ops_silent(1) [OF m] all_talk_silent [OF assms(4), of "{}" h' s'] show ?thesis by (simp add: enqueue_task_def)
    qed
  qed
qed

text \<open>A worker's task: its own connection is served, the others are left alone. A connection whose task
  runs has no re-arm request waiting, so it was not closed.\<close>

lemma work_talk:
  assumes "bounded" "os_fresh os" "tables s h busy" "f \<in> set busy" "all_talk s h" "cfg s h"
    and "handle f s h = Some (s', h')"
  shows "all_talk s' h'"
proof -
  have T: "tables_of (rx_eventLoop s) (s_fd (rx_listenSock s)) (rx_connections s) (in_flight s busy) h"
    using assms(3) by (simp add: tables_def)
  have one: "in_flight s busy f = 1" and "\<exists>c. rx_connections s f = Some c"
    using tables_flight [OF T, of f] assms(4) by (auto simp: in_flight_pos)
  then obtain c where c: "rx_connections s f = Some c" by blast
  have "0 < count (mset busy) f" using assms(4) by (simp add: count_greater_zero_iff)
  with one have "count (mset (map fst (rx_pendingRearms s))) f = 0" unfolding in_flight_def by linarith
  then have np: "f \<notin> fst ` set (rx_pendingRearms s)" by (simp add: count_eq_zero_iff)
  from assms(5) c have "talks s h f c" by (simp add: all_talk_def)
  moreover have nc: "(f, Close) \<notin> set (rx_pendingRearms s)" using np by (metis fst_conv image_eqI)
  ultimately obtain h0 k where t: "h = k @ h0" "born f h0" "session_rel spec f h0 c h True" "Sys_close f \<notin> fst ` set k"
    unfolding talks_def by auto
  note tc = tables_conn [OF T]
  from tc [OF c] handle_serves [OF assms(1,2,6) c _ t(3) assms(7)] obtain c' act
    where k: "rx_connections s' = (rx_connections s)(f \<mapsto> c')" "rx_pendingRearms s' = rx_pendingRearms s @ [(f, act)]"
      "session_rel spec f h0 c' h' (act \<noteq> Close)" by blast
  have q: "quiet_run h h'" using tc [OF c] handle_ok [OF assms(2) c _ assms(7)] by (auto simp: handled_def)
  with tc [OF c] obtain k' where "h' = k' @ h" "Sys_close f \<notin> fst ` set k'"
    by (force simp: quiet_run_def quiet_calls_def)
  with t(1,4) have "h' = (k' @ k) @ h0" "Sys_close f \<notin> fst ` set (k' @ k)" by auto
  moreover have "((f, Close) \<notin> set (rx_pendingRearms s')) = (act \<noteq> Close)" using k(2) nc by auto
  ultimately have own: "talks s' h' f c'"
    unfolding talks_def using t(2) k(3) by (intro exI [of _ h0] exI [of _ "k' @ k"]) simp
  show ?thesis
    unfolding all_talk_def
  proof (intro allI impI)
    fix g d assume g: "rx_connections s' g = Some d"
    show "talks s' h' g d"
    proof (cases "g = f")
      case True
      with g k(1) own show ?thesis by simp
    next
      case False
      with g k(1) have gd: "rx_connections s g = Some d" by simp
      then have "talks s h g d" using assms(5) by (simp add: all_talk_def)
      moreover have "foreign g h h'" using handle_foreign [OF assms(2,6) c _ _ False assms(7)] tc [OF c] tc [OF gd] by blast
      ultimately show ?thesis using talks_apart [OF _ foreign_apart [OF _ q], of s g d s'] tc [OF gd] k(2) False by simp
    qed
  qed
qed

lemma step_talk:
  assumes "sound" "bounded" "os_fresh os" "system_ok n y" "all_talk (sy_rx y) (sy_hist y)" "cfg (sy_rx y) (sy_hist y)"
    and "system_step os el handle others y y'"
  shows "all_talk (sy_rx y') (sy_hist y') \<and> cfg (sy_rx y') (sy_hist y')"
proof -
  note g = step_grows [OF assms(3,4,7)]
  have T: "tables (sy_rx y) (sy_hist y) (running_tasks y)" using assms(4) by (simp add: system_ok_def config_of_def)
  show ?thesis
    using assms(7)
  proof (cases rule: system_step.cases)
    case (poll evs s' h')
    with poll_talk [OF assms(5) poll(4)] reactorPoll_frame [OF poll(4)] cfg_frame [OF _ g assms(6)] show ?thesis
      by (simp add: rx_frame_def)
  next
    case (event ev evs y1)
    then obtain s' h' where e: "handleEvent os el ev (sy_rx y) (sy_hist y) = Some (s', h')" "sy_rx y1 = s'" "sy_hist y1 = h'"
      by (auto simp: dispatch_event_def split: option.splits)
    from handleEvent_frame [OF e(1)] have "Reactor.more s' = Reactor.more (sy_rx y)" by (auto simp: rx_frame_def)
    with event_talk [OF assms(1,3) T assms(5) e(1)] e event cfg_frame [OF _ g assms(6)] show ?thesis by simp
  next
    case (critical i)
    with assms(5) cfg_frame [OF _ g assms(6)] show ?thesis by (simp add: take_section_def Let_def all_talk_def talks_def)
  next
    case (work i f s' h')
    have "f \<in> set (running_tasks y)" using work(2) tasks_running by (auto simp: at_worker_def running_tasks_def)
    from work_talk [OF assms(2,3) T this assms(5,6) work(4)] handle_cfg [OF assms(6) _ work(4)] work g show ?thesis by simp
  next
    case (other b s' h')
    note a = others_ok [OF assms(3) other(2)]
    have "talks s' h' f c" if "rx_connections s' f = Some c" for f c
    proof -
      have c: "rx_connections (sy_rx y) f = Some c" using that a by (simp add: aside_def)
      then have o: "f \<in> open_fds (sy_hist y)" using T tables_conn by (auto simp: tables_def)
      have q: "quiet_run (sy_hist y) h'" using a by (simp add: aside_def)
      note fo = foreign_apart [OF others_foreign [OF assms(3) o other(2)] q o]
      have "talks (sy_rx y) (sy_hist y) f c" using assms(5) c by (simp add: all_talk_def)
      from talks_apart [OF this fo, of s'] a show ?thesis by (simp add: aside_def)
    qed
    with others_cfg [OF assms(3,6) other(2)] other show ?thesis by (simp add: all_talk_def)
  qed (use assms(5,6) in simp_all)
qed

lemma runs_talk:
  assumes "system_runs y y'" "sound" "bounded" "os_fresh os" "system_ok n y"
    and "all_talk (sy_rx y) (sy_hist y)" "cfg (sy_rx y) (sy_hist y)"
  shows "all_talk (sy_rx y') (sy_hist y')"
proof -
  from assms(1) have "all_talk (sy_rx y') (sy_hist y') \<and> cfg (sy_rx y') (sy_hist y')"
  proof (induction rule: rtranclp_induct)
    case base
    with assms(6,7) show ?case by simp
  next
    case (step y y')
    from step_talk [OF assms(2-4) runs_ok [OF step(1) assms(2,4,5)] _ _ step(2)] step(3) show ?case by blast
  qed
  then show ?thesis by simp
qed

text \<open>What it means for the bytes of a client.\<close>

lemma talks_spec:
  assumes "talks s h f c"
  obtains k lf r h1 where "h = k @ (Sys_accept lf, r) # h1" "sr_ret r = f" "Sys_close f \<notin> fst ` set k"
    "send_errors f k = 0 \<longrightarrow> (\<exists>p. spec f ((Sys_accept lf, r) # h1) h (chunks f k) p (sent_bytes f k @ pending c))"
proof -
  from assms obtain k lf r h1 where h: "h = k @ (Sys_accept lf, r) # h1" "sr_ret r = f" "Sys_close f \<notin> fst ` set k"
    and "session_rel spec f ((Sys_accept lf, r) # h1) c h ((f, Close) \<notin> set (rx_pendingRearms s))"
    by (auto simp: talks_def born_def)
  then have "send_errors f k = 0 \<longrightarrow> (\<exists>p. spec f ((Sys_accept lf, r) # h1) h (chunks f k) p (sent_bytes f k @ pending c))"
    by (auto simp: session_rel_def history_append)
  with h show thesis by (rule that)
qed

end

subsection \<open>The reactors and the workers\<close>

lemma kqueue_loop_silent:
  "el_add (kqueue_loop order os) f m l h = (ok, l', h') \<Longrightarrow> silent {} h h'"
  "el_modify (kqueue_loop order os) f m l h = (ok, l', h') \<Longrightarrow> silent {} h h'"
  "el_remove (kqueue_loop order os) f l h = (ok, l', h') \<Longrightarrow> silent {} h h'"
  "el_wait (kqueue_loop order os) t l h = (n, evs, l', h') \<Longrightarrow> silent {} h h'"
  by (auto simp: kqueue_loop_def kq_add_def kq_modify_def kq_remove_def kq_wait_def invoke_def Let_def silent_call
      split: if_splits)

text \<open>The calls of a worker that serves one client are on that client's descriptor, or on a socket of its
  own that no open connection has.\<close>

lemma flushWrite_foreign: "flushWrite os c h = (ok, c', h') \<Longrightarrow> g \<noteq> conn_fd c \<Longrightarrow> foreign g h h'"
  using flushWrite_keeps(4) foreign_sends by metis

lemma resumeWrite_foreign: "resumeWrite os c h = (c', act, h') \<Longrightarrow> g \<noteq> conn_fd c \<Longrightarrow> foreign g h h'"
  by (auto simp: resumeWrite_def Let_def split: prod.splits if_splits dest: flushWrite_foreign)

lemma answer_foreign:
  "answerBadRequest os c h = (c', act, h') \<Longrightarrow> g \<noteq> conn_fd c \<Longrightarrow> foreign g h h'"
  "answerRequest os router c h = (c', act, h') \<Longrightarrow> g \<noteq> conn_fd c \<Longrightarrow> foreign g h h'"
  by (auto simp: answerBadRequest_def answerRequest_def Let_def conn_fd_def split: prod.splits if_splits
      dest!: flushWrite_foreign [of _ _ _ _ _ _ g])

lemma serveConnection_foreign:
  assumes "serveConnection os router f c h = (c', act, h')" "conn_fd c = f" "g \<noteq> f"
  shows "foreign g h h'"
proof -
  let ?h = "(Sys_recv f 8192, os h (Sys_recv f 8192)) # h"
  have q: "foreign g h ?h" using assms(3) by (simp add: foreign_call)
  have k: "conn_fd (c\<lparr>c_parser := p\<rparr>) = f" for p using assms(2) by (simp add: conn_fd_def)
  show ?thesis
    using assms q
    by (auto simp: serveConnection_def Let_def invoke_def k split: if_splits prod.splits ParseStatus.splits
        dest!: resumeWrite_foreign [where g = g] answer_foreign [where g = g] intro: foreign_trans)
qed

lemma proxyAnswer_foreign:
  assumes "os_fresh os" "g \<in> open_fds h" "proxyAnswer os pool c h = Some (c', act, pool', h')" "g \<noteq> conn_fd c"
  shows "foreign g h h'"
proof -
  from assms(3) obtain ok c2 h2 where p: "proxyRequest os pool c (p_req (c_parser c)) h = Some (ok, c2, pool', h2)"
    by (auto simp: proxyAnswer_def Let_def split: option.splits prod.splits if_splits)
  from proxyRequest_reply [OF assms(1,2) flags_ok_refl p] have w: "foreign g h h2" "conn_fd c2 = conn_fd c"
    by (auto simp: conn_fd_def)
  obtain fin c3 h3 where f: "flushWrite os c2 h2 = (fin, c3, h3)" by (metis prod_cases3)
  have "h' = h3" using assms(3) p f by (auto simp: proxyAnswer_def Let_def split: if_splits)
  with foreign_trans [OF w(1) flushWrite_foreign [OF f]] w(2) assms(4) show ?thesis by simp
qed

lemma serveClient_foreign:
  assumes "os_fresh os" "g \<in> open_fds h" "serveClient os pool f c h = Some (c', act, pool', h')" "conn_fd c = f" "g \<noteq> f"
  shows "foreign g h h'"
proof -
  let ?h = "(Sys_recv f 8192, os h (Sys_recv f 8192)) # h"
  have q: "foreign g h ?h" "g \<in> open_fds ?h" using assms(2,5) by (simp_all add: foreign_call)
  have k: "conn_fd (c\<lparr>c_parser := p\<rparr>) = f" for p using assms(4) by (simp add: conn_fd_def)
  have x: "foreign g h h'" if "proxyAnswer os pool (c\<lparr>c_parser := p\<rparr>) ?h = Some (c', act, pool', h')" for p
    by (rule foreign_trans [OF q(1) proxyAnswer_foreign [OF assms(1) q(2) that]]) (simp add: k assms(5))
  have b: "foreign g h h'" if "answerBadRequest os (c\<lparr>c_parser := p\<rparr>) ?h = (c', act, h')" for p
    by (rule foreign_trans [OF q(1) answer_foreign(1) [OF that]]) (simp add: k assms(5))
  show ?thesis
    using assms(3-5) q(1)
    by (auto simp: serveClient_def Let_def invoke_def split: if_splits prod.splits ParseStatus.splits
        dest: resumeWrite_foreign [where g = g] b [folded assms(4)] x [folded assms(4)])
qed

text \<open>A health probe.\<close>

lemma probeOnce_foreign:
  assumes "os_fresh os" "g \<in> open_fds h" "probeOnce os u h = Some (ok, h')"
  shows "foreign g h h'"
proof -
  obtain f h3 r4 h4 r5 h5 r6 h6 where c: "probe_calls os u h f h3 (r4, h4) (r5, h5) (r6, h6)"
    using probe_calls_ex by blast
  show ?thesis
  proof (cases "f < 0")
    case True
    with assms(3) show ?thesis unfolding probeOnce_calls [OF c] by (auto simp: foreign_call)
  next
    case False
    then have ne: "f \<noteq> g" using assms(1,2) probe_calls_fd [OF c] by (auto simp: os_fresh_def)
    from c have "foreign g h h4 \<and> foreign g h h5 \<and> foreign g h h6"
      using ne unfolding probe_calls_def by (auto dest!: invoke_result simp: foreign_call)
    moreover have "foreign g h h7" if "foreign g h h6" "recvResponse os f 2048 HttpResponseParser_new h6 = Some (res, h7)" for res h7
    proof (rule foreign_trans [OF that(1)])
      show "foreign g h6 h7" using recvResponse_read_post [OF that(2)] foreign_recvs ne by (auto simp: read_post_def)
    qed
    ultimately show ?thesis using False assms(3)
      unfolding probeOnce_calls [OF c] invoke_def
      by (auto split: if_splits option.splits intro: foreign_call)
  qed
qed

subsection \<open>The two programs on kqueue\<close>

lemma server_task_serves:
  assumes "rx_connections s f = Some c" "server_task os f s h = Some (s', h')"
  obtains c' act where "serveConnection os (hs_router s) f c h = (c', act, h')"
    "s' = postRearm f act (s\<lparr>rx_connections := (rx_connections s)(f \<mapsto> c')\<rparr>)"
proof -
  obtain c' act h1 where v: "serveConnection os (hs_router s) f c h = (c', act, h1)" by (metis prod_cases3)
  with assms that show thesis by (auto simp: server_task_def handleConnectionEvent_def)
qed

lemma lb_task_serves:
  assumes "rx_connections s f = Some c" "lb_task os f s h = Some (s', h')"
  obtains c' act pool where "serveClient os (lb_upstreamPool s) f c h = Some (c', act, pool, h')"
    "s' = postRearm f act (s\<lparr>lb_upstreamPool := pool, rx_connections := (rx_connections s)(f \<mapsto> c')\<rparr>)"
  using assms by (auto simp: lb_task_def handleClientEvent_def split: option.splits)

lemma hs_more: "Reactor.more s' = Reactor.more s \<Longrightarrow> hs_router s' = hs_router s"
  by (cases s, cases s') simp

interpretation conversing_server: conversing_system "kqueue_loop order os" kq_interest "\<lambda>k h f. True" kq_inv
  "os_kqueue order os" os "server_task os" server_others "server_session router" "os_send_bounded os"
  "\<lambda>s h. hs_router s = router" for order os router
proof (intro conversing_system.intro conversing_system_axioms.intro growing_server.growing_system_axioms, goal_cases)
  case 1
  show ?case by (simp add: server_session_def)
next
  case 2
  show ?case by (rule server_session_grows)
next
  case (7 s h f c h0 s' h')
  from server_task_serves [OF 7(4,7)] obtain c' act where v: "serveConnection os (hs_router s) f c h = (c', act, h')"
    "s' = postRearm f act (s\<lparr>rx_connections := (rx_connections s)(f \<mapsto> c')\<rparr>)" .
  from session_rel_serve [OF 7(1,6) v(1) [unfolded 7(3)]] v(2) show ?case by (auto simp: postRearm_def)
next
  case (8 s h f c g s' h')
  from server_task_serves [OF 8(3,7)] obtain c' act where "serveConnection os (hs_router s) f c h = (c', act, h')" .
  from serveConnection_foreign [OF this _ 8(6)] 8(4) show ?case by (simp add: conn_fd_def)
next
  case (11 s h h' f s')
  then show ?case
    by (auto simp: server_task_def handleConnectionEvent_def postRearm_def split: option.splits prod.splits)
qed (auto intro: kqueue_loop_silent elim!: server_others.cases dest: hs_more simp: HttpServer_stop_def reactor_stop_def)

lemma health_step_foreign:
  assumes "os_fresh os" "g \<in> open_fds h" "health_step os a s h = Some (a', s', h')" shows "foreign g h h'"
  using assms(3) probeOnce_foreign [OF assms(1,2)]
  by (auto simp: health_step_def split: health_at.splits if_splits option.splits)

interpretation conversing_lb: conversing_system "kqueue_loop order os" kq_interest "\<lambda>k h f. True" kq_inv
  "os_kqueue order os" os "lb_task os" "lb_others os" "proxy_session os p0" "os_send_bounded os"
  "\<lambda>s h. flags_ok os p0 (lb_upstreamPool s) h" for order os p0
proof (intro conversing_system.intro conversing_system_axioms.intro growing_lb.growing_system_axioms, goal_cases)
  case 1
  show ?case by (simp add: proxy_session_def)
next
  case 2
  show ?case by (rule proxy_session_grows)
next
  case (7 s h f c h0 s' h')
  from lb_task_serves [OF 7(4,7)] obtain c' act pool where v: "serveClient os (lb_upstreamPool s) f c h = Some (c', act, pool, h')"
    "s' = postRearm f act (s\<lparr>lb_upstreamPool := pool, rx_connections := (rx_connections s)(f \<mapsto> c')\<rparr>)" .
  from v(1) 7(3,5) have "lb_serves os p0 f c h c' act h'" by (auto simp: lb_serves_def)
  from proxy_rel_serve [OF 7(1,2,6) this] v(2) show ?case by (auto simp: postRearm_def)
next
  case (8 s h f c g s' h')
  from lb_task_serves [OF 8(3,7)] obtain c' act pool where "serveClient os (lb_upstreamPool s) f c h = Some (c', act, pool, h')" .
  from serveClient_foreign [OF 8(1,5) this _ 8(6)] 8(4) show ?case by (simp add: conn_fd_def)
next
  case (9 g h a s a' s' h')
  from 9(3) show ?case using health_step_foreign [OF 9(1,2)] by (cases rule: lb_others.cases) auto
next
  case (10 s' s h h')
  with lb_more [of s' s] flags_ok_mono show ?case by metis
next
  case (11 s h h' f s')
  with lb_task_fields [OF 11(3)] flags_ok_mono flags_ok_cong show ?case by blast
next
  case (12 s h a a' s' h')
  then show ?case by (rule lb_others_flags)
qed (auto intro: kqueue_loop_silent)

subsection \<open>Properties\<close>

text \<open>A kernel with one client that sends a request in one piece and takes 60 bytes at a time.\<close>

definition asking_os :: os where
  "asking_os h c = (case c of
      Sys_recv f n \<Rightarrow>
        (if chunks f h = [] then (sys_result (int (length short_text)))\<lparr>sr_data := short_text\<rparr> else sys_error EAGAIN)
    | Sys_send f d \<Rightarrow> sys_result (min 60 (int (length d)))
    | _ \<Rightarrow> one_client_os h c)"

lemma asking_os_sound: "os_kqueue id asking_os" "os_fresh asking_os" "os_send_bounded asking_os"
  using one_client_os_sound by (simp_all add: os_kqueue_def os_fresh_def os_send_bounded_def asking_os_def)

text \<open>The first task to the end.\<close>

definition first_answer ::
    "os \<Rightarrow> 's EventLoop \<Rightarrow> ('s, 'm) handler \<Rightarrow> ('s, 'm, 'b) System \<Rightarrow> ('s, 'm, 'b) System option" where
  "first_answer os el handle y =
     (case first_task os el y of
        None \<Rightarrow> None
      | Some y1 \<Rightarrow>
          (case handle 5 (sy_rx y1) (sy_hist y1) of
             None \<Rightarrow> None
           | Some (s', h') \<Rightarrow>
               Some (y1\<lparr>sy_rx := s', sy_hist := h', sy_pool := worker_finish 0 (sy_pool y1), sy_holding := sy_holding y1 - {0}\<rparr>)))"

lemma first_answer_steps:
  assumes "first_answer os el handle y = Some y'" shows "(system_step os el handle others)\<^sup>*\<^sup>* y y'"
proof -
  from assms obtain y1 s' h' where t: "first_task os el y = Some y1" "handle 5 (sy_rx y1) (sy_hist y1) = Some (s', h')"
    and y': "y' = y1\<lparr>sy_rx := s', sy_hist := h', sy_pool := worker_finish 0 (sy_pool y1), sy_holding := sy_holding y1 - {0}\<rparr>"
    by (auto simp: first_answer_def split: option.splits)
  note f = first_task_steps [OF t(1), of handle others]
  have "at_worker y1 0 (Running 5)" "0 \<in> sy_holding y1" using f by (simp_all add: at_worker_def)
  from system_step.work [where handle = handle, OF this t(2)] f y' show ?thesis by (auto intro: rtranclp.rtrancl_into_rtrancl)
qed


definition server_answer_demo :: "(KqueueReactor HttpServer \<times> history \<times> (KqueueReactor, _, unit) System) option" where
  "server_answer_demo =
     (case HttpServer_run asking_os (kqueue_loop id asking_os) KqueueReactor_new demo_server [] of
        Inl _ \<Rightarrow> None
      | Inr (s, h) \<Rightarrow>
          (case first_answer asking_os (kqueue_loop id asking_os) (server_task asking_os) (System_new 1 () s h) of
             None \<Rightarrow> None
           | Some y \<Rightarrow> Some (s, h, y)))"

lemma server_answer_demo_ok:
  "case server_answer_demo of None \<Rightarrow> False
   | Some (s, h, y) \<Rightarrow> rx_connections (sy_rx y) 5 \<noteq> None \<and> send_errors 5 (sy_hist y) = 0 \<and> chunks 5 (sy_hist y) = [short_text]"
  by code_simp



definition lb_answer_demo :: "(KqueueReactor LoadBalancer \<times> history \<times> (KqueueReactor, _, health_at) System) option" where
  "lb_answer_demo =
     (case LoadBalancer_run asking_os (kqueue_loop id asking_os) KqueueReactor_new demo_lb [] of
        Inl _ \<Rightarrow> None
      | Inr (s, h) \<Rightarrow>
          (case first_answer asking_os (kqueue_loop id asking_os) (lb_task asking_os) (System_new 1 AtTest s h) of
             None \<Rightarrow> None
           | Some y \<Rightarrow> Some (s, h, y)))"

text \<open>The descriptor was accepted once, and nothing was read on it before.\<close>

fun accepts_fd :: "fd \<Rightarrow> syscall \<times> sysres \<Rightarrow> bool" where
  "accepts_fd f (Sys_accept g, r) \<longleftrightarrow> sr_ret r = f"
| "accepts_fd f _ \<longleftrightarrow> False"

definition one_life :: "fd \<Rightarrow> history \<Rightarrow> bool" where
  "one_life f h \<longleftrightarrow> length (filter (accepts_fd f) h) \<le> 1 \<and> chunks f (dropWhile (\<lambda>x. \<not> accepts_fd f x) h) = []"

lemma one_life_chunks:
  assumes "one_life f (k @ (Sys_accept lf, r) # h1)" "sr_ret r = f"
  shows "chunks f (k @ (Sys_accept lf, r) # h1) = chunks f k"
  using assms
proof (induction k)
  case (Cons x k)
  then show ?case by (cases "accepts_fd f x") (auto simp: one_life_def)
qed (simp add: one_life_def)

lemma lb_answer_demo_ok:
  "case lb_answer_demo of None \<Rightarrow> False
   | Some (s, h, y) \<Rightarrow> rx_connections (sy_rx y) 5 \<noteq> None \<and> send_errors 5 (sy_hist y) = 0
       \<and> chunks 5 (sy_hist y) = [short_text] \<and> one_life 5 (sy_hist y)"
  by code_simp


end
