(* ===== verification/Descriptors.thy ===== *)
theory Descriptors
  imports Pooled_Balancer
begin

section \<open>Every open descriptor is accounted for\<close>

text \<open>
  At every moment of a run the descriptors the process has open are the listening socket, the
  descriptor of the event loop and those of the connections in the table: accepting, error
  events, closes posted by workers, upstream exchanges and health probes leave nothing behind.
  The locale \<open>owning_system\<close> proves it for every event loop whose descriptor, \<open>loop_fds\<close>, the
  operations keep and whose wait opens nothing.
\<close>

locale owning_system = pooled_system el interest known inv sound os handle others
  for el :: "'s EventLoop" and interest known inv sound os and handle :: "('s, 'm) handler"
    and others :: "('s, 'm, 'b) others" +
  fixes loop_fds :: "'s \<Rightarrow> fd set"
  assumes add_fds: "el_add el f m l h = (b, l', h') \<Longrightarrow> loop_fds l' = loop_fds l"
    and modify_fds: "el_modify el f m l h = (b, l', h') \<Longrightarrow> loop_fds l' = loop_fds l"
    and remove_fds: "el_remove el f l h = (b, l', h') \<Longrightarrow> loop_fds l' = loop_fds l"
    and wait_open: "el_wait el t l h = (n, evs, l', h') \<Longrightarrow> open_fds h' = open_fds h"
begin

definition owned :: "('s, 'm) Reactor_scheme \<Rightarrow> history \<Rightarrow> bool" where
  "owned s h \<longleftrightarrow> open_fds h = insert (s_fd (rx_listenSock s)) (loop_fds (rx_eventLoop s) \<union> dom (rx_connections s))
     \<and> loop_fds (rx_eventLoop s) \<inter> dom (rx_connections s) = {}"

lemma loop_op_fds:
  "loop_modify el f m s h = (s', h') \<Longrightarrow> loop_fds (rx_eventLoop s') = loop_fds (rx_eventLoop s)"
  "loop_add el f m s h = (s', h') \<Longrightarrow> loop_fds (rx_eventLoop s') = loop_fds (rx_eventLoop s)"
  "loop_remove el f s h = (s', h') \<Longrightarrow> loop_fds (rx_eventLoop s') = loop_fds (rx_eventLoop s)"
  by (auto simp: loop_modify_def loop_add_def loop_remove_def split: prod.splits
      dest: modify_fds add_fds remove_fds)

lemma owned_modify:
  assumes "sound" "inv (rx_eventLoop s) h" "loop_modify el f m s h = (s', h')" "owned s h"
  shows "owned s' h'"
  using loop_modify_effect [OF assms(1-3)] loop_op_fds(1) [OF assms(3)] assms(4)
  by (metis (no_types, lifting) owned_def Reactor.select_convs Reactor.surjective Reactor.update_convs)

lemma owned_drop:
  assumes "sound" "inv (rx_eventLoop s) h" "rx_connections s f = Some c" "s_fd (c_sock c) = f" "0 \<le> f"
    and "f \<noteq> s_fd (rx_listenSock s)" "loop_remove el f s h = (s1, h1)" "erase_connection os f s1 h1 = (s', h')" "owned s h"
  shows "owned s' h'"
proof -
  from drop_connection_effect [OF assms(1-5,7,8)] obtain l
    where l: "s' = s\<lparr>rx_eventLoop := l, rx_connections := (rx_connections s)(f := None)\<rparr>"
      "open_fds h' = open_fds h - {f}" by metis
  have "rx_eventLoop s' = rx_eventLoop s1" using assms(8) by (auto simp: erase_connection_def)
  then have "loop_fds l = loop_fds (rx_eventLoop s)" using loop_op_fds(3) [OF assms(7)] l(1) by simp
  moreover have "f \<notin> loop_fds (rx_eventLoop s)" using assms(3,9) by (auto simp: owned_def)
  ultimately show ?thesis using assms(6,9) l by (auto simp: owned_def)
qed

lemma owned_rearm:
  assumes "sound" "tables (s\<lparr>rx_pendingRearms := (f, act) # rs\<rparr>) h busy" "applyRearm os el (f, act) (s, h) = (s', h')"
    and "owned s h"
  shows "owned s' h'"
proof -
  have T: "tables_of (rx_eventLoop s) (s_fd (rx_listenSock s)) (rx_connections s)
      (in_flight (s\<lparr>rx_pendingRearms := (f, act) # rs\<rparr>) busy) h" using assms(2) by (simp add: tables_def)
  show ?thesis
  proof (cases "rx_connections s f")
    case None
    with assms(3,4) show ?thesis by (simp add: applyRearm_def)
  next
    case (Some c)
    show ?thesis
    proof (cases act)
      case Close
      obtain s1 h1 where r: "loop_remove el f s h = (s1, h1)" by fastforce
      with Close Some assms(3) have "erase_connection os f s1 h1 = (s', h')" by (simp add: applyRearm_def)
      with owned_drop [OF assms(1) tables_inv [OF T] Some _ _ _ r _ assms(4)] tables_conn [OF T Some] show ?thesis by blast
    qed (use Some assms(3) owned_modify [OF assms(1) tables_inv [OF T] _ assms(4)] in \<open>auto simp: applyRearm_def\<close>)
  qed
qed

lemma owned_rearms:
  assumes "sound" "tables (s\<lparr>rx_pendingRearms := rs\<rparr>) h busy" "owned s h"
    and "fold (applyRearm os el) rs (s, h) = (s', h')"
  shows "owned s' h'"
  using assms(2-4)
proof (induction rs arbitrary: s h)
  case (Cons r rs)
  obtain f act where r: "r = (f, act)" by (cases r)
  obtain s1 h1 where s1: "applyRearm os el (f, act) (s, h) = (s1, h1)" by fastforce
  note p = Cons.prems(1) [unfolded r]
  have "tables (s1\<lparr>rx_pendingRearms := rs\<rparr>) h1 busy" using applyRearm_tables [OF assms(1) p s1] by blast
  from Cons.IH [OF this owned_rearm [OF assms(1) p s1 Cons.prems(2)]] Cons.prems(3) r s1 show ?case by simp
qed simp

lemma owned_poll:
  assumes "sound" "tables s h busy" "owned s h" "reactorPoll os el s h = (evs, s', h')"
  shows "owned s' h'"
proof -
  obtain s1 h1 where a: "applyPendingRearms os el s h = (s1, h1)" by fastforce
  obtain n es l h2 where w: "el_wait el 100 (rx_eventLoop s1) h1 = (n, es, l, h2)" by (metis prod_cases4)
  have t: "tables (s\<lparr>rx_pendingRearms := [], rx_pendingRearms := rx_pendingRearms s\<rparr>) h busy" using assms(2) by simp
  have "owned (s\<lparr>rx_pendingRearms := []\<rparr>) h" using assms(3) by (simp add: owned_def)
  from owned_rearms [OF assms(1) t this] a have "owned s1 h1" by (simp add: applyPendingRearms_def)
  moreover have "l = rx_eventLoop s1" using wait_keeps [OF w] by blast
  ultimately show ?thesis using assms(4) a w wait_open [OF w]
    by (auto simp: reactorPoll_def Let_def owned_def split: if_splits)
qed

lemma owned_acceptOne:
  assumes "sound" "os_fresh os" "tables s h busy" "owned s h" "acceptOne os el s h = (again, s', h')"
  shows "owned s' h'"
proof -
  let ?lf = "s_fd (rx_listenSock s)"
  obtain res h1 where a: "acceptNonBlocking os ?lf h = (res, h1)" by fastforce
  show ?thesis
  proof (cases "ar_wouldBlock res \<or> \<not> Socket_valid (ar_sock res)")
    case True
    with assms(5) a have "s' = s" "h' = h1" by (auto simp: acceptOne_def split: if_splits)
    moreover have "\<not> Socket_valid (ar_sock res)" using True acceptNonBlocking_wouldBlock [of os ?lf h] a by auto
    ultimately show ?thesis using acceptNonBlocking_none [OF assms(2) a] assms(4) by (simp add: owned_def quiet_run_def)
  next
    case False
    let ?f = "s_fd (ar_sock res)" and ?c = "Connection_new (ar_sock res)"
    let ?s1 = "s\<lparr>rx_connections := (rx_connections s)(?f \<mapsto> ?c)\<rparr>"
    obtain b h2 where d: "setTcpNoDelay os ?f h1 = (b, h2)" by fastforce
    from acceptNonBlocking_new [OF assms(2) a] False
    have f: "?f \<notin> open_fds h" "open_fds h1 = insert ?f (open_fds h)" by auto
    then have n: "rx_connections s ?f = None" "?f \<notin> loop_fds (rx_eventLoop s)" using assms(4) by (auto simp: owned_def)
    obtain s2 h4 where ad: "loop_add el ?f Readable ?s1 h2 = (s2, h4)" by fastforce
    have st: "store_connection os ?f ?c s h2 = (?s1, h2)" using n by (simp add: store_connection_def)
    from assms(5) a d st ad False have e: "s' = s2" "h' = h4" by (auto simp: acceptOne_def Let_def)
    from d have "h2 = (Sys_setsockopt ?f TCP_NODELAY, os h1 (Sys_setsockopt ?f TCP_NODELAY)) # h1"
      by (auto simp: setTcpNoDelay_def invoke_def)
    then have "open_fds h2 = insert ?f (open_fds h)" using f(2) by simp
    moreover have "open_fds h4 = open_fds h2" using ad by (auto simp: loop_add_def split: prod.splits dest: add_open)
    moreover have "rx_connections s2 = rx_connections ?s1" "rx_listenSock s2 = rx_listenSock ?s1"
      using ad by (auto simp: loop_add_def split: prod.splits)
    ultimately show ?thesis using loop_op_fds(2) [OF ad] assms(4) n unfolding e owned_def by (simp add: insert_commute)
  qed
qed

lemma owned_accept:
  assumes "sound" "os_fresh os" "tables s h busy" "owned s h" "handleAccept os el s h = Some y"
  shows "owned (fst y) (snd y)"
proof -
  have b: "batch_ok (rx_eventLoop s) h []" for s :: "('s, 'm) Reactor_scheme" and h by (simp add: batch_ok_def)
  have "os' = os \<longrightarrow> el' = el \<longrightarrow> tables s h busy \<longrightarrow> owned s h \<longrightarrow> owned (fst y) (snd y)"
    if "handleAccept os' el' s h = Some y" for os' el' and s :: "('s, 'm) Reactor_scheme" and h y
  proof (rule handleAccept.raw_induct [OF _ that, of "\<lambda>os' el' s h y. os' = os \<longrightarrow> el' = el \<longrightarrow> tables s h busy \<longrightarrow>
        owned s h \<longrightarrow> owned (fst y) (snd y)"], goal_cases)
    case (1 rec os' el' s h y)
    show ?case
    proof (intro impI)
      assume a: "os' = os" "el' = el" "tables s h busy" "owned s h"
      obtain again s1 h1 where o: "acceptOne os el s h = (again, s1, h1)" by (metis prod_cases3)
      from acceptOne_tables [OF assms(1,2) a(3) b o] owned_acceptOne [OF assms(1,2) a(3,4) o] 1 a o
      show "owned (fst y) (snd y)" by (cases again) auto
    qed
  qed
  with assms show ?thesis by blast
qed

lemma owned_event:
  assumes "sound" "os_fresh os" "tables s h busy" "owned s h" "handleEvent os el ev s h = Some (s', h')"
  shows "owned s' h'"
proof -
  let ?f = "ev_fd ev"
  have T: "tables_of (rx_eventLoop s) (s_fd (rx_listenSock s)) (rx_connections s) (in_flight s busy) h"
    using assms(3) by (simp add: tables_def)
  consider "?f = s_fd (rx_listenSock s)" | "?f \<noteq> s_fd (rx_listenSock s)" "rx_connections s ?f = None"
    | c where "?f \<noteq> s_fd (rx_listenSock s)" "rx_connections s ?f = Some c" by blast
  then show ?thesis
  proof cases
    case 1
    with assms(5) owned_accept [OF assms(1-4), of "(s', h')"] show ?thesis by (simp add: handleEvent_def)
  next
    case 2
    with assms(4,5) show ?thesis by (simp add: handleEvent_def)
  next
    case (3 c)
    obtain s1 h1 where r: "loop_remove el ?f s h = (s1, h1)" by fastforce
    obtain s2 h2 where m: "loop_modify el ?f 0 s h = (s2, h2)" by fastforce
    show ?thesis
    proof (cases "ev_error ev")
      case True
      with 3 r assms(5) have "erase_connection os ?f s1 h1 = (s', h')" by (simp add: handleEvent_def)
      with owned_drop [OF assms(1) tables_inv [OF T] 3(2) _ _ 3(1) r _ assms(4)] tables_conn [OF T 3(2)] show ?thesis by blast
    next
      case False
      with 3 m assms(5) have "s' = enqueue_task ?f s2" "h' = h2" by (auto simp: handleEvent_def)
      with owned_modify [OF assms(1) tables_inv [OF T] m assms(4)] show ?thesis by (simp add: owned_def enqueue_task_def)
    qed
  qed
qed

lemma owned_handled:
  assumes "handled f s h s' h'" "owned s h" shows "owned s' h'"
proof -
  from assms(1) have "dom (rx_connections s') = dom (rx_connections s)" by (auto simp: handled_def split: if_splits)
  with assms show ?thesis unfolding owned_def handled_def quiet_run_def by metis
qed

lemma owned_aside: "aside s h s' h' \<Longrightarrow> owned s h \<Longrightarrow> owned s' h'"
  by (simp add: aside_def owned_def quiet_run_def)

lemma owned_step:
  assumes "sound" "os_fresh os" "system_ok n y" "owned (sy_rx y) (sy_hist y)" "system_step os el handle others y y'"
  shows "owned (sy_rx y') (sy_hist y')"
proof -
  have T: "tables (sy_rx y) (sy_hist y) (running_tasks y)" using assms(3) by (simp add: system_ok_def config_of_def)
  show ?thesis
    using assms(5)
  proof (cases rule: system_step.cases)
    case (poll evs s' h')
    with owned_poll [OF assms(1) T assms(4) poll(4)] show ?thesis by simp
  next
    case (event ev evs y1)
    then obtain s' h' where "handleEvent os el ev (sy_rx y) (sy_hist y) = Some (s', h')" "sy_rx y1 = s'" "sy_hist y1 = h'"
      by (auto simp: dispatch_event_def split: option.splits)
    with owned_event [OF assms(1,2) T assms(4)] event show ?thesis by simp
  next
    case (critical i)
    with assms(4) show ?thesis by (simp add: take_section_def Let_def owned_def)
  next
    case (work i f s' h')
    obtain c where "rx_connections (sy_rx y) f = Some c" "s_fd (c_sock c) = f" by (rule running_connected [OF assms(3) work(2)])
    from handle_ok [OF assms(2) this work(4)] owned_handled assms(4) work show ?thesis by simp
  next
    case (other b s' h')
    with others_ok [OF assms(2) other(2)] owned_aside assms(4) show ?thesis by simp
  qed (use assms(4) in simp_all)
qed

lemma runs_owned:
  assumes "system_runs y y'" "sound" "os_fresh os" "system_ok n y" "owned (sy_rx y) (sy_hist y)"
  shows "owned (sy_rx y') (sy_hist y')"
  using assms(1)
proof (induction rule: rtranclp_induct)
  case base
  show ?case by (rule assms(5))
next
  case (step y y')
  from owned_step [OF assms(2,3) runs_ok [OF step(1) assms(2-4)] step(3,2)] show ?case .
qed

end

subsection \<open>The two programs on kqueue\<close>

lemma kqueue_loop_fds:
  "el_add (kqueue_loop order os) f m l h = (b, l', h') \<Longrightarrow> kq_fds l' = kq_fds l"
  "el_modify (kqueue_loop order os) f m l h = (b, l', h') \<Longrightarrow> kq_fds l' = kq_fds l"
  "el_remove (kqueue_loop order os) f l h = (b, l', h') \<Longrightarrow> kq_fds l' = kq_fds l"
  "el_wait (kqueue_loop order os) t l h = (n, evs, l', h') \<Longrightarrow> open_fds h' = open_fds h"
  by (auto simp: kqueue_loop_def kq_add_def kq_remove_def kq_wait_def kq_fds_def invoke_def Let_def
      dest: kq_modify_fds [unfolded kq_fds_def] split: if_splits)

interpretation owning_server: owning_system "kqueue_loop order os" kq_interest "\<lambda>k h f. True" kq_inv
  "os_kqueue order os" os "server_task os" server_others kq_fds for order os
  by (intro owning_system.intro owning_system_axioms.intro pooled_server.pooled_system_axioms) (fact kqueue_loop_fds)+

interpretation owning_lb: owning_system "kqueue_loop order os" kq_interest "\<lambda>k h f. True" kq_inv
  "os_kqueue order os" os "lb_task os" "lb_others os" kq_fds for order os
  by (intro owning_system.intro owning_system_axioms.intro pooled_lb.pooled_system_axioms) (fact kqueue_loop_fds)+

subsection \<open>Properties\<close>

text \<open>C12: The load balancer leaks no descriptor. In every state that the reactor thread, the workers,
  the health thread and \<open>stop()\<close> can reach together from a successful \<open>run()\<close>, the open
  descriptors are exactly the listening socket, the kqueue descriptor (when it could be made) and
  one per entry of the connection table, each entry filed under the descriptor it owns: whatever
  upstream exchanges and health probes opened is closed, and so is every client that was dropped.
  (A state is one between the steps of the system: a task, a probe or a reactor step is complete.)\<close>

theorem lb_no_leak:
  assumes "os_kqueue order os" "os_fresh os"
    and "LoadBalancer_run os (kqueue_loop order os) KqueueReactor_new (LoadBalancer_new l port pool ms) [] = Inr (s0, h0)"
    and "(system_step os (kqueue_loop order os) (lb_task os) (lb_others os))\<^sup>*\<^sup>* (System_new n AtTest s0 h0) y"
  shows "open_fds (sy_hist y) = insert (s_fd (rx_listenSock (sy_rx y)))
      (kq_fds (rx_eventLoop (sy_rx y)) \<union> dom (rx_connections (sy_rx y)))
    \<and> (\<forall>f c. rx_connections (sy_rx y) f = Some c \<longrightarrow> s_fd (c_sock c) = f)"
proof -
  note st = lb_start [OF assms(1-3)]
  have ok: "pooled_lb.system_ok n (System_new n AtTest s0 h0)" using st by (intro pooled_lb.new_ok) auto
  have "owning_lb.owned (sy_rx (System_new n AtTest s0 h0)) (sy_hist (System_new n AtTest s0 h0))"
    using st by (simp add: owning_lb.owned_def System_new_def)
  from owning_lb.runs_owned [OF assms(4,1,2) ok this]
  have "owning_lb.owned (sy_rx y) (sy_hist y)" .
  moreover have "pooled_lb.system_ok n y" by (rule pooled_lb.runs_ok [OF assms(4,1,2) ok])
  ultimately show ?thesis
    using kqueue_lb.discipline [of "sy_rx y" "sy_hist y" "sy_batch y" "running_tasks y"]
    by (auto simp: owning_lb.owned_def pooled_lb.system_ok_def config_of_def)
qed

theorem lb_no_leak_witness:
  "\<exists>s0 h0 y. (system_step one_client_os (kqueue_loop id one_client_os) (lb_task one_client_os) (lb_others one_client_os))\<^sup>*\<^sup>*
        (System_new 1 AtTest s0 h0) y \<and> at_worker y 0 (Running 5)
      \<and> open_fds (sy_hist y) = insert (s_fd (rx_listenSock (sy_rx y)))
          (kq_fds (rx_eventLoop (sy_rx y)) \<union> dom (rx_connections (sy_rx y)))"
proof -
  let ?os = one_client_os and ?el = "kqueue_loop id one_client_os"
  obtain s0 h0 y where r: "LoadBalancer_run ?os ?el KqueueReactor_new demo_lb [] = Inr (s0, h0)"
    and t: "first_task ?os ?el (System_new 1 AtTest s0 h0) = Some y" by (rule lb_system_demo_run [OF lb_system_demo_ok])
  note s = first_task_steps [OF t, of "lb_task ?os" "lb_others ?os"]
  have w: "at_worker y 0 (Running 5)" using s by (simp add: at_worker_def)
  note o = conjunct1 [OF lb_no_leak [OF one_client_os_sound r [unfolded demo_lb_def] conjunct1 [OF s]]]
  show ?thesis by (intro exI [of _ s0] exI [of _ h0] exI [of _ y] conjI conjunct1 [OF s] w o)
qed

end
