(* ===== verification/Teardown.thy ===== *)
theory Teardown
  imports Descriptors
begin

section \<open>Destroying the server and the load balancer\<close>

text \<open>
  What happens when the object goes out of scope after \<open>run()\<close> has returned: the body of the
  destructor calls \<open>stop()\<close>, then the members are destroyed in the reverse order of their
  declaration in \<open>http_server.h\<close> and \<open>load_balancer.h\<close>. That order is \<open>pendingRearms_\<close>,
  \<open>connections_\<close> (closing every client), then \<open>pool_\<close> (the flag, \<open>notify_all\<close>, the joins), then
  \<open>eventLoop_\<close> and \<open>listenSock_\<close>. The threads of the pool run until they are joined, so a task that
  is queued or running when \<open>run()\<close> returns may look its connection up, or post its re-arm
  request, in a member that no longer exists; such a use is undefined behaviour and is recorded
  as such.
\<close>

text \<open>The member that the destroying thread destroys next.\<close>

datatype stage = AtBody | AtRearms | AtTable | AtPoolFlag | AtPoolNotify | AtPoolJoin | AtLoop | AtListen | Dead

record ('s, 'm, 'b) Teardown =
  td_sys :: "('s, 'm, 'b) System"
  td_stage :: stage
  td_undefined :: bool

definition Teardown_new :: "('s, 'm, 'b) System \<Rightarrow> ('s, 'm, 'b) Teardown" where
  "Teardown_new y = \<lparr>td_sys = y, td_stage = AtBody, td_undefined = False\<rparr>"

text \<open>The destruction of the table, in the order in which it holds its entries.\<close>

fun destroy_connections ::
    "os \<Rightarrow> fd list \<Rightarrow> ('s, 'm) Reactor_scheme \<Rightarrow> history \<Rightarrow> ('s, 'm) Reactor_scheme \<times> history" where
  "destroy_connections os [] s h = (s, h)"
| "destroy_connections os (f # fs) s h =
     (let (s1, h1) = erase_connection os f s h in destroy_connections os fs s1 h1)"

definition td_update ::
    "(('s, 'm, 'b) System \<Rightarrow> ('s, 'm, 'b) System) \<Rightarrow> stage \<Rightarrow> ('s, 'm, 'b) Teardown \<Rightarrow> ('s, 'm, 'b) Teardown" where
  "td_update g st t = t\<lparr>td_sys := g (td_sys t), td_stage := st\<rparr>"

inductive destructor_step ::
    "os \<Rightarrow> (('s, 'm) Reactor_scheme \<Rightarrow> ('s, 'm) Reactor_scheme) \<Rightarrow> ('s \<Rightarrow> history \<Rightarrow> history)
     \<Rightarrow> ('s, 'm, 'b) Teardown \<Rightarrow> ('s, 'm, 'b) Teardown \<Rightarrow> bool"
  for os stop destroy_loop where
  body: "td_stage t = AtBody \<Longrightarrow>
     destructor_step os stop destroy_loop t (td_update (\<lambda>y. y\<lparr>sy_rx := stop (sy_rx y)\<rparr>) AtRearms t)"
| rearms: "td_stage t = AtRearms \<Longrightarrow>
     destructor_step os stop destroy_loop t
       (td_update (\<lambda>y. y\<lparr>sy_rx := (sy_rx y)\<lparr>rx_pendingRearms := []\<rparr>\<rparr>) AtTable t)"
| table: "td_stage t = AtTable \<Longrightarrow> distinct fs \<Longrightarrow> set fs = dom (rx_connections (sy_rx (td_sys t))) \<Longrightarrow>
     destroy_connections os fs (sy_rx (td_sys t)) (sy_hist (td_sys t)) = (s', h') \<Longrightarrow>
     destructor_step os stop destroy_loop t (td_update (\<lambda>y. y\<lparr>sy_rx := s', sy_hist := h'\<rparr>) AtPoolFlag t)"
| pool_flag: "td_stage t = AtPoolFlag \<Longrightarrow>
     destructor_step os stop destroy_loop t (td_update (\<lambda>y. y\<lparr>sy_pool := set_stop (sy_pool y)\<rparr>) AtPoolNotify t)"
| pool_notify: "td_stage t = AtPoolNotify \<Longrightarrow>
     destructor_step os stop destroy_loop t (td_update (\<lambda>y. y\<lparr>sy_pool := notify_all (sy_pool y)\<rparr>) AtPoolJoin t)"
| pool_join: "td_stage t = AtPoolJoin \<Longrightarrow> \<forall>w \<in> set (tp_workers (sy_pool (td_sys t))). w = Exited \<Longrightarrow>
     destructor_step os stop destroy_loop t (td_update (\<lambda>y. y) AtLoop t)"
| event_loop: "td_stage t = AtLoop \<Longrightarrow>
     destructor_step os stop destroy_loop t
       (td_update (\<lambda>y. y\<lparr>sy_hist := destroy_loop (rx_eventLoop (sy_rx y)) (sy_hist y)\<rparr>) AtListen t)"
| listen_sock: "td_stage t = AtListen \<Longrightarrow>
     destructor_step os stop destroy_loop t
       (td_update (\<lambda>y. y\<lparr>sy_hist := Socket_destroy os (rx_listenSock (sy_rx y)) (sy_hist y)\<rparr>) Dead t)"

text \<open>Which members still exist, and steps of the pool that touch no task.\<close>

definition table_alive :: "stage \<Rightarrow> bool" where "table_alive st \<longleftrightarrow> st \<in> {AtBody, AtRearms, AtTable}"
definition rearms_alive :: "stage \<Rightarrow> bool" where "rearms_alive st \<longleftrightarrow> st \<in> {AtBody, AtRearms}"

definition pool_only :: "('s, 'm, 'b) System \<Rightarrow> ('s, 'm, 'b) System \<Rightarrow> bool" where
  "pool_only y y' \<longleftrightarrow> sy_holding y' = sy_holding y \<and> sy_hist y' = sy_hist y
     \<and> (\<forall>i f. at_worker y i (Running f) \<longrightarrow> at_worker y' i (Running f))"

text \<open>The steps: of the destroying thread; of the workers, as long as they find what they use; and the
  use of a member that is gone. There is no other thread any more.\<close>

definition alone :: "('s, 'm, 'b) others" where "alone b s h b' s' h' \<longleftrightarrow> False"

inductive teardown_step ::
    "os \<Rightarrow> 's EventLoop \<Rightarrow> ('s, 'm) handler \<Rightarrow> (('s, 'm) Reactor_scheme \<Rightarrow> ('s, 'm) Reactor_scheme)
     \<Rightarrow> ('s \<Rightarrow> history \<Rightarrow> history) \<Rightarrow> ('s, 'm, 'b) Teardown \<Rightarrow> ('s, 'm, 'b) Teardown \<Rightarrow> bool"
  for os el handle stop destroy_loop where
  destructor: "\<not> td_undefined t \<Longrightarrow> destructor_step os stop destroy_loop t t' \<Longrightarrow>
     teardown_step os el handle stop destroy_loop t t'"
| threads: "\<not> td_undefined t \<Longrightarrow> system_step os el handle alone (td_sys t) y' \<Longrightarrow>
     rearms_alive (td_stage t) \<or> (table_alive (td_stage t) \<and> sy_rx y' = sy_rx (td_sys t)) \<or> pool_only (td_sys t) y' \<Longrightarrow>
     teardown_step os el handle stop destroy_loop t (t\<lparr>td_sys := y'\<rparr>)"
| stray: "\<not> td_undefined t \<Longrightarrow> at_worker (td_sys t) i (Running f) \<Longrightarrow>
     (if i \<in> sy_holding (td_sys t) then \<not> rearms_alive (td_stage t) else \<not> table_alive (td_stage t)) \<Longrightarrow>
     teardown_step os el handle stop destroy_loop t (t\<lparr>td_undefined := True\<rparr>)"

lemmas td_defs = td_update_def Teardown_new_def

subsection \<open>Closing the table\<close>

lemma destroy_connections_fields:
  "destroy_connections os fs s h = (s', h') \<Longrightarrow>
     rx_connections s' = (rx_connections s) |` (- set fs) \<and> rx_listenSock s' = rx_listenSock s
     \<and> rx_eventLoop s' = rx_eventLoop s \<and> rx_queue s' = rx_queue s \<and> rx_running s' = rx_running s"
proof (induction fs arbitrary: s h)
  case (Cons f fs)
  let ?s1 = "s\<lparr>rx_connections := (rx_connections s)(f := None)\<rparr>"
  obtain h1 where e: "erase_connection os f s h = (?s1, h1)" by (auto simp: erase_connection_def)
  with Cons.prems have "destroy_connections os fs ?s1 h1 = (s', h')" by simp
  from Cons.IH [OF this] show ?case by (auto simp: restrict_map_def fun_eq_iff)
qed (simp add: restrict_map_def)

lemma destroy_connections_open:
  assumes "destroy_connections os fs s h = (s', h')" "set fs \<subseteq> dom (rx_connections s)" "distinct fs"
    and "\<And>f c. rx_connections s f = Some c \<Longrightarrow> s_fd (c_sock c) = f \<and> 0 \<le> f"
  shows "open_fds h' = open_fds h - set fs"
  using assms
proof (induction fs arbitrary: s h)
  case (Cons f fs)
  let ?s1 = "s\<lparr>rx_connections := (rx_connections s)(f := None)\<rparr>"
  from Cons.prems(2) obtain c where c: "rx_connections s f = Some c" by auto
  let ?h1 = "(Sys_close f, os h (Sys_close f)) # h"
  have e: "erase_connection os f s h = (?s1, ?h1)"
    using c Cons.prems(4) [OF c] by (simp add: erase_connection_def Socket_destroy_def Socket_close_def)
  have "open_fds h' = open_fds ?h1 - set fs"
    by (rule Cons.IH [of ?s1]) (use Cons.prems e in \<open>auto split: if_splits\<close>)
  then show ?case by auto
qed simp

subsection \<open>Nothing left to serve\<close>

text \<open>The loop has ended and no task is queued or running.\<close>

definition idle_system :: "('s, 'm, 'b) System \<Rightarrow> bool" where
  "idle_system y \<longleftrightarrow> tp_queue (sy_pool y) = [] \<and> running_tasks y = [] \<and> sy_batch y = [] \<and> \<not> rx_running (sy_rx y)"

definition all_exited :: "('s, 'm, 'b) System \<Rightarrow> bool" where
  "all_exited y \<longleftrightarrow> (\<forall>w \<in> set (tp_workers (sy_pool y)). w = Exited)"

lemma idle_no_task: "idle_system y \<Longrightarrow> \<not> at_worker y i (Running f)"
  using tasks_running by (fastforce simp: idle_system_def running_tasks_def at_worker_def)

lemma tasks_update_none:
  assumes "tasks ws = []" "task_of w = None" shows "tasks (ws[i := w]) = []"
proof (cases "i < length ws")
  case True
  then have "task_of (ws ! i) = None"
    using assms(1) tasks_running [OF True] by (cases "ws ! i") auto
  from tasks_set_worker [OF True this assms(2)] assms(1) show ?thesis by simp
qed (use assms in \<open>simp add: list_update_beyond\<close>)

lemma all_exited_worker: "all_exited y \<Longrightarrow> at_worker y i w \<Longrightarrow> w = Exited"
  by (auto simp: all_exited_def at_worker_def)

text \<open>What a step of an idle system changes: the workers, and the copy of the empty queue.\<close>

lemma idle_step:
  assumes "idle_system y" "system_step os el handle alone y y'"
  shows "idle_system y' \<and> sy_hist y' = sy_hist y
    \<and> (\<exists>q. sy_rx y' = (sy_rx y)\<lparr>rx_queue := q\<rparr>) \<and> (all_exited y \<longrightarrow> all_exited y')"
proof -
  have keep: "\<exists>q. s = s\<lparr>rx_queue := q\<rparr>" for s :: "('a, 'b) Reactor_scheme" by (rule exI [of _ "rx_queue s"]) simp
  show ?thesis
    using assms(2)
  proof (cases rule: system_step.cases)
    case (critical i)
    then have "\<not> all_exited y" using all_exited_worker [of y i Ready] by auto
    moreover have "tasks ((tp_workers (sy_pool y))[i := w]) = []" if "task_of w = None" for w
      using assms(1) tasks_update_none [OF _ that] by (simp add: idle_system_def running_tasks_def)
    ultimately show ?thesis using critical assms(1)
      by (auto simp: take_section_def worker_section_def Let_def idle_system_def running_tasks_def)
  next
    case (notify i)
    then have "\<not> all_exited y" using all_exited_worker [of y i Waiting] by auto
    with notify assms(1) keep [of "sy_rx y"] show ?thesis
      by (auto simp: notify_one_def Let_def idle_system_def running_tasks_def tasks_update_none)
  next
    case (spurious i)
    then have "\<not> all_exited y" using all_exited_worker [of y i Waiting] by auto
    with spurious assms(1) keep [of "sy_rx y"] show ?thesis
      by (auto simp: worker_finish_def idle_system_def running_tasks_def tasks_update_none)
  next
    case notify_nobody
    with assms(1) keep [of "sy_rx y"] show ?thesis
      by (auto simp: notify_one_def Let_def idle_system_def running_tasks_def all_exited_def)
  qed (use assms(1) idle_no_task [OF assms(1)] in \<open>auto simp: idle_system_def alone_def\<close>)
qed

lemma open_fds_valid: "f \<in> open_fds h \<Longrightarrow> 0 \<le> f"
proof (induction h)
  case (Cons e h)
  obtain c r where "e = (c, r)" by (cases e)
  with Cons show ?case by (cases c) (auto split: if_splits)
qed simp

lemma open_fds_finite: "finite (open_fds h)"
proof (induction h)
  case (Cons e h)
  obtain c r where "e = (c, r)" by (cases e)
  with Cons show ?case by (cases c) auto
qed simp

subsection \<open>Objects that can be destroyed\<close>

locale disposable_system = owning_system el interest known inv sound os handle others loop_fds
  for el :: "'s EventLoop" and interest known inv sound os and handle :: "('s, 'm) handler"
    and others :: "('s, 'm, 'b) others" and loop_fds +
  fixes stop :: "('s, 'm) Reactor_scheme \<Rightarrow> ('s, 'm) Reactor_scheme" and destroy_loop :: "'s \<Rightarrow> history \<Rightarrow> history"
  assumes stop_aside: "aside s h (stop s) h" and stop_ends: "\<not> rx_running (stop s)"
    and destroy_open: "open_fds (destroy_loop l h) = open_fds h - loop_fds l"
begin

abbreviation step :: "('s, 'm, 'b) Teardown \<Rightarrow> ('s, 'm, 'b) Teardown \<Rightarrow> bool" where
  "step \<equiv> teardown_step os el handle stop destroy_loop"

text \<open>The descriptors that are left to close at a stage.\<close>

definition fds_left :: "stage \<Rightarrow> ('s, 'm) Reactor_scheme \<Rightarrow> fd set" where
  "fds_left st s = (if st = Dead then {} else {s_fd (rx_listenSock s)})
     \<union> (if st \<in> {AtListen, Dead} then {} else loop_fds (rx_eventLoop s)) \<union> dom (rx_connections s)"

definition closable :: "('s, 'm) Reactor_scheme \<Rightarrow> bool" where
  "closable s \<longleftrightarrow> 0 \<le> s_fd (rx_listenSock s) \<and> finite (dom (rx_connections s))
     \<and> (\<forall>f c. rx_connections s f = Some c \<longrightarrow> s_fd (c_sock c) = f \<and> 0 \<le> f)"

text \<open>The stages, with what the destroying thread has told the pool.\<close>

definition stage_ok :: "stage \<Rightarrow> ('s, 'm, 'b) System \<Rightarrow> bool" where
  "stage_ok st y \<longleftrightarrow> tp_stop (sy_pool y) = (st \<notin> {AtBody, AtRearms, AtTable, AtPoolFlag})
     \<and> tp_notify_all (sy_pool y) = (st = AtPoolNotify)
     \<and> (\<not> table_alive st \<longrightarrow> rx_connections (sy_rx y) = Map.empty)
     \<and> (st \<in> {AtLoop, AtListen, Dead} \<longrightarrow> all_exited y)"

definition clean :: "nat \<Rightarrow> ('s, 'm, 'b) Teardown \<Rightarrow> bool" where
  "clean n t \<longleftrightarrow> \<not> td_undefined t \<and> idle_system (td_sys t) \<and> pool_reach n (sy_pool (td_sys t))
     \<and> stage_ok (td_stage t) (td_sys t) \<and> closable (sy_rx (td_sys t))
     \<and> open_fds (sy_hist (td_sys t)) \<subseteq> fds_left (td_stage t) (sy_rx (td_sys t))"

lemma clean_threads:
  assumes "clean n t" "system_step os el handle alone (td_sys t) y'"
  shows "clean n (t\<lparr>td_sys := y'\<rparr>)"
proof -
  have i: "idle_system (td_sys t)" using assms(1) by (simp add: clean_def)
  from idle_step [OF i assms(2)] obtain q where s: "idle_system y'" "sy_hist y' = sy_hist (td_sys t)"
    "sy_rx y' = (sy_rx (td_sys t))\<lparr>rx_queue := q\<rparr>" "all_exited (td_sys t) \<longrightarrow> all_exited y'" by blast
  have "sy_batch (td_sys t) = []" using i by (simp add: idle_system_def)
  with system_step_pool [OF assms(2)] have p: "pool_step\<^sup>*\<^sup>* (sy_pool (td_sys t)) (sy_pool y')"
    "tp_stop (sy_pool y') = tp_stop (sy_pool (td_sys t))" "tp_notify_all (sy_pool y') = tp_notify_all (sy_pool (td_sys t))"
    by auto
  have c: "pool_reach n (sy_pool (td_sys t))" "stage_ok (td_stage t) (td_sys t)" "closable (sy_rx (td_sys t))"
    "open_fds (sy_hist (td_sys t)) \<subseteq> fds_left (td_stage t) (sy_rx (td_sys t))" "\<not> td_undefined t"
    using assms(1) by (simp_all add: clean_def)
  have "stage_ok (td_stage t) y'" using c(2) s(3,4) p(2,3) unfolding stage_ok_def by simp
  moreover have "closable (sy_rx y')" "fds_left (td_stage t) (sy_rx y') = fds_left (td_stage t) (sy_rx (td_sys t))"
    using c(3) s(3) by (simp_all add: closable_def fds_left_def)
  ultimately show ?thesis using c(4,5) s(1,2) pool_steps_reach [OF p(1) c(1)] by (simp add: clean_def)
qed

lemma clean_table:
  assumes "clean n t" "td_stage t = AtTable" "distinct fs" "set fs = dom (rx_connections (sy_rx (td_sys t)))"
    and "destroy_connections os fs (sy_rx (td_sys t)) (sy_hist (td_sys t)) = (s', h')"
  shows "clean n (td_update (\<lambda>y. y\<lparr>sy_rx := s', sy_hist := h'\<rparr>) AtPoolFlag t)"
proof -
  let ?y = "td_sys t"
  note d = destroy_connections_fields [OF assms(5)]
  have e: "rx_connections s' = Map.empty" using d assms(4) by (auto simp: restrict_map_def fun_eq_iff dom_def)
  have c: "closable (sy_rx ?y)" "open_fds (sy_hist ?y) \<subseteq> fds_left AtTable (sy_rx ?y)"
    using assms(1,2) by (auto simp: clean_def)
  have "open_fds h' = open_fds (sy_hist ?y) - dom (rx_connections (sy_rx ?y))"
    using destroy_connections_open [OF assms(5) _ assms(3)] c(1) assms(4) by (simp add: closable_def)
  then have "open_fds h' \<subseteq> fds_left AtPoolFlag s'" using c(2) conjunct2 [OF d] e by (auto simp: fds_left_def)
  moreover have "closable s'" using c(1) conjunct2 [OF d] e by (simp add: closable_def)
  ultimately show ?thesis using assms(1,2) conjunct2 [OF d] e
    by (simp add: clean_def td_update_def idle_system_def running_tasks_def stage_ok_def table_alive_def)
qed

lemma clean_destructor:
  assumes "clean n t" "destructor_step os stop destroy_loop t t'"
  shows "clean n t'"
  using assms(2)
proof (cases rule: destructor_step.cases)
  case body
  with assms(1) stop_aside [of "sy_rx (td_sys t)" "sy_hist (td_sys t)"] stop_ends [of "sy_rx (td_sys t)"] show ?thesis
    by (auto simp: clean_def td_update_def idle_system_def running_tasks_def stage_ok_def closable_def fds_left_def
        table_alive_def aside_def)
next
  case rearms
  with assms(1) show ?thesis
    by (auto simp: clean_def td_update_def idle_system_def running_tasks_def stage_ok_def closable_def fds_left_def table_alive_def)
next
  case (table fs s' h')
  with clean_table [OF assms(1)] show ?thesis by blast
next
  case pool_flag
  then have "\<not> tp_stop (sy_pool (td_sys t))" using assms(1) by (simp add: clean_def stage_ok_def)
  then have "pool_reach n (set_stop (sy_pool (td_sys t)))"
    using assms(1) pool_reach.step [OF _ pool_step.stop, of n "sy_pool (td_sys t)"] by (simp add: clean_def)
  with pool_flag assms(1) show ?thesis
    by (auto simp: clean_def td_update_def idle_system_def running_tasks_def stage_ok_def closable_def fds_left_def
        table_alive_def set_stop_def)
next
  case pool_notify
  let ?ws = "tp_workers (sy_pool (td_sys t))"
  have "tp_notify_all (sy_pool (td_sys t))" using pool_notify assms(1) by (simp add: clean_def stage_ok_def)
  then have "pool_reach n (notify_all (sy_pool (td_sys t)))"
    using assms(1) pool_reach.step [OF _ pool_step.wake_all, of n "sy_pool (td_sys t)"] by (simp add: clean_def)
  moreover have "tasks (map (\<lambda>w. if w = Waiting then Ready else w) ws) = tasks ws" for ws :: "fd worker list"
    by (induction ws) auto
  ultimately show ?thesis using pool_notify assms(1)
    by (auto simp: clean_def td_update_def idle_system_def running_tasks_def stage_ok_def closable_def fds_left_def
        table_alive_def notify_all_def)
next
  case pool_join
  with assms(1) show ?thesis
    by (auto simp: clean_def td_update_def stage_ok_def closable_def fds_left_def table_alive_def all_exited_def)
next
  case event_loop
  with assms(1) destroy_open show ?thesis
    by (auto simp: clean_def td_update_def idle_system_def running_tasks_def stage_ok_def closable_def fds_left_def
        table_alive_def all_exited_def)
next
  case listen_sock
  with assms(1) show ?thesis
    by (auto simp: clean_def td_update_def idle_system_def running_tasks_def stage_ok_def closable_def fds_left_def
        table_alive_def all_exited_def Socket_destroy_def Socket_close_def)
qed

lemma clean_step:
  assumes "clean n t" "step t t'" shows "clean n t'"
  using assms(2)
proof (cases rule: teardown_step.cases)
  case destructor
  with clean_destructor [OF assms(1)] show ?thesis by blast
next
  case (threads y')
  with clean_threads [OF assms(1)] show ?thesis by blast
next
  case (stray i f)
  with idle_no_task [of "td_sys t" i f] assms(1) show ?thesis by (simp add: clean_def)
qed

lemma clean_runs: "step\<^sup>*\<^sup>* t t' \<Longrightarrow> clean n t \<Longrightarrow> clean n t'"
  by (induction rule: rtranclp_induct) (auto intro: clean_step)

text \<open>A clean teardown can always go on to its end. At the join, every worker that has not left its loop
  can look at the empty queue and leave it.\<close>

lemma join_reached:
  assumes "clean n t" "td_stage t = AtPoolJoin"
  shows "\<exists>t'. step\<^sup>*\<^sup>* t t' \<and> td_stage t' = AtPoolJoin \<and> all_exited (td_sys t')"
  using assms
proof (induction "remaining_work (sy_pool (td_sys t))" arbitrary: t rule: less_induct)
  case less
  let ?y = "td_sys t"
  have c: "\<not> td_undefined t" "idle_system ?y" "pool_reach n (sy_pool ?y)" "tp_stop (sy_pool ?y)" "\<not> tp_notify_all (sy_pool ?y)"
    using less.prems by (simp_all add: clean_def stage_ok_def)
  show ?case
  proof (cases "all_exited ?y")
    case True
    with less.prems(2) show ?thesis by blast
  next
    case False
    with shutdown_progress [OF pool_reach_inv [OF c(3)] c(4,5)] obtain q where q: "worker_step (sy_pool ?y) q"
      by (auto simp: all_exited_def)
    then obtain i where i: "at_worker ?y i Ready" "q = worker_section i (sy_pool ?y)"
      using idle_no_task [OF c(2)] by (auto elim!: worker_stepE simp: at_worker_def)
    have s: "system_step os el handle alone ?y (take_section i ?y)" by (rule system_step.critical [OF i(1)])
    have "pool_only ?y (take_section i ?y)"
      using idle_no_task [OF c(2)] by (simp add: pool_only_def take_section_def Let_def)
    then have st: "step t (t\<lparr>td_sys := take_section i ?y\<rparr>)" using teardown_step.threads [OF c(1) s] by blast
    have "remaining_work (sy_pool (take_section i ?y)) < remaining_work (sy_pool ?y)"
      using worker_step_work [OF c(4) q] i(2) by (simp add: take_section_def Let_def)
    from less.hyps [of "t\<lparr>td_sys := take_section i ?y\<rparr>"] this clean_step [OF less.prems(1) st] less.prems(2)
    obtain t' where "step\<^sup>*\<^sup>* (t\<lparr>td_sys := take_section i ?y\<rparr>) t'" "td_stage t' = AtPoolJoin" "all_exited (td_sys t')" by auto
    with st show ?thesis by (meson converse_rtranclp_into_rtranclp)
  qed
qed

fun stages_left :: "stage \<Rightarrow> nat" where
  "stages_left AtBody = 8" | "stages_left AtRearms = 7" | "stages_left AtTable = 6" | "stages_left AtPoolFlag = 5"
| "stages_left AtPoolNotify = 4" | "stages_left AtPoolJoin = 3" | "stages_left AtLoop = 2" | "stages_left AtListen = 1"
| "stages_left Dead = 0"

lemma destructor_advances:
  assumes "clean n t" "td_stage t \<noteq> Dead" "td_stage t = AtPoolJoin \<longrightarrow> all_exited (td_sys t)"
  shows "\<exists>t'. step t t' \<and> stages_left (td_stage t') < stages_left (td_stage t)"
proof -
  have u: "\<not> td_undefined t" and f: "finite (dom (rx_connections (sy_rx (td_sys t))))"
    using assms(1) by (simp_all add: clean_def closable_def)
  have go: ?thesis if "destructor_step os stop destroy_loop t t'" "stages_left (td_stage t') < stages_left (td_stage t)" for t'
    using teardown_step.destructor [OF u that(1)] that(2) by blast
  show ?thesis
  proof (cases "td_stage t")
    case AtTable
    obtain fs where fs: "distinct fs" "set fs = dom (rx_connections (sy_rx (td_sys t)))"
      using finite_distinct_list [OF f] by blast
    obtain s' h' where d: "destroy_connections os fs (sy_rx (td_sys t)) (sy_hist (td_sys t)) = (s', h')" by fastforce
    show ?thesis by (rule go [OF destructor_step.table [OF AtTable fs d]]) (simp add: td_update_def AtTable)
  next
    case AtPoolJoin
    with assms(3) have "\<forall>w \<in> set (tp_workers (sy_pool (td_sys t))). w = Exited" by (simp add: all_exited_def)
    from go [OF destructor_step.pool_join [OF AtPoolJoin this]] AtPoolJoin show ?thesis by (simp add: td_update_def)
  next
    case AtBody
    show ?thesis by (rule go [OF destructor_step.body [OF AtBody]]) (simp add: td_update_def AtBody)
  next
    case AtRearms
    show ?thesis by (rule go [OF destructor_step.rearms [OF AtRearms]]) (simp add: td_update_def AtRearms)
  next
    case AtPoolFlag
    show ?thesis by (rule go [OF destructor_step.pool_flag [OF AtPoolFlag]]) (simp add: td_update_def AtPoolFlag)
  next
    case AtPoolNotify
    show ?thesis by (rule go [OF destructor_step.pool_notify [OF AtPoolNotify]]) (simp add: td_update_def AtPoolNotify)
  next
    case AtLoop
    show ?thesis by (rule go [OF destructor_step.event_loop [OF AtLoop]]) (simp add: td_update_def AtLoop)
  next
    case AtListen
    show ?thesis by (rule go [OF destructor_step.listen_sock [OF AtListen]]) (simp add: td_update_def AtListen)
  qed (use assms(2) in simp)
qed

lemma clean_ends:
  assumes "clean n t" shows "\<exists>t'. step\<^sup>*\<^sup>* t t' \<and> td_stage t' = Dead"
  using assms
proof (induction "stages_left (td_stage t)" arbitrary: t rule: less_induct)
  case less
  show ?case
  proof (cases "td_stage t = Dead")
    case False
    obtain t1 where t1: "step\<^sup>*\<^sup>* t t1" "td_stage t1 = td_stage t" "td_stage t1 = AtPoolJoin \<longrightarrow> all_exited (td_sys t1)"
      using join_reached [OF less.prems] by (cases "td_stage t = AtPoolJoin") auto
    from destructor_advances [OF clean_runs [OF t1(1) less.prems] _ t1(3)] False t1(2) obtain t2
      where t2: "step t1 t2" "stages_left (td_stage t2) < stages_left (td_stage t)" by auto
    from less.hyps [OF t2(2) clean_step [OF clean_runs [OF t1(1) less.prems] t2(1)]] t1(1) t2(1) show ?thesis
      by (meson converse_rtranclp_into_rtranclp rtranclp_trans)
  qed blast
qed

text \<open>The state that \<open>run()\<close> leaves behind.\<close>

lemma system_closable:
  assumes "system_ok n y" "owned (sy_rx y) (sy_hist y)"
  shows "closable (sy_rx y)" "open_fds (sy_hist y) = fds_left AtBody (sy_rx y)"
proof -
  have T: "tables_of (rx_eventLoop (sy_rx y)) (s_fd (rx_listenSock (sy_rx y))) (rx_connections (sy_rx y))
      (in_flight (sy_rx y) (running_tasks y)) (sy_hist y)"
    using assms(1) by (simp add: system_ok_def config_of_def tables_def)
  have o: "s_fd (rx_listenSock (sy_rx y)) \<in> open_fds (sy_hist y)" "dom (rx_connections (sy_rx y)) \<subseteq> open_fds (sy_hist y)"
    using assms(2) by (auto simp: owned_def)
  show "closable (sy_rx y)"
    using tables_conn [OF T] open_fds_valid [OF o(1)] finite_subset [OF o(2) open_fds_finite] by (simp add: closable_def)
  show "open_fds (sy_hist y) = fds_left AtBody (sy_rx y)" using assms(2) by (simp add: owned_def fds_left_def)
qed

lemma begins_clean:
  assumes "system_ok n y" "owned (sy_rx y) (sy_hist y)" "idle_system y"
  shows "clean n (Teardown_new y)"
proof -
  have "pool_reach n (sy_pool y)" "\<not> tp_stop (sy_pool y)" using assms(1) by (simp_all add: system_ok_def)
  moreover then have "\<not> tp_notify_all (sy_pool y)" using pool_reach_inv by (auto simp: pool_inv_def)
  ultimately show ?thesis using system_closable [OF assms(1,2)] assms(3)
    by (simp add: clean_def Teardown_new_def stage_ok_def table_alive_def)
qed

text \<open>A task that is running when \<open>run()\<close> returns outlives the connection it serves.\<close>

lemma task_outlives_table:
  assumes "system_ok n y" "owned (sy_rx y) (sy_hist y)" "at_worker y i (Running f)"
  shows "\<exists>t. step\<^sup>*\<^sup>* (Teardown_new y) t \<and> at_worker (td_sys t) i (Running f)
    \<and> rx_connections (sy_rx (td_sys t)) f = None \<and> f \<notin> open_fds (sy_hist (td_sys t))
    \<and> step t (t\<lparr>td_undefined := True\<rparr>)"
proof -
  let ?t0 = "Teardown_new y :: ('s, 'm, 'b) Teardown"
  let ?t1 = "td_update (\<lambda>y. y\<lparr>sy_rx := stop (sy_rx y)\<rparr>) AtRearms ?t0"
  let ?t2 = "td_update (\<lambda>y. y\<lparr>sy_rx := (sy_rx y)\<lparr>rx_pendingRearms := []\<rparr>\<rparr>) AtTable ?t1"
  let ?s2 = "sy_rx (td_sys ?t2)"
  have c2: "rx_connections ?s2 = rx_connections (sy_rx y)" "sy_hist (td_sys ?t2) = sy_hist y" "\<not> td_undefined ?t2"
    "sy_pool (td_sys ?t2) = sy_pool y" "td_stage ?t2 = AtTable"
    using stop_aside [of "sy_rx y" "sy_hist y"] by (simp_all add: td_defs aside_def)
  have cl: "finite (dom (rx_connections ?s2))" "\<And>g c. rx_connections ?s2 g = Some c \<Longrightarrow> s_fd (c_sock c) = g \<and> 0 \<le> g"
    using system_closable(1) [OF assms(1,2)] c2(1) by (auto simp: closable_def)
  obtain fs where fs: "distinct fs" "set fs = dom (rx_connections ?s2)" using finite_distinct_list [OF cl(1)] by blast
  obtain s' h' where d: "destroy_connections os fs ?s2 (sy_hist (td_sys ?t2)) = (s', h')" by fastforce
  let ?t3 = "td_update (\<lambda>y. y\<lparr>sy_rx := s', sy_hist := h'\<rparr>) AtPoolFlag ?t2"
  have "step ?t0 ?t1" by (intro teardown_step.destructor destructor_step.body) (simp_all add: td_defs)
  moreover have "step ?t1 ?t2" by (intro teardown_step.destructor destructor_step.rearms) (simp_all add: td_defs)
  moreover have "step ?t2 ?t3" by (rule teardown_step.destructor [OF c2(3) destructor_step.table [OF c2(5) fs d]])
  ultimately have run: "step\<^sup>*\<^sup>* ?t0 ?t3" by (meson converse_rtranclp_into_rtranclp rtranclp.rtrancl_refl)
  obtain c where "rx_connections (sy_rx y) f = Some c" by (rule running_connected [OF assms(1,3)])
  then have f: "f \<in> set fs" using fs(2) c2(1) by auto
  have gone: "rx_connections s' f = None" "f \<notin> open_fds h'"
    using destroy_connections_fields [OF d] destroy_connections_open [OF d _ fs(1) cl(2)] fs(2) f by auto
  have w: "at_worker (td_sys ?t3) i (Running f)" using assms(3) c2(4) by (simp add: at_worker_def td_update_def)
  have "step ?t3 (?t3\<lparr>td_undefined := True\<rparr>)"
    by (rule teardown_step.stray [OF _ w]) (use c2(3) in \<open>simp_all add: td_update_def table_alive_def rearms_alive_def\<close>)
  with run w gone show ?thesis by (intro exI [of _ ?t3]) (simp add: td_update_def)
qed

end

subsection \<open>The two programs\<close>

lemma KqueueReactor_destroy_open: "open_fds (KqueueReactor_destroy os k h) = open_fds h - kq_fds k"
  by (simp add: KqueueReactor_destroy_def kq_fds_def)

interpretation disposable_server: disposable_system "kqueue_loop order os" kq_interest "\<lambda>k h f. True" kq_inv
  "os_kqueue order os" os "server_task os" server_others kq_fds HttpServer_stop "KqueueReactor_destroy os" for order os
  by (intro disposable_system.intro disposable_system_axioms.intro owning_server.owning_system_axioms
      KqueueReactor_destroy_open) (simp_all add: HttpServer_stop_def reactor_stop_def aside_def)

interpretation disposable_lb: disposable_system "kqueue_loop order os" kq_interest "\<lambda>k h f. True" kq_inv
  "os_kqueue order os" os "lb_task os" "lb_others os" kq_fds LoadBalancer_stop "KqueueReactor_destroy os" for order os
  by (intro disposable_system.intro disposable_system_axioms.intro owning_lb.owning_system_axioms
      KqueueReactor_destroy_open) (simp_all add: LoadBalancer_stop_def aside_def Let_def)

text \<open>What a run of the server establishes for its destruction.\<close>

lemma server_run_ok:
  assumes "os_kqueue order os" "os_fresh os"
    and "HttpServer_run os (kqueue_loop order os) KqueueReactor_new (HttpServer_new l port router) [] = Inr (s0, h0)"
    and "(system_step os (kqueue_loop order os) (server_task os) server_others)\<^sup>*\<^sup>* (System_new n () s0 h0) y"
  shows "pooled_server.system_ok n y" "owning_server.owned (sy_rx y) (sy_hist y)"
proof -
  note st = server_start [OF assms(1-3)]
  have ok: "pooled_server.system_ok n (System_new n () s0 h0)" using st by (intro pooled_server.new_ok) auto
  show "pooled_server.system_ok n y" by (rule pooled_server.runs_ok [OF assms(4,1,2) ok])
  have "owning_server.owned (sy_rx (System_new n () s0 h0)) (sy_hist (System_new n () s0 h0))"
    using st by (simp add: owning_server.owned_def System_new_def)
  from owning_server.runs_owned [OF assms(4,1,2) ok this] show "owning_server.owned (sy_rx y) (sy_hist y)" .
qed

subsection \<open>Properties\<close>

text \<open>C15: Destroying a server with nothing left to serve is clean. If \<open>run()\<close> has returned and no task
  is queued or running, then however the destructor and the workers interleave, no member is used
  after it was destroyed; the destruction can always be brought to its end; and at the end every
  worker has left its loop and every descriptor the process ever opened is closed.\<close>

theorem server_teardown_clean:
  assumes "os_kqueue order os" "os_fresh os"
    and "HttpServer_run os (kqueue_loop order os) KqueueReactor_new (HttpServer_new l port router) [] = Inr (s0, h0)"
    and "(system_step os (kqueue_loop order os) (server_task os) server_others)\<^sup>*\<^sup>* (System_new n () s0 h0) y"
    and "idle_system y"
    and "(teardown_step os (kqueue_loop order os) (server_task os) HttpServer_stop (KqueueReactor_destroy os))\<^sup>*\<^sup>*
           (Teardown_new y) t"
  shows "\<not> td_undefined t
    \<and> (td_stage t = Dead \<longrightarrow> open_fds (sy_hist (td_sys t)) = {} \<and> all_exited (td_sys t))
    \<and> (\<exists>t'. (teardown_step os (kqueue_loop order os) (server_task os) HttpServer_stop (KqueueReactor_destroy os))\<^sup>*\<^sup>* t t'
          \<and> td_stage t' = Dead)"
proof -
  have "disposable_server.clean n (Teardown_new y)"
    by (rule disposable_server.begins_clean [OF server_run_ok [OF assms(1-4)] assms(5)])
  then have c: "disposable_server.clean n t" by (rule disposable_server.clean_runs [OF assms(6)])
  then have "td_stage t = Dead \<longrightarrow> open_fds (sy_hist (td_sys t)) = {} \<and> all_exited (td_sys t)" "\<not> td_undefined t"
    by (auto simp: disposable_server.clean_def disposable_server.stage_ok_def disposable_server.fds_left_def table_alive_def)
  with disposable_server.clean_ends [OF c] show ?thesis by blast
qed

theorem server_teardown_clean_witness:
  "\<exists>s0 h0 (y :: (KqueueReactor, unit HttpServer_ext, unit) System) t. HttpServer_run one_client_os (kqueue_loop id one_client_os) KqueueReactor_new demo_server [] = Inr (s0, h0)
     \<and> open_fds (sy_hist y) \<noteq> {}
     \<and> (teardown_step one_client_os (kqueue_loop id one_client_os) (server_task one_client_os) HttpServer_stop
           (KqueueReactor_destroy one_client_os))\<^sup>*\<^sup>* (Teardown_new y) t
     \<and> td_stage t = Dead \<and> open_fds (sy_hist (td_sys t)) = {}"
proof -
  let ?os = one_client_os and ?el = "kqueue_loop id one_client_os"
  obtain s0 h0 y1 where r: "HttpServer_run ?os ?el KqueueReactor_new demo_server [] = Inr (s0, h0)"
    by (rule system_demo_run [OF system_demo_ok])
  let ?start = "System_new 1 () s0 h0" and ?y = "(System_new 1 () s0 h0)\<lparr>sy_rx := HttpServer_stop s0\<rparr>"
  note r' = r [unfolded demo_server_def]
  have "server_others (sy_others ?start) (sy_rx ?start) (sy_hist ?start) () (HttpServer_stop s0) h0"
    by (simp add: System_new_def server_others.stop)
  from system_step.other [where others = server_others and y = ?start, OF this] have "system_step ?os ?el (server_task ?os) server_others ?start ?y" by (simp add: System_new_def)
  then have run: "(system_step ?os ?el (server_task ?os) server_others)\<^sup>*\<^sup>* ?start ?y" by blast
  have idle: "idle_system ?y"
    by (simp add: idle_system_def running_tasks_def System_new_def ThreadPool_new_def HttpServer_stop_def reactor_stop_def)
  have ne: "open_fds (sy_hist ?y) \<noteq> {}" using server_start [OF one_client_os_sound r'] by (simp add: System_new_def)
  note clean = server_teardown_clean [OF one_client_os_sound r' run idle]
  obtain t where t: "(teardown_step ?os ?el (server_task ?os) HttpServer_stop (KqueueReactor_destroy ?os))\<^sup>*\<^sup>* (Teardown_new ?y) t"
    "td_stage t = Dead" using clean [OF rtranclp.rtrancl_refl] by blast
  have "open_fds (sy_hist (td_sys t)) = {}" using clean [OF t(1)] t(2) by blast
  then show ?thesis
    by (intro exI [of _ s0] exI [of _ h0] exI [of _ ?y] exI [of _ t] conjI r ne t)
qed

text \<open>C36: Destroying a server while it serves is not. The pool is declared before the table of
  connections and the deque of re-arm requests, so these are destroyed first. For every state in
  which a task is running when \<open>run()\<close> returns there is a run of the destructor that closes the
  connection of that task and destroys the table while the worker is still in
  \<open>handleConnectionEvent\<close>, whose next use of a member is undefined.\<close>

theorem server_teardown_race:
  assumes "os_kqueue order os" "os_fresh os"
    and "HttpServer_run os (kqueue_loop order os) KqueueReactor_new (HttpServer_new l port router) [] = Inr (s0, h0)"
    and "(system_step os (kqueue_loop order os) (server_task os) server_others)\<^sup>*\<^sup>* (System_new n () s0 h0) y"
    and "\<not> rx_running (sy_rx y)" "sy_batch y = []" "at_worker y i (Running f)"
  shows "\<exists>t. (teardown_step os (kqueue_loop order os) (server_task os) HttpServer_stop (KqueueReactor_destroy os))\<^sup>*\<^sup>*
           (Teardown_new y) t
    \<and> at_worker (td_sys t) i (Running f) \<and> rx_connections (sy_rx (td_sys t)) f = None
    \<and> f \<notin> open_fds (sy_hist (td_sys t))
    \<and> teardown_step os (kqueue_loop order os) (server_task os) HttpServer_stop (KqueueReactor_destroy os) t
        (t\<lparr>td_undefined := True\<rparr>)"
  by (rule disposable_server.task_outlives_table [OF server_run_ok [OF assms(1-4)] assms(7)])

theorem server_teardown_race_witness:
  "\<exists>(y :: (KqueueReactor, unit HttpServer_ext, unit) System) t. at_worker y 0 (Running 5) \<and> rx_connections (sy_rx y) 5 \<noteq> None
     \<and> (teardown_step one_client_os (kqueue_loop id one_client_os) (server_task one_client_os) HttpServer_stop
           (KqueueReactor_destroy one_client_os))\<^sup>*\<^sup>* (Teardown_new y) t
     \<and> at_worker (td_sys t) 0 (Running 5) \<and> rx_connections (sy_rx (td_sys t)) 5 = None
     \<and> 5 \<notin> open_fds (sy_hist (td_sys t))"
proof -
  let ?os = one_client_os and ?el = "kqueue_loop id one_client_os"
  obtain s0 h0 y1 where r: "HttpServer_run ?os ?el KqueueReactor_new demo_server [] = Inr (s0, h0)"
    and t1: "first_task ?os ?el (System_new 1 () s0 h0) = Some y1"
    by (rule system_demo_run [OF system_demo_ok])
  note r' = r [unfolded demo_server_def]
  note s = first_task_steps [OF t1, of "server_task ?os" server_others]
  let ?y = "y1\<lparr>sy_rx := HttpServer_stop (sy_rx y1), sy_hist := sy_hist y1, sy_others := ()\<rparr>"
  have "system_step ?os ?el (server_task ?os) server_others y1 ?y"
    by (rule system_step.other) (simp add: server_others.stop)
  with s have run: "(system_step ?os ?el (server_task ?os) server_others)\<^sup>*\<^sup>* (System_new 1 () s0 h0) ?y"
    by (meson rtranclp.rtrancl_into_rtrancl)
  have w: "at_worker ?y 0 (Running 5)" using s by (simp add: at_worker_def)
  have e: "\<not> rx_running (sy_rx ?y)" "sy_batch ?y = []"
    using first_task_batch [OF t1] by (simp_all add: HttpServer_stop_def reactor_stop_def)
  have c: "rx_connections (sy_rx ?y) 5 \<noteq> None"
    using pooled_server.worker_discipline [OF server_run_ok(1) [OF one_client_os_sound r' run], of 0 5] w by blast
  from server_teardown_race [OF one_client_os_sound r' run e w] obtain t
    where "(teardown_step ?os ?el (server_task ?os) HttpServer_stop (KqueueReactor_destroy ?os))\<^sup>*\<^sup>* (Teardown_new ?y) t"
      "at_worker (td_sys t) 0 (Running 5)" "rx_connections (sy_rx (td_sys t)) 5 = None" "5 \<notin> open_fds (sy_hist (td_sys t))"
    by blast
  then show ?thesis by (intro exI [of _ ?y] exI [of _ t] conjI w c)
qed

end
