(* ===== verification/Reactor_Progress.thy ===== *)
theory Reactor_Progress
  imports Concurrency
begin

section \<open>The reactor's iterations end\<close>

text \<open>
  The only loop of the reactor thread whose length the program does not bound is the one in
  \<open>handleAccept\<close>, which goes on while the kernel has pending clients. With finitely many clients
  it ends, and with it every iteration of \<open>reactorLoop\<close>, on both backends. The measure is the
  number of clients not accepted yet.
\<close>

text \<open>The successful accepts of a history.\<close>

fun accepted :: "syscall \<times> sysres \<Rightarrow> bool" where
  "accepted (Sys_accept f, r) \<longleftrightarrow> 0 \<le> sr_ret r"
| "accepted _ \<longleftrightarrow> False"

definition accepts :: "history \<Rightarrow> nat" where
  "accepts h = length (filter accepted h)"

lemma accepts_simps [simp]:
  "accepts [] = 0" "accepts (e # h) = (if accepted e then Suc (accepts h) else accepts h)"
  by (simp_all add: accepts_def)

text \<open>A kernel that has at most \<open>n\<close> clients in all.\<close>

definition os_clients :: "nat \<Rightarrow> os \<Rightarrow> bool" where
  "os_clients n os \<longleftrightarrow> (\<forall>h f. n \<le> accepts h \<longrightarrow> sr_ret (os h (Sys_accept f)) < 0)"

lemma call_accepts [simp]:
  "accepts (snd (setNonBlocking os f h)) = accepts h" "accepts (snd (setTcpNoDelay os f h)) = accepts h"
  "accepts (snd (store_connection os f c s h)) = accepts h"
  by (simp_all add: setNonBlocking_def setTcpNoDelay_def store_connection_def Socket_destroy_def Socket_close_def
      Let_def invoke_def split: option.split)

text \<open>What the registration of a new client must not do: accept another.\<close>

locale accepting_loop =
  fixes el :: "'s EventLoop"
  assumes add_accepts: "accepts (snd (snd (el_add el f m s h))) = accepts h"
begin

lemma loop_add_accepts: "accepts (snd (loop_add el f m s h)) = accepts h"
  using add_accepts [of f m "rx_eventLoop s" h] by (simp add: loop_add_def case_prod_beta)

lemma acceptOne_again:
  assumes "os_clients n os" "acceptOne os el s h = (True, s', h')"
  shows "accepts h < n \<and> accepts h' = Suc (accepts h)"
proof -
  let ?r = "os h (Sys_accept (s_fd (rx_listenSock s)))"
  have ok: "0 \<le> sr_ret ?r"
    using assms(2) by (auto simp: acceptOne_def acceptNonBlocking_def invoke_def Let_def AcceptResult_new_def
        Socket_new_def Socket_valid_def split: if_splits)
  with assms(1) have "accepts h < n" unfolding os_clients_def by (meson linorder_not_less)
  moreover have "accepts (snd (acceptNonBlocking os (s_fd (rx_listenSock s)) h)) = Suc (accepts h)"
    using ok by (simp add: acceptNonBlocking_def invoke_def Let_def case_prod_beta)
  then have "accepts (snd (snd (acceptOne os el s h))) = Suc (accepts h)"
    by (simp add: acceptOne_def Let_def case_prod_beta loop_add_accepts)
  ultimately show ?thesis using assms(2) by simp
qed

lemma handleAccept_returns:
  assumes "os_clients n os" shows "\<exists>y. handleAccept os el s h = Some y"
proof (induction "n - accepts h" arbitrary: s h rule: less_induct)
  case less
  obtain again s1 h1 where a: "acceptOne os el s h = (again, s1, h1)" by (metis prod_cases3)
  show ?case
  proof (cases again)
    case True
    with acceptOne_again [OF assms] a have "n - accepts h1 < n - accepts h" by fastforce
    with less obtain y where "handleAccept os el s1 h1 = Some y" by blast
    with a True show ?thesis by (simp add: handleAccept.simps [of os el s h])
  qed (simp add: a handleAccept.simps [of os el s h])
qed

lemma handleEvents_return: "os_clients n os \<Longrightarrow> \<exists>y. handleEvents os el evs s h = Some y"
proof (induction evs arbitrary: s h)
  case (Cons ev evs)
  obtain s1 h1 where "handleEvent os el ev s h = Some (s1, h1)"
    using handleAccept_returns [OF Cons.prems, of s h] by (force simp: handleEvent_def Let_def case_prod_beta)
  with Cons show ?case by simp
qed simp

lemma iteration_returns: "os_clients n os \<Longrightarrow> \<exists>y. reactorIteration os el s h = Some y"
  using handleEvents_return by (simp add: reactorIteration_def Let_def case_prod_beta)

end

interpretation kqueue_accept: accepting_loop "kqueue_loop order os" for order os
  by unfold_locales (simp add: kqueue_loop_def kq_add_def kq_modify_def Let_def invoke_def)

interpretation epoll_accept: accepting_loop "epoll_loop os" for os
  by unfold_locales (simp add: epoll_loop_def epoll_add_def Let_def invoke_def)

text \<open>C25: An iteration of the reactor returns. When only finitely many clients ever connect, the
  accept loop ends and so does every iteration of \<open>reactorLoop\<close>, whatever the state, the pending
  re-arms and the events of the wait, on kqueue and on epoll.\<close>

theorem reactor_iteration_returns:
  assumes "os_clients n os"
  shows "(\<exists>s' h'. reactorIteration os (kqueue_loop order os) s h = Some (s', h'))
    \<and> (\<exists>t' g'. reactorIteration os (epoll_loop os) t g = Some (t', g'))"
  using kqueue_accept.iteration_returns [OF assms, of order os s h] epoll_accept.iteration_returns [OF assms, of os t g]
  by auto

lemma one_client_os_clients: "os_clients 1 one_client_os"
proof -
  have "list_ex is_accept h" if "1 \<le> accepts h" for h
  proof -
    have "is_accept e" if "accepted e" for e
      using that by (cases e rule: accepted.cases) auto
    then show ?thesis using that by (induction h) (auto split: if_splits)
  qed
  then show ?thesis by (auto simp: os_clients_def one_client_os_def)
qed

theorem reactor_iteration_returns_witness:
  "\<exists>s' h'. reactorIteration one_client_os (kqueue_loop id one_client_os) demo_server [] = Some (s', h')"
  using reactor_iteration_returns [OF one_client_os_clients, of id demo_server "[]" epoll_server "[]"] by blast

end
