(* ===== verification/Stop_Progress.thy ===== *)
theory Stop_Progress
  imports Shutdown Reactor_Progress
begin

section \<open>A stop ends the program\<close>

text \<open>
  A run of a program is an infinite sequence of states, each reached from the one before by a step
  of \<open>main_step\<close> (signals can always arrive, so no run gets stuck). A run is fair to a thread when
  the thread is not passed over for ever: if from some point on it could always take a step, it
  takes one. In every run that is fair to the watcher and to the main thread, a stop requested
  while the loop runs brings \<open>main\<close> to its end, whatever the workers do and however many signals
  arrive. The locale is \<open>ending\<close>.
\<close>

subsection \<open>Fair runs\<close>

definition run_of :: "('a \<Rightarrow> 'a \<Rightarrow> bool) \<Rightarrow> (nat \<Rightarrow> 'a) \<Rightarrow> bool" where
  "run_of step \<sigma> \<longleftrightarrow> (\<forall>i. step (\<sigma> i) (\<sigma> (Suc i)))"

definition fair_to :: "('a \<Rightarrow> 'a \<Rightarrow> bool) \<Rightarrow> (nat \<Rightarrow> 'a) \<Rightarrow> bool" where
  "fair_to act \<sigma> \<longleftrightarrow> (\<forall>i. (\<forall>j \<ge> i. \<exists>m. act (\<sigma> j) m) \<longrightarrow> (\<exists>j \<ge> i. act (\<sigma> j) (\<sigma> (Suc j))))"

lemma run_invariant:
  assumes "run_of step \<sigma>" "\<And>m m'. step m m' \<Longrightarrow> I m \<Longrightarrow> I m'" "I (\<sigma> i)" "i \<le> j"
  shows "I (\<sigma> j)"
  using assms(4) by (induction j rule: dec_induct) (use assms(1-3) in \<open>auto simp: run_of_def\<close>)

text \<open>A measure that no step increases and that a thread decreases whenever it acts reaches 0.\<close>

lemma fair_progress:
  fixes \<mu> :: "'a \<Rightarrow> nat"
  assumes "run_of step \<sigma>" "fair_to act \<sigma>"
    and "\<And>m m'. step m m' \<Longrightarrow> I m \<Longrightarrow> I m' \<and> \<mu> m' \<le> \<mu> m"
    and "\<And>m. I m \<Longrightarrow> 0 < \<mu> m \<Longrightarrow> \<exists>m'. act m m'"
    and "\<And>m m'. I m \<Longrightarrow> 0 < \<mu> m \<Longrightarrow> act m m' \<Longrightarrow> \<mu> m' < \<mu> m"
    and "I (\<sigma> i)"
  shows "\<exists>j \<ge> i. I (\<sigma> j) \<and> \<mu> (\<sigma> j) = 0"
  using assms(6)
proof (induction "\<mu> (\<sigma> i)" arbitrary: i rule: less_induct)
  case less
  have inv: "I (\<sigma> j)" if "i \<le> j" for j using run_invariant [of step \<sigma> I, OF assms(1) _ less.prems that] assms(3) by blast
  show ?case
  proof (cases "\<exists>j \<ge> i. \<mu> (\<sigma> j) < \<mu> (\<sigma> i)")
    case True
    then obtain j where j: "i \<le> j" "\<mu> (\<sigma> j) < \<mu> (\<sigma> i)" by blast
    from less.hyps [OF j(2) inv [OF j(1)]] j(1) show ?thesis by (meson order_trans)
  next
    case False
    have le: "\<mu> (\<sigma> j) \<le> \<mu> (\<sigma> i)" if "i \<le> j" for j
      using that
    proof (induction j rule: dec_induct)
      case (step j)
      have "\<mu> (\<sigma> (Suc j)) \<le> \<mu> (\<sigma> j)" using assms(1,3) inv [OF step(1)] by (auto simp: run_of_def)
      with step show ?case by simp
    qed simp
    show ?thesis
    proof (cases "\<mu> (\<sigma> i) = 0")
      case True
      with less.prems show ?thesis by blast
    next
      case pos: False
      have gt: "0 < \<mu> (\<sigma> j)" if "i \<le> j" for j
      proof -
        have "\<mu> (\<sigma> i) \<le> \<mu> (\<sigma> j)" using False that by (simp add: not_less)
        with pos show ?thesis by simp
      qed
      then have en: "\<forall>j \<ge> i. \<exists>m. act (\<sigma> j) m" using assms(4) inv by blast
      with assms(2) obtain j where j: "i \<le> j" "act (\<sigma> j) (\<sigma> (Suc j))" unfolding fair_to_def by blast
      have "\<mu> (\<sigma> (Suc j)) < \<mu> (\<sigma> j)" by (rule assms(5) [OF inv [OF j(1)] gt [OF j(1)] j(2)])
      also have "\<dots> \<le> \<mu> (\<sigma> i)" by (rule le [OF j(1)])
      finally have False using False j(1) by (meson le_SucI)
      then show ?thesis ..
    qed
  qed
qed

subsection \<open>The steps of one thread\<close>

definition watcher_acts ::
    "(('s, 'm) Reactor_scheme \<Rightarrow> ('s, 'm) Reactor_scheme) \<Rightarrow> ('s, 'm) Main \<Rightarrow> ('s, 'm) Main \<Rightarrow> bool" where
  "watcher_acts stop m m' \<longleftrightarrow>
     mn_watcher m = Polling \<and> m' = watcherTest m \<or> mn_watcher m = Leaving \<and> m' = watcherStop stop m"

text \<open>The main thread, in \<open>run()\<close> and after it.\<close>

inductive main_acts ::
    "os \<Rightarrow> 's EventLoop \<Rightarrow> ('s, 'm) run_fun \<Rightarrow> ('s, 'm) Main \<Rightarrow> ('s, 'm) Main \<Rightarrow> bool"
  for os el run where
  start: "mn_phase m = BeforeLoop \<Longrightarrow> mn_config m = (s, h, [], []) \<Longrightarrow> run s h = Inr (s', h') \<Longrightarrow>
     main_acts os el run m (m\<lparr>mn_phase := InLoop, mn_config := (s', h', [], [])\<rparr>)"
| no_start: "mn_phase m = BeforeLoop \<Longrightarrow> mn_config m = (s, h, [], []) \<Longrightarrow> run s h = Inl (BindFailed, s', h') \<Longrightarrow>
     main_acts os el run m (m\<lparr>mn_phase := Returned, mn_config := (s', h', [], [])\<rparr>)"
| poll: "mn_phase m = InLoop \<Longrightarrow> mn_config m = (s, h, [], busy) \<Longrightarrow> rx_running s \<Longrightarrow> reactorPoll os el s h = (evs, s', h') \<Longrightarrow>
     main_acts os el run m (m\<lparr>mn_config := (s', h', evs, busy)\<rparr>)"
| event: "mn_phase m = InLoop \<Longrightarrow> mn_config m = (s, h, ev # evs, busy) \<Longrightarrow> handleEvent os el ev s h = Some (s', h') \<Longrightarrow>
     main_acts os el run m (m\<lparr>mn_config := (s', h', evs, busy)\<rparr>)"
| loop_end: "mn_phase m = InLoop \<Longrightarrow> mn_config m = (s, h, [], busy) \<Longrightarrow> \<not> rx_running s \<Longrightarrow>
     main_acts os el run m (m\<lparr>mn_phase := Returned\<rparr>)"
| tell_watcher: "mn_phase m = Returned \<Longrightarrow>
     main_acts os el run m (m\<lparr>mn_watcherShouldExit := True, mn_phase := Joining\<rparr>)"
| join: "mn_phase m = Joining \<Longrightarrow> mn_watcher m = Finished \<Longrightarrow> main_acts os el run m (m\<lparr>mn_phase := Exiting\<rparr>)"

lemma main_acts_step: "main_acts os el run m m' \<Longrightarrow> main_step os el run stop handle m m'"
proof (induction rule: main_acts.induct)
  case (poll m s h busy evs s' h')
  have "thread_step os el handle (mn_config m) (s', h', evs, busy)" unfolding poll(2) by (rule thread_step.poll [OF poll(3,4)])
  with poll(1) show ?case by (rule main_step.threads)
next
  case (event m s h ev evs busy s' h')
  have "thread_step os el handle (mn_config m) (s', h', evs, busy)" unfolding event(2) by (rule thread_step.event [OF event(3)])
  with event(1) show ?case by (rule main_step.threads)
qed (blast intro: main_step.intros)+

subsection \<open>Programs that end\<close>

locale ending = stoppable os el run stop handle
  for os :: os and el :: "'s EventLoop" and run :: "('s, 'm) run_fun" and stop and handle :: "('s, 'm) handler" +
  fixes finite_clients :: bool
  assumes events_return: "finite_clients \<Longrightarrow> \<exists>y. handleEvent os el ev (s :: ('s, 'm) Reactor_scheme) h = Some y"
begin

text \<open>First the watcher: it is in its loop, past it, or done.\<close>

definition stop_coming :: "('s, 'm) Main \<Rightarrow> bool" where
  "stop_coming m \<longleftrightarrow> mn_phase m \<noteq> BeforeLoop \<and> mn_stopRequested m
     \<and> (mn_watcher m = Finished \<longrightarrow> mn_phase m = InLoop \<longrightarrow> \<not> rx_running (fst (mn_config m)))"

definition watcher_left :: "('s, 'm) Main \<Rightarrow> nat" where
  "watcher_left m = (case mn_watcher m of Polling \<Rightarrow> 2 | Leaving \<Rightarrow> 1 | Finished \<Rightarrow> 0)"

lemma stop_coming_step:
  "step m m' \<Longrightarrow> stop_coming m \<Longrightarrow> stop_coming m' \<and> watcher_left m' \<le> watcher_left m"
proof (induction rule: main_step.induct)
  case (threads m c)
  then show ?case using thread_running [OF threads(2)] by (simp add: stop_coming_def watcher_left_def)
next
  case (watch_end m)
  obtain s h evs busy where "mn_config m = (s, h, evs, busy)" by (metis prod.collapse)
  with watch_end stop_clears show ?case by (simp add: stop_coming_def watcher_left_def main_ops)
qed (auto simp: stop_coming_def watcher_left_def main_ops split: watcher.splits)

lemma watcher_enabled: "0 < watcher_left m \<Longrightarrow> \<exists>m'. watcher_acts stop m m'"
  by (cases "mn_watcher m") (auto simp: watcher_left_def watcher_acts_def)

lemma watcher_progress:
  "stop_coming m \<Longrightarrow> 0 < watcher_left m \<Longrightarrow> watcher_acts stop m m' \<Longrightarrow> watcher_left m' < watcher_left m"
  by (auto simp: stop_coming_def watcher_left_def watcher_acts_def main_ops split: prod.splits)

text \<open>Then the main thread, with the flag cleared: the batch, the end of the loop, and the join.\<close>

definition stopped :: "('s, 'm) Main \<Rightarrow> bool" where
  "stopped m \<longleftrightarrow> mn_phase m \<noteq> BeforeLoop \<and> mn_watcher m = Finished
     \<and> (mn_phase m = InLoop \<longrightarrow> \<not> rx_running (fst (mn_config m)))"

definition main_left :: "('s, 'm) Main \<Rightarrow> nat" where
  "main_left m = (case mn_phase m of InLoop \<Rightarrow> 3 + length (fst (snd (snd (mn_config m)))) | Returned \<Rightarrow> 2 | Joining \<Rightarrow> 1 | _ \<Rightarrow> 0)"

lemma stopped_step: "step m m' \<Longrightarrow> stopped m \<Longrightarrow> stopped m' \<and> main_left m' \<le> main_left m"
proof (induction rule: main_step.induct)
  case (threads m c)
  then show ?case using thread_running [OF threads(2)] thread_batch [OF threads(2)]
    by (simp add: stopped_def main_left_def)
qed (auto simp: stopped_def main_left_def main_ops split: phase.splits)

lemma main_enabled:
  assumes "finite_clients" "stopped m" "0 < main_left m" shows "\<exists>m'. main_acts os el run m m'"
proof (cases "mn_phase m")
  case InLoop
  obtain s h evs busy where c: "mn_config m = (s, h, evs, busy)" by (metis prod.collapse)
  show ?thesis
  proof (cases evs)
    case Nil
    with InLoop c assms(2) main_acts.loop_end [of m s h busy] show ?thesis by (auto simp: stopped_def)
  next
    case (Cons ev es)
    obtain y where "handleEvent os el ev s h = Some y" using events_return [OF assms(1), of ev s h] by blast
    with InLoop c Cons main_acts.event [of m s h ev es busy] show ?thesis by (cases y) blast
  qed
next
  case Returned
  with main_acts.tell_watcher show ?thesis by blast
next
  case Joining
  with assms(2) have "mn_watcher m = Finished" by (simp add: stopped_def)
  from main_acts.join [OF Joining this] show ?thesis by blast
qed (use assms(2,3) in \<open>auto simp: stopped_def main_left_def\<close>)

lemma main_progress: "stopped m \<Longrightarrow> 0 < main_left m \<Longrightarrow> main_acts os el run m m' \<Longrightarrow> main_left m' < main_left m"
  by (erule main_acts.cases) (auto simp: stopped_def main_left_def)

lemma exiting_stays: "step m m' \<Longrightarrow> mn_phase m = Exiting \<Longrightarrow> mn_phase m' = Exiting"
  by (induction rule: main_step.induct) (auto simp: main_ops split: prod.splits)

lemma stop_ends:
  assumes "finite_clients" "run_of step \<sigma>" "fair_to (watcher_acts stop) \<sigma>" "fair_to (main_acts os el run) \<sigma>"
    and "mn_phase (\<sigma> i) = InLoop" "mn_stopRequested (\<sigma> i)" "mn_watcher (\<sigma> i) \<noteq> Finished"
  shows "\<exists>n \<ge> i. \<forall>j \<ge> n. mn_phase (\<sigma> j) = Exiting"
proof -
  have "stop_coming (\<sigma> i)" using assms(5-7) by (simp add: stop_coming_def)
  from fair_progress [of step \<sigma> "watcher_acts stop" stop_coming watcher_left, OF assms(2,3) stop_coming_step watcher_enabled watcher_progress this]
  obtain j where j: "i \<le> j" "stop_coming (\<sigma> j)" "watcher_left (\<sigma> j) = 0" by blast
  then have "stopped (\<sigma> j)" by (auto simp: stopped_def stop_coming_def watcher_left_def split: watcher.splits)
  from fair_progress [of step \<sigma> "main_acts os el run" stopped main_left, OF assms(2,4) stopped_step main_enabled [OF assms(1)] main_progress this]
  obtain n where n: "j \<le> n" "stopped (\<sigma> n)" "main_left (\<sigma> n) = 0" by blast
  then have e: "mn_phase (\<sigma> n) = Exiting" by (auto simp: stopped_def main_left_def split: phase.splits)
  have "mn_phase (\<sigma> k) = Exiting" if "n \<le> k" for k
    using run_invariant [of step \<sigma> "\<lambda>m. mn_phase m = Exiting", OF assms(2) exiting_stays e that] .
  with j(1) n(1) show ?thesis by (meson order_trans)
qed

end

subsection \<open>Both programs, on both backends\<close>

context accepting_loop
begin

lemma event_returns: "os_clients n os \<Longrightarrow> \<exists>y. handleEvent os el ev s h = Some y"
  using handleEvents_return [of n os "[ev]" s h] by (auto split: option.splits)

end

interpretation server_ends_kqueue: ending os "kqueue_loop order os" "HttpServer_run os (kqueue_loop order os) create"
    HttpServer_stop "server_task os" "os_clients n os" for order os create n
  by (intro ending.intro ending_axioms.intro server_main.stoppable_axioms kqueue_accept.event_returns)

interpretation server_ends_epoll: ending os "epoll_loop os" "HttpServer_run os (epoll_loop os) create"
    HttpServer_stop "server_task os" "os_clients n os" for os create n
  by (intro ending.intro ending_axioms.intro server_main.stoppable_axioms epoll_accept.event_returns)

interpretation lb_ends_kqueue: ending os "kqueue_loop order os" "LoadBalancer_run os (kqueue_loop order os) create"
    LoadBalancer_stop "lb_task os" "os_clients n os" for order os create n
  by (intro ending.intro ending_axioms.intro lb_main.stoppable_axioms kqueue_accept.event_returns)

interpretation lb_ends_epoll: ending os "epoll_loop os" "LoadBalancer_run os (epoll_loop os) create"
    LoadBalancer_stop "lb_task os" "os_clients n os" for os create n
  by (intro ending.intro ending_axioms.intro lb_main.stoppable_axioms epoll_accept.event_returns)

subsection \<open>Properties\<close>

text \<open>C26: A stop request ends the server. When finitely many clients connect, in every infinite run of
  \<open>main\<close>, its watcher, the workers and the arrival of signals that is fair to the watcher thread and
  to the main thread: if at some point a stop has been requested while the loop runs and the
  watcher has not finished, then from some later point on \<open>main\<close> has left \<open>run()\<close>, joined the watcher
  and is past the join, for ever.\<close>

theorem server_stop_ends:
  assumes "os_clients n os"
    and "run_of (server_main_step os (kqueue_loop order os) create) \<sigma>" "fair_to (watcher_acts HttpServer_stop) \<sigma>"
      "fair_to (main_acts os (kqueue_loop order os) (HttpServer_run os (kqueue_loop order os) create)) \<sigma>"
    and "mn_phase (\<sigma> i) = InLoop" "mn_stopRequested (\<sigma> i)" "mn_watcher (\<sigma> i) \<noteq> Finished"
  shows "\<exists>k \<ge> i. \<forall>j \<ge> k. mn_phase (\<sigma> j) = Exiting"
  by (rule server_ends_kqueue.stop_ends [OF assms(1) assms(2) [unfolded server_main_step_def] assms(3-7)])

text \<open>A run: the stop was requested, the watcher sees it and stops the server, the loop ends, the watcher
  is told and joined, and from then on signals arrive that change nothing.\<close>

definition demo_main_run :: "nat \<Rightarrow> (KqueueReactor, _) Main" where
  "demo_main_run i =
     (let m0 = \<lparr>mn_stopRequested = True, mn_watcherShouldExit = False, mn_watcher = Polling, mn_phase = InLoop,
                mn_config = (demo_server\<lparr>rx_running := True\<rparr>, [], [], [])\<rparr>;
          m1 = watcherTest m0; m2 = watcherStop HttpServer_stop m1; m3 = m2\<lparr>mn_phase := Returned\<rparr>;
          m4 = m3\<lparr>mn_watcherShouldExit := True, mn_phase := Joining\<rparr>; m5 = m4\<lparr>mn_phase := Exiting\<rparr>
      in if i = 0 then m0 else if i = 1 then m1 else if i = 2 then m2 else if i = 3 then m3 else if i = 4 then m4 else m5)"

lemma demo_main_run_end:
  "4 < i \<Longrightarrow> demo_main_run (Suc i) = demo_main_run i \<and> mn_watcher (demo_main_run i) = Finished
     \<and> mn_phase (demo_main_run i) = Exiting \<and> mn_stopRequested (demo_main_run i)"
  by (simp add: demo_main_run_def main_ops)

lemma demo_main_run_steps: "run_of (main_step os el run HttpServer_stop handle) demo_main_run"
  unfolding run_of_def
proof
  fix i :: nat
  let ?step = "main_step os el run HttpServer_stop handle"
  consider "i = 0" | "i = 1" | "i = 2" | "i = 3" | "i = 4" | "4 < i" by linarith
  then show "?step (demo_main_run i) (demo_main_run (Suc i))"
  proof cases
    case 1
    have "?step (demo_main_run 0) (watcherTest (demo_main_run 0))"
      by (rule main_step.watch) (simp add: demo_main_run_def)
    then show ?thesis unfolding 1 by (simp add: demo_main_run_def Let_def)
  next
    case 2
    have "?step (demo_main_run 1) (watcherStop HttpServer_stop (demo_main_run 1))"
      by (rule main_step.watch_end) (simp add: demo_main_run_def main_ops)
    then show ?thesis unfolding 2 by (simp add: demo_main_run_def Let_def)
  next
    case 3
    have "?step (demo_main_run 2) ((demo_main_run 2)\<lparr>mn_phase := Returned\<rparr>)"
      by (rule main_step.loop_end) (auto simp: demo_main_run_def main_ops HttpServer_stop_def reactor_stop_def)
    then show ?thesis unfolding 3 by (simp add: demo_main_run_def Let_def)
  next
    case 4
    have "?step (demo_main_run 3) ((demo_main_run 3)\<lparr>mn_watcherShouldExit := True, mn_phase := Joining\<rparr>)"
      by (rule main_step.tell_watcher) (simp add: demo_main_run_def main_ops)
    then show ?thesis unfolding 4 by (simp add: demo_main_run_def Let_def)
  next
    case 5
    have "?step (demo_main_run 4) ((demo_main_run 4)\<lparr>mn_phase := Exiting\<rparr>)"
      by (rule main_step.join) (simp_all add: demo_main_run_def main_ops)
    then show ?thesis unfolding 5 by (simp add: demo_main_run_def Let_def)
  next
    case 6
    have "handleSignal (demo_main_run i) = demo_main_run i" using demo_main_run_end [OF 6] by (simp add: handleSignal_def)
    with demo_main_run_end [OF 6] main_step.signal [of os el run HttpServer_stop handle "demo_main_run i"] show ?thesis by simp
  qed
qed

lemma demo_main_run_fair:
  "fair_to (watcher_acts stop) demo_main_run" "fair_to (main_acts os el run) demo_main_run"
proof -
  have a: "\<not> watcher_acts stop (demo_main_run (i + 5)) m" "\<not> main_acts os el run (demo_main_run (i + 5)) m" for i m
    using demo_main_run_end [of "i + 5"] by (auto simp: watcher_acts_def elim: main_acts.cases)
  show "fair_to (watcher_acts stop) demo_main_run" "fair_to (main_acts os el run) demo_main_run"
    unfolding fair_to_def using a by (meson le_add1)+
qed

theorem server_stop_ends_witness:
  "\<exists>k. \<forall>j \<ge> k. mn_phase (demo_main_run j) = Exiting"
proof -
  let ?os = one_client_os
  have "run_of (server_main_step ?os (kqueue_loop id ?os) KqueueReactor_new) demo_main_run"
    unfolding server_main_step_def by (rule demo_main_run_steps)
  from server_stop_ends [OF one_client_os_clients this demo_main_run_fair, of 0] show ?thesis
    by (simp add: demo_main_run_def)
qed

text \<open>The same on epoll, and for the load balancer.\<close>

lemma server_stop_ends_epoll:
  assumes "os_clients n os"
    and "run_of (server_main_step os (epoll_loop os) create) \<sigma>" "fair_to (watcher_acts HttpServer_stop) \<sigma>"
      "fair_to (main_acts os (epoll_loop os) (HttpServer_run os (epoll_loop os) create)) \<sigma>"
    and "mn_phase (\<sigma> i) = InLoop" "mn_stopRequested (\<sigma> i)" "mn_watcher (\<sigma> i) \<noteq> Finished"
  shows "\<exists>k \<ge> i. \<forall>j \<ge> k. mn_phase (\<sigma> j) = Exiting"
  by (rule server_ends_epoll.stop_ends [OF assms(1) assms(2) [unfolded server_main_step_def] assms(3-7)])

lemma lb_stop_ends:
  assumes "os_clients n os"
    and "run_of (lb_main_step os (kqueue_loop order os) create) \<sigma>" "fair_to (watcher_acts LoadBalancer_stop) \<sigma>"
      "fair_to (main_acts os (kqueue_loop order os) (LoadBalancer_run os (kqueue_loop order os) create)) \<sigma>"
    and "mn_phase (\<sigma> i) = InLoop" "mn_stopRequested (\<sigma> i)" "mn_watcher (\<sigma> i) \<noteq> Finished"
  shows "\<exists>k \<ge> i. \<forall>j \<ge> k. mn_phase (\<sigma> j) = Exiting"
  by (rule lb_ends_kqueue.stop_ends [OF assms(1) assms(2) [unfolded lb_main_step_def] assms(3-7)])

end
