(* ===== verification/Pool_Races.thy ===== *)
theory Pool_Races
  imports Upstream_Pool
begin

section \<open>Selection while health checks run\<close>

text \<open>
  \<open>pickNext\<close> takes no lock: the health thread may change flags between two loads of one scan.
  Here a scan is given the list as it is at each load, \<open>seen i\<close> for the \<open>i\<close>-th; \<open>Upstream_Pool\<close> is
  the case of a list that stands still.
\<close>

function pick_racing :: "(nat \<Rightarrow> Upstream list) \<Rightarrow> nat \<Rightarrow> nat \<Rightarrow> nat \<Rightarrow> nat option" where
  "pick_racing seen start cnt i =
     (if i < cnt
      then (let j = (start + i) mod cnt
            in if u_healthy (seen i ! j) then Some j else pick_racing seen start cnt (Suc i))
      else None)"
  by pat_completeness auto
termination by (relation "measure (\<lambda>(seen, start, cnt, i). cnt - i)") auto

declare pick_racing.simps [simp del]

definition pickNext_racing :: "(nat \<Rightarrow> Upstream list) \<Rightarrow> UpstreamPool \<Rightarrow> nat option \<times> UpstreamPool" where
  "pickNext_racing seen p =
     (let cnt = length (up_upstreams p)
      in if cnt = 0 then (None, p)
         else (let start = unat (up_nextIndex p) mod cnt;
                   p' = p\<lparr>up_nextIndex := up_nextIndex p + 1\<rparr>
               in (pick_racing seen start cnt 0, p')))"

lemma pick_racing_still: "pick_racing (\<lambda>_. us) start cnt i = pick_loop us start cnt i"
  by (induction us start cnt i rule: pick_loop.induct)
     (simp add: pick_racing.simps pick_loop.simps Let_def)

lemma pick_racing_Some:
  "pick_racing seen start cnt i = Some j \<Longrightarrow> \<exists>k. i \<le> k \<and> k < cnt \<and> j = (start + k) mod cnt \<and> u_healthy (seen k ! j)"
proof (induction seen start cnt i rule: pick_racing.induct)
  case (1 seen start cnt i)
  then show ?case
    by (cases "i < cnt \<and> u_healthy (seen i ! ((start + i) mod cnt))")
       (auto simp: pick_racing.simps [of seen start cnt i] Let_def split: if_splits dest: Suc_leD)
qed

lemma pick_racing_None:
  "pick_racing seen start cnt i = None \<Longrightarrow> i \<le> k \<Longrightarrow> k < cnt \<Longrightarrow> \<not> u_healthy (seen k ! ((start + k) mod cnt))"
proof (induction seen start cnt i rule: pick_racing.induct)
  case (1 seen start cnt i)
  then show ?case
    by (cases "k = i") (auto simp: pick_racing.simps [of seen start cnt i] Let_def split: if_splits)
qed

lemma pickNext_racing_None:
  assumes "fst (pickNext_racing seen p) = None" "j < length (up_upstreams p)"
  shows "\<exists>k < length (up_upstreams p). \<not> u_healthy (seen k ! j)"
proof -
  let ?n = "length (up_upstreams p)"
  have n: "0 < ?n" using assms(2) by (rule le_less_trans [OF le0])
  obtain k where "k < ?n" "(unat (up_nextIndex p) mod ?n + k) mod ?n = j"
    using mod_onto [OF assms(2), of "unat (up_nextIndex p) mod ?n"] n by auto
  with pick_racing_None [of seen "unat (up_nextIndex p) mod ?n" ?n 0 k] assms(1) n show ?thesis
    by (auto simp: pickNext_racing_def Let_def split: if_splits)
qed

text \<open>C33: Selection while health checks change flags. Whatever the flags are at each load, a
  selected upstream was healthy when its flag was read; an upstream that is healthy throughout
  keeps the selection from failing; the rotation advances by one; and with flags that stand still
  the result is \<open>pickNext\<close>'s. The guarantee in the header, \<open>nullptr\<close> only if every upstream is
  unhealthy, does not survive the race: there are flags, at every moment one upstream healthy,
  for which the scan finds none.\<close>

theorem pick_under_races:
  "(fst (pickNext_racing seen p) = Some j \<longrightarrow>
      j < length (up_upstreams p) \<and> (\<exists>k < length (up_upstreams p).
        j = (unat (up_nextIndex p) mod length (up_upstreams p) + k) mod length (up_upstreams p) \<and> u_healthy (seen k ! j)))
   \<and> (j < length (up_upstreams p) \<and> (\<forall>k < length (up_upstreams p). u_healthy (seen k ! j)) \<longrightarrow>
      fst (pickNext_racing seen p) \<noteq> None)
   \<and> snd (pickNext_racing seen p) = snd (pickNext p)
   \<and> pickNext_racing (\<lambda>_. up_upstreams p) p = pickNext p
   \<and> (\<exists>seen'. (\<forall>k. map u_host (seen' k) = [''a'', ''b''] \<and> list_ex u_healthy (seen' k))
        \<and> fst (pickNext_racing seen' (UpstreamPool_new [(''a'', 1), (''b'', 1)])) = None)"
proof -
  let ?a = "Upstream_new ''a'' 1" and ?b = "Upstream_new ''b'' 1"
  let ?flip = "\<lambda>k :: nat. if k = 0 then [?a\<lparr>u_healthy := False\<rparr>, ?b] else [?a, ?b\<lparr>u_healthy := False\<rparr>]"
  have "fst (pickNext_racing ?flip (UpstreamPool_new [(''a'', 1), (''b'', 1)])) = None"
    by (simp add: pickNext_racing_def UpstreamPool_new_def pick_racing.simps Upstream_new_def Let_def)
  moreover have "\<forall>k. map u_host (?flip k) = [''a'', ''b''] \<and> list_ex u_healthy (?flip k)"
    by (simp add: Upstream_new_def)
  ultimately have "\<exists>seen'. (\<forall>k. map u_host (seen' k) = [''a'', ''b''] \<and> list_ex u_healthy (seen' k))
      \<and> fst (pickNext_racing seen' (UpstreamPool_new [(''a'', 1), (''b'', 1)])) = None" by (intro exI [of _ ?flip] conjI)
  moreover have "fst (pickNext_racing seen p) = Some j \<Longrightarrow>
      j < length (up_upstreams p) \<and> (\<exists>k < length (up_upstreams p).
        j = (unat (up_nextIndex p) mod length (up_upstreams p) + k) mod length (up_upstreams p) \<and> u_healthy (seen k ! j))"
    by (auto simp: pickNext_racing_def Let_def split: if_splits dest!: pick_racing_Some)
  moreover have "snd (pickNext_racing seen p) = snd (pickNext p)" "pickNext_racing (\<lambda>_. up_upstreams p) p = pickNext p"
    by (simp_all add: pickNext_racing_def pickNext_def pick_racing_still Let_def)
  ultimately show ?thesis using pickNext_racing_None [of seen p j] by blast
qed

theorem pick_under_races_witness:
  "fst (pickNext_racing (\<lambda>k. if k = 0 then [(Upstream_new ''a'' 1)\<lparr>u_healthy := False\<rparr>, Upstream_new ''b'' 1]
        else [Upstream_new ''a'' 1, Upstream_new ''b'' 1]) (UpstreamPool_new [(''a'', 1), (''b'', 1)])) \<noteq> None"
  using pick_under_races [of "\<lambda>k. if k = 0 then [(Upstream_new ''a'' 1)\<lparr>u_healthy := False\<rparr>, Upstream_new ''b'' 1]
        else [Upstream_new ''a'' 1, Upstream_new ''b'' 1]" "UpstreamPool_new [(''a'', 1), (''b'', 1)]" 1]
  by (simp add: UpstreamPool_new_def Upstream_new_def)

end
