(* ===== verification/Spec2Isabelle.thy ===== *)
theory Spec2Isabelle
  imports Conversations Teardown Stop_Progress Pool_Races
begin

text \<open>
  \<^bold>\<open>A verification of the HTTP server and the load balancer.\<close>

  The repository has two programs in C++17. The server (\<open>src/server\<close>) answers HTTP/1.1 requests
  from a routing table; the load balancer (\<open>src/loadbalancer\<close>) forwards each request to one of a
  list of such servers, chosen round robin among those whose last health check succeeded. Both
  are built on \<open>src/net\<close>: sockets, the event loop with an epoll and a kqueue backend, connections,
  the HTTP parsers and a thread pool. One reactor thread owns the event loop and the listening
  socket; it switches a ready descriptor off and queues it for a worker; the worker reads, parses,
  answers and posts a re-arm request, which the reactor applies at its next turn.

  \<^bold>\<open>Theories and sources.\<close>

  \<^item> \<open>Prelude\<close> names machine types and holds the collections and list lemmas; \<open>Cxx_Std\<close> models what
    the sources use of the standard library (\<open>find\<close>, \<open>substr\<close>, \<open>strtol\<close>, \<open>atoi\<close>, \<open>to_string\<close>,
    \<open>strcasecmp\<close>, \<open>getline\<close>).
  \<^item> \<open>Http_Message\<close>, \<open>Http_Parser\<close>: \<open>include/net/http_message.h\<close>, \<open>http_parser.h\<close> and
    \<open>src/net/http_parser.cpp\<close>. A parser is a record of the class's fields, each block of \<open>process\<close> a
    function that either returns a status or falls through to the next block.
    \<open>Parser_Incremental\<close>: parsing in pieces is parsing at once. \<open>Parser_Roundtrip\<close>: what the
    parsers accept is well formed, and both read back printed text.
  \<^item> \<open>Posix\<close>: a system call is a value, the kernel a function from the history of calls to the
    result of the next. Everything the programs do to the outside is the history they leave. What
    is assumed of the kernel is stated as named predicates (\<open>os_fresh\<close>, \<open>os_send_bounded\<close>, and
    \<open>os_epoll\<close>, \<open>os_kqueue\<close> for the two multiplexers), each with an instance in the witnesses.
  \<^item> \<open>Socket\<close> (\<open>src/net/socket.cpp\<close>), \<open>Connection\<close> (\<open>connection.h\<close>, \<open>connection.cpp\<close>), \<open>Router\<close>
    (\<open>src/server/router.cpp\<close>), \<open>Upstream_Pool\<close> (\<open>src/loadbalancer/upstream_pool.cpp\<close>); \<open>Pool_Races\<close> is the
    selection with flags that change between two loads.
  \<^item> \<open>Event_Loop\<close>: the contract of \<open>net::EventLoop\<close> as two locales, \<open>event_loop\<close> and
    \<open>gated_event_loop\<close> (a mask of 0 silences a descriptor). \<open>Epoll_Reactor\<close> interprets the first,
    \<open>Kqueue_Reactor\<close> both.
  \<^item> \<open>Reactor\<close>: the reactor thread, written once for the two classes that have it
    (\<open>HttpServer\<close> and \<open>LoadBalancer\<close> extend its record). \<open>Http_Server\<close> and \<open>Load_Balancer\<close> add the
    workers \<open>handleConnectionEvent\<close> and \<open>handleClientEvent\<close>, the proxy and the lifecycle;
    \<open>Response_Reader\<close> is the receive loop that the proxy and \<open>Health_Checker\<close> share.
  \<^item> \<open>Thread_Pool\<close> (\<open>src/net/thread_pool.cpp\<close>) as a state machine at the granularity of its mutex.
  \<^item> \<open>Reactor_Safety\<close>: reactor and workers interleaved, with the dispatch discipline proved in the
    locale \<open>reactor_system\<close>; \<open>Concurrency\<close> interprets it for both programs on kqueue and has the run
    that breaks the discipline on epoll. \<open>Reactor_Progress\<close>: iterations of the reactor return
    (locale \<open>accepting_loop\<close>, interpreted on both backends).
  \<^item> \<open>Mains\<close> and \<open>Shutdown\<close>: the two \<open>main.cpp\<close>, flags and routes in the one, and in the other
    signals, watcher thread and \<open>run()\<close> as a step relation (locale \<open>stoppable\<close>, interpreted on both
    programs). \<open>Stop_Progress\<close>: infinite runs that are fair to the watcher and to the main thread
    (locale \<open>ending\<close>, interpreted on both programs and both backends).
  \<^item> \<open>Session\<close>: a connection over its whole life against a specification that reads the same pieces
    and answers each at once, with partial writes, blocked sockets and other threads in between
    (locale \<open>session_system\<close>). \<open>Proxy_Session\<close>: the same for a client of the balancer, whose
    specification is a relation between the pieces read and the history of calls, since the answers
    depend on the upstreams: each request is answered from the exchange found in the history right
    after the request was read. \<open>Conversations\<close> (locale \<open>conversing_system\<close>) takes both to the
    programs with all their threads.
  \<^item> \<open>Pooled_System\<close>: the reactor over the real thread pool (locale \<open>pooled_system\<close>), which refines
    the system of \<open>Reactor_Safety\<close>; \<open>Growing_History\<close> (locale \<open>growing_system\<close>): its history of calls only
    grows. \<open>Pooled_Balancer\<close> adds the health thread and \<open>stop()\<close> with its join; \<open>Upstream_Flags\<close> says which
    probes of a history the health flags stand for. \<open>Descriptors\<close> (locale \<open>owning_system\<close>) accounts for every open descriptor of such a run.
    \<open>Teardown\<close> (locale \<open>disposable_system\<close>) is the destruction of the object while workers still
    run: \<open>~HttpServer\<close>, \<open>~LoadBalancer\<close> and the members in reverse order of declaration
    (\<open>http_server.h\<close>, \<open>load_balancer.h\<close>). All are interpreted on both programs.
  \<^item> This theory: the components composed, from a client through the balancer and a worker node's
    parser, router and printer back to the client, and a health check against a live node.

  \<^bold>\<open>What is shown.\<close> Parsing: chunking does not matter, round trips, well-formedness of what is
  accepted, bounds of \<open>Content-Length\<close>, behaviour after an error. Connections and sockets: bytes
  leave in order and once, a descriptor has one owner and is closed by it, once and while it is
  open, no leaks on any error path, and re-arm actions that fit the state a worker leaves. Dispatch: on kqueue no connection is dispatched
  twice at a time or destroyed under a worker, for any interleaving, and the same holds when tasks
  go through the pool with all its waits and wake-ups and, for the balancer, beside the health
  thread; no descriptor is ever leaked. Conversations: every client gets the answers to its requests,
  in order and nothing else, however reads and writes are cut and whatever the other threads do,
  from the server and from the balancer, whose responses are those read from a configured upstream in
  the exchange made for that request, or a 502 for a failure the history shows. Proxying: the forwarded
  request is read as exactly one request, the answer is relayed byte for byte, every failure is a
  502. Selection: \<open>pickNext\<close> is the first healthy upstream in rotation, fair until the 64-bit
  counter wraps, after a round of probes only upstreams whose probe in that round succeeded are
  picked, and in a run every flag is the initial one or the verdict of a probe of that run. Threads:
  tasks are taken once and in order, no wake-up is lost, shutdown drains the queue. Lifecycle: a
  stop during the loop ends the program in every fair run, and destroying an idle server closes
  everything. Several theorems record where the code falls short of its comments: the server keeps connections it announced to close, epoll error events destroy
  connections workers hold, the balancer relays \<open>Connection: close\<close> and keeps the connection, a
  pick can miss the one healthy upstream while flags change, a stop before \<open>run()\<close> can be lost, the
  destruction of a busy server takes the table of connections away from running workers, a failed parser
  answers Complete.

  \<^bold>\<open>Loops and fuel.\<close> No definition has fuel. Loops bounded by data are \<open>fun\<close> or \<open>function\<close> with a
  measure (the write loops: bytes left; the scan of the pool: upstreams left). The accept loop
  and the receive loop end only if the kernel lets them, so they are \<open>partial_function (option)\<close>;
  that they return is proved from finitely many clients (\<open>Reactor_Progress\<close>) and from a peer that
  stops delivering (\<open>Response_Reader\<close>, \<open>Load_Balancer\<close>). The outer loops (\<open>reactorLoop\<close>, \<open>workerLoop\<close>,
  the watcher) are step relations; the health loop runs over the values its flag is found to have.

  \<^bold>\<open>Not modelled.\<close> Log output and sleeping; the \<open>sockaddr\<close> bytes (an address is its text); signals
  other than the two that stop the programs, in particular SIGPIPE; interleaving of system calls
  inside one worker task, one probe or one reactor step (so the account of descriptors is one of the
  states between them); failures of \<open>kevent\<close> other than the deletion of an absent filter, which
  \<open>os_kqueue\<close> excludes; a destructor's run beside a task that keeps
  using destroyed members (it ends as undefined behaviour); pipelining, which the parser's header
  excludes, beyond the fact that bytes after a request are dropped; in the theorems on the proxy,
  the flags change only between two picks (\<open>Pool_Races\<close> has the other case); exhaustion of memory or
  threads; the tests, the build file and the demo script, which only use the code above. \<open>int\<close> and \<open>ssize_t\<close> results of system calls are
  integers, sizes of strings naturals; ports, masks, \<open>size_t\<close> counters and flags are words.
\<close>

section \<open>The components together\<close>

text \<open>
  A worker node as its peers see it: on a connection that waits for a request, a text that
  arrives in one read makes the node send an answer, all of it.
\<close>

definition node_answers :: "u16 \<Rightarrow> string \<Rightarrow> string \<Rightarrow> bool" where
  "node_answers port text answer \<longleftrightarrow>
     (\<exists>os c h c' act h'. os_send_bounded os \<and> conn_inv c \<and> \<not> hasPendingWrite c \<and> c_parser c = HttpParser_new
        \<and> sr_data (os h (Sys_recv (conn_fd c) 8192)) = text
        \<and> sr_ret (os h (Sys_recv (conn_fd c) 8192)) = int (length text)
        \<and> serveConnection os (serverRoutes port) (conn_fd c) c h = (c', act, h')
        \<and> pending c' = [] \<and> \<not> send_failed (conn_fd c) h'
        \<and> sent_bytes (conn_fd c) h' = sent_bytes (conn_fd c) h @ answer)"

lemma node_answers_text:
  assumes "node_answers port (requestText req) answer" "wf_request req"
    and "ka = connectionKeepAlive (rq_headers req) (rq_version req)"
  shows "answer = serialize ((dispatch (serverRoutes port) req)\<lparr>rs_keepAlive := ka\<rparr>)"
proof -
  from assms(1) obtain os c h c' act h' where n: "os_send_bounded os" "conn_inv c" "\<not> hasPendingWrite c"
    "c_parser c = HttpParser_new" "sr_data (os h (Sys_recv (conn_fd c) 8192)) = requestText req"
    "sr_ret (os h (Sys_recv (conn_fd c) 8192)) = int (length (requestText req))"
    "serveConnection os (serverRoutes port) (conn_fd c) c h = (c', act, h')"
    "pending c' = []" "\<not> send_failed (conn_fd c) h'"
    "sent_bytes (conn_fd c) h' = sent_bytes (conn_fd c) h @ answer"
    unfolding node_answers_def by blast
  from serveConnection_answers [OF n(1-4) assms(2) n(5-7) assms(3)] n(8-10) show ?thesis
    by (simp add: written_def node_dispatch)
qed

text \<open>Such answers exist: a node whose socket takes every byte.\<close>

lemma flushLoop_text_os:
  assumes "buf \<noteq> []"
  shows "flushLoop (text_os t) f buf 0 h = (Flushed, length buf, (Sys_send f buf, text_os t h (Sys_send f buf)) # h)"
  using assms by (simp add: flushLoop.simps [of _ _ _ 0] invoke_def Let_def) (simp add: flushLoop.simps text_os_def)

lemma answerRequest_text_os:
  assumes "c = idle_conn\<lparr>c_parser := p\<rparr>"
    and "answerRequest (text_os t) router c h = (c', act, h')"
  shows "pending c' = [] \<and> \<not> send_failed 4 h'"
proof -
  let ?text = "serialize ((dispatch router (p_req p))\<lparr>rs_keepAlive := rq_keepAlive (p_req p)\<rparr>)"
  let ?c = "queueWrite ?text (setPendingKeepAlive (rq_keepAlive (p_req p)) c)"
  have n: "?text \<noteq> []" by (simp add: serialize_eq)
  have c: "conn_fd ?c = 4" "c_writeBuffer ?c = ?text" "c_writeOffset ?c = 0" unfolding assms(1)
    by (simp_all add: idle_conn_def Connection_new_def queueWrite_def setPendingKeepAlive_def conn_fd_def Socket_of_def)
  have f: "flushWrite (text_os t) ?c h = (True, ?c\<lparr>c_writeBuffer := [], c_writeOffset := 0\<rparr>,
      (Sys_send 4 ?text, text_os t h (Sys_send 4 ?text)) # h)"
    using n c by (simp add: flushWrite_def flushLoop_text_os)
  with assms show ?thesis using n
    by (auto simp: answerRequest_def Let_def reset_parser_def pending_def text_os_def)
qed

lemma node_answers_ex:
  assumes "wf_request req" shows "\<exists>answer. node_answers port (requestText req) answer"
proof -
  let ?os = "text_os (requestText req)" and ?ka = "connectionKeepAlive (rq_headers req) (rq_version req)"
  have r: "sr_data (?os [] (Sys_recv (conn_fd idle_conn) 8192)) = requestText req"
    "sr_ret (?os [] (Sys_recv (conn_fd idle_conn) 8192)) = int (length (requestText req))"
    by (simp_all add: text_os_def)
  obtain c' act h' where s: "serveConnection ?os (serverRoutes port) (conn_fd idle_conn) idle_conn [] = (c', act, h')"
    by (metis prod_cases3)
  obtain p where p: "consume HttpParser_new (requestText req) = (ParseComplete, p)"
    using consume_text [OF assms, of "[]"] by simp
  have pos: "0 < length (requestText req)" using assms by (simp add: requestText_def CRLF_def)
  from serveConnection_read [of idle_conn ?os "[]" "conn_fd idle_conn" ParseComplete p "serverRoutes port"] r p pos s
  have "answerRequest ?os (serverRoutes port) (idle_conn\<lparr>c_parser := p\<rparr>)
      [(Sys_recv 4 8192, ?os [] (Sys_recv 4 8192))] = (c', act, h')" by simp
  from answerRequest_text_os [OF refl this] have e: "pending c' = []" "\<not> send_failed (conn_fd idle_conn) h'" by auto
  from serveConnection_answers [OF text_os_send_bounded idle_conn_simps(1,3,4) assms r s refl] e
  have "sent_bytes (conn_fd idle_conn) h' = sent_bytes (conn_fd idle_conn) []
      @ serialize ((dispatch (serverRoutes port) (req\<lparr>rq_keepAlive := ?ka\<rparr>))\<lparr>rs_keepAlive := ?ka\<rparr>)"
    by (simp add: written_def)
  with text_os_send_bounded idle_conn_simps(1,3,4) r s e show ?thesis unfolding node_answers_def by blast
qed

lemma wf_response_keepAlive [simp]: "wf_response (r\<lparr>rs_keepAlive := b\<rparr>) = wf_response r"
  by (simp add: wf_response_def)

subsection \<open>Health checks against a live node\<close>

definition health_request :: HttpRequest where
  "health_request =
     \<lparr>rq_method = ''GET'', rq_target = ''/health'', rq_version = ''HTTP/1.1'',
      rq_headers = [(''Host'', ''healthcheck''), (''Connection'', ''close'')], rq_body = [], rq_keepAlive = False\<rparr>"

lemma health_request_text:
  "kRequest = requestText health_request" "wf_request health_request"
  "\<not> connectionKeepAlive (rq_headers health_request) (rq_version health_request)"
  by code_simp+

text \<open>C20: A live worker node is found healthy: the probe's request, parsed, routed and answered by
  the server, and the answer's bytes, cut into reads in any way and parsed by the health checker,
  make the probe succeed.\<close>

theorem live_node_healthy:
  assumes "node_answers port kRequest answer" "reachable_upstream os u h h6"
    and "recv_pos os (sr_ret (os h Sys_socket)) 2048 k h6"
    and "concat (recv_chunks os (sr_ret (os h Sys_socket)) 2048 k h6) = answer"
  shows "\<exists>h'. probeOnce os u h = Some (True, h')"
proof -
  let ?r = "(dispatch (serverRoutes port) health_request)\<lparr>rs_keepAlive := False\<rparr>"
  have "answer = serialize ?r"
    using node_answers_text [OF assms(1) [unfolded health_request_text(1)] health_request_text(2), of False]
      health_request_text(3) by simp
  with assms(4) have c: "concat (recv_chunks os (sr_ret (os h Sys_socket)) 2048 k h6) = serialize ?r @ []" by simp
  have "rs_status ?r = 200" by (simp add: node_dispatch health_request_def makeJsonResponse_def HttpResponse_new_def)
  moreover have "wf_response ?r" by (simp add: node_dispatch_wf)
  ultimately show ?thesis
    using recvResponse_text [OF _ assms(3) c] by (auto simp: probeOnce_reachable [OF assms(2) refl])
qed

theorem live_node_healthy_witness:
  "\<exists>answer h'. node_answers 9001 kRequest answer
     \<and> probeOnce (upstream_os answer) (Upstream_new ''127.0.0.1'' 9001) [] = Some (True, h')"
proof -
  obtain answer where a: "node_answers 9001 kRequest answer"
    using node_answers_ex [OF health_request_text(2)] health_request_text(1) by auto
  have n: "answer \<noteq> []"
    using node_answers_text [OF a [unfolded health_request_text(1)] health_request_text(2) refl] by (simp add: serialize_eq)
  have s: "sr_ret (upstream_os answer [] Sys_socket) = 1" by (simp add: upstream_os_def fresh_fd_def)
  obtain h6 where "reachable_upstream (upstream_os answer) (Upstream_new ''127.0.0.1'' 9001) [] h6"
    "recv_pos (upstream_os answer) 1 2048 1 h6" "concat (recv_chunks (upstream_os answer) 1 2048 1 h6) = answer"
    using upstream_os_reachable [of answer "Upstream_new ''127.0.0.1'' 9001"] n by auto
  with live_node_healthy [OF a, where os = "upstream_os answer" and h = "[]" and k = 1] s a show ?thesis by auto
qed

subsection \<open>A request through the load balancer to a node\<close>

lemma node_dispatch_connection: "findHeader (rs_headers (dispatch (serverRoutes port) req)) ''Connection'' = None"
proof -
  have "findHeader [(''Content-Type'', ''application/json'')] ''Connection'' = None" by code_simp
  then show ?thesis by (simp add: node_dispatch makeJsonResponse_def HttpResponse_new_def)
qed

lemma balanced:
  assumes "os_send_bounded os" "conn_inv c" "pickNext pool = (Some i, pool')"
    and "ufd = sr_ret (os h Sys_socket)" "0 \<le> ufd" "wf_request req"
    and "exchange_ready os ufd (up_upstreams pool ! i) req ((Sys_socket, os h Sys_socket) # h) h6"
    and "node_answers port (forwardText req) answer"
    and "recv_pos os ufd 8192 k h6" "concat (recv_chunks os ufd 8192 k h6) = answer"
  shows "answer = serialize ((dispatch (serverRoutes port) req)\<lparr>rs_keepAlive := False\<rparr>)"
    "\<exists>c' h'. proxyRequest os pool c req h = Some (True, c', pool', h')
      \<and> pending c' = pending c @ answer \<and> c_pendingKeepAlive c' = rq_keepAlive req"
proof -
  let ?r = "(dispatch (serverRoutes port) req)\<lparr>rs_keepAlive := False\<rparr>"
  have "dispatch (serverRoutes port) (forwarded req) = dispatch (serverRoutes port) req"
    by (simp add: node_dispatch forwarded_def)
  with node_answers_text [OF assms(8) [unfolded forwardText_eq] forwarded_wf [OF assms(6)], of False]
    forwarded_close [of req]
  show a: "answer = serialize ?r" by simp
  with assms(10) have "concat (recv_chunks os ufd 8192 k h6) = serialize ?r @ []" by simp
  moreover have "wf_response ?r" by (simp add: node_dispatch_wf)
  ultimately show "\<exists>c' h'. proxyRequest os pool c req h = Some (True, c', pool', h')
      \<and> pending c' = pending c @ answer \<and> c_pendingKeepAlive c' = rq_keepAlive req"
    using proxy_relays [OF assms(1-5,7) _ assms(9)] a by blast
qed

text \<open>C3: End to end. A client's request that the balancer forwards to a worker node and whose
  answer comes back, in reads of any sizes, reaches the client as exactly the text of the node's
  response to that request, for the method and target the client sent, marked
  \<open>Connection: close\<close>; the pool has advanced by one pick.\<close>

theorem end_to_end:
  assumes "os_send_bounded os" "conn_inv c" "pickNext pool = (Some i, pool')"
    and "ufd = sr_ret (os h Sys_socket)" "0 \<le> ufd" "wf_request req"
    and "exchange_ready os ufd (up_upstreams pool ! i) req ((Sys_socket, os h Sys_socket) # h) h6"
    and "node_answers port (forwardText req) answer"
    and "recv_pos os ufd 8192 k h6" "concat (recv_chunks os ufd 8192 k h6) = answer"
  shows "\<exists>c' h'. proxyRequest os pool c req h = Some (True, c', pool', h')
    \<and> pending c' = pending c @ serialize ((dispatch (serverRoutes port) req)\<lparr>rs_keepAlive := False\<rparr>)"
  using balanced [OF assms] by blast

text \<open>The exchange of the witnesses: an upstream that answers with a node's answer.\<close>

lemma node_exchange:
  assumes "wf_request req"
  obtains answer pool' h6 where "node_answers 9001 (forwardText req) answer"
    "pickNext one_upstream = (Some 0, pool')" "(1 :: int) = sr_ret (upstream_os answer [] Sys_socket)"
    "exchange_ready (upstream_os answer) 1 (up_upstreams one_upstream ! 0) req
       ((Sys_socket, upstream_os answer [] Sys_socket) # []) h6"
    "recv_pos (upstream_os answer) 1 8192 1 h6" "concat (recv_chunks (upstream_os answer) 1 8192 1 h6) = answer"
proof -
  obtain answer where a: "node_answers 9001 (forwardText req) answer"
    using node_answers_ex [OF forwarded_wf [OF assms], of 9001] by (auto simp: forwardText_eq)
  have "fst (pickNext one_upstream) = Some 0" by code_simp
  then obtain pool' where p: "pickNext one_upstream = (Some 0, pool')" by (metis prod.collapse)
  have n: "answer \<noteq> []"
    using node_answers_text [OF a [unfolded forwardText_eq] forwarded_wf [OF assms] refl] by (simp add: serialize_eq)
  have s: "1 = sr_ret (upstream_os answer [] Sys_socket)" by (simp add: upstream_os_def fresh_fd_def)
  obtain h6 where "exchange_ready (upstream_os answer) 1 (up_upstreams one_upstream ! 0) req
      ((Sys_socket, upstream_os answer [] Sys_socket) # []) h6"
    "recv_pos (upstream_os answer) 1 8192 1 h6" "concat (recv_chunks (upstream_os answer) 1 8192 1 h6) = answer"
    using upstream_os_exchange [of answer] n by fastforce
  with a p s that show thesis by blast
qed

theorem end_to_end_witness:
  "\<exists>answer c' pool' h'. proxyRequest (upstream_os answer) one_upstream idle_conn sample_request [] = Some (True, c', pool', h')
     \<and> pending c' = serialize ((dispatch (serverRoutes 9001) sample_request)\<lparr>rs_keepAlive := False\<rparr>)"
proof -
  have w: "wf_request sample_request" by code_simp
  obtain answer pool' h6 where e: "node_answers 9001 (forwardText sample_request) answer"
    "pickNext one_upstream = (Some 0, pool')" "(1 :: int) = sr_ret (upstream_os answer [] Sys_socket)"
    "exchange_ready (upstream_os answer) 1 (up_upstreams one_upstream ! 0) sample_request
       ((Sys_socket, upstream_os answer [] Sys_socket) # []) h6"
    "recv_pos (upstream_os answer) 1 8192 1 h6" "concat (recv_chunks (upstream_os answer) 1 8192 1 h6) = answer"
    using node_exchange [OF w] by blast
  from end_to_end [where os = "upstream_os answer" and h = "[]", OF upstream_os_send_bounded idle_conn_simps(1) e(2,3) _ w e(4,1,5,6)]
  show ?thesis by auto
qed

text \<open>C38: The balancer contradicts what it relays. For a client that keeps its connection open, the
  answer relayed from a worker node reads, in the client's parser, as a response after which the
  connection closes, while the balancer marks the connection to be kept.\<close>

theorem relayed_close_contradicted:
  assumes "os_send_bounded os" "conn_inv c" "pickNext pool = (Some i, pool')"
    and "ufd = sr_ret (os h Sys_socket)" "0 \<le> ufd" "wf_request req" "rq_keepAlive req" "pending c = []"
    and "exchange_ready os ufd (up_upstreams pool ! i) req ((Sys_socket, os h Sys_socket) # h) h6"
    and "node_answers port (forwardText req) answer"
    and "recv_pos os ufd 8192 k h6" "concat (recv_chunks os ufd 8192 k h6) = answer"
  shows "\<exists>c' h' q. proxyRequest os pool c req h = Some (True, c', pool', h') \<and> c_pendingKeepAlive c'
    \<and> response_consume HttpResponseParser_new (pending c') = (ParseComplete, q) \<and> \<not> rs_keepAlive (r_resp q)"
proof -
  let ?r = "(dispatch (serverRoutes port) req)\<lparr>rs_keepAlive := False\<rparr>"
  note b = balanced [OF assms(1-6,9-12)]
  from b(2) assms(7,8) obtain c' h' where p: "proxyRequest os pool c req h = Some (True, c', pool', h')"
    "pending c' = serialize ?r" "c_pendingKeepAlive c'" unfolding b(1) [symmetric] by auto
  have "findHeader (rs_headers ?r) ''Connection'' = None" by (simp add: node_dispatch_connection)
  from keepAlive_printed [OF this] have "\<not> connectionKeepAlive (printed_headers ?r) ''HTTP/1.1''" by simp
  with response_consume_text [of ?r "[]"] node_dispatch_wf [of port req] p show ?thesis by auto
qed

definition plain_request :: HttpRequest where
  "plain_request = \<lparr>rq_method = ''GET'', rq_target = ''/'', rq_version = ''HTTP/1.1'',
     rq_headers = [(''Host'', ''a:1'')], rq_body = [], rq_keepAlive = True\<rparr>"

theorem relayed_close_contradicted_witness:
  "\<exists>answer c' pool' h' q. proxyRequest (upstream_os answer) one_upstream idle_conn plain_request [] = Some (True, c', pool', h')
     \<and> c_pendingKeepAlive c' \<and> response_consume HttpResponseParser_new (pending c') = (ParseComplete, q)
     \<and> \<not> rs_keepAlive (r_resp q)"
proof -
  have w: "wf_request plain_request" and k: "rq_keepAlive plain_request" by code_simp+
  obtain answer pool' h6 where e: "node_answers 9001 (forwardText plain_request) answer"
    "pickNext one_upstream = (Some 0, pool')" "(1 :: int) = sr_ret (upstream_os answer [] Sys_socket)"
    "exchange_ready (upstream_os answer) 1 (up_upstreams one_upstream ! 0) plain_request
       ((Sys_socket, upstream_os answer [] Sys_socket) # []) h6"
    "recv_pos (upstream_os answer) 1 8192 1 h6" "concat (recv_chunks (upstream_os answer) 1 8192 1 h6) = answer"
    using node_exchange [OF w] by blast
  from relayed_close_contradicted [where os = "upstream_os answer" and h = "[]",
      OF upstream_os_send_bounded idle_conn_simps(1) e(2,3) _ w k idle_conn_simps(6) e(4,1,5,6)]
  show ?thesis by auto
qed

end
